(* ===== verification/Sponge_Prelude.thy ===== *)
theory Sponge_Prelude
  imports Main "HOL-Library.Word"
begin

text \<open>
  Shared vocabulary of the development.

  \<^item> Machine types: \<open>u8\<close>, \<open>u16\<close>, \<open>u32\<close>, \<open>u64\<close> are the fixed-width unsigned integers
    of the C++ code (\<open>size_t\<close> is 64 bits wide). Sizes of containers are \<open>nat\<close>; where the
    code stores a size in a field or adds it to one it is converted with \<open>of_nat\<close>, so that
    every sum and difference of the code wraps in the model where it wraps in the program.
  \<^item> Failure: \<open>cxx_error\<close> lists what a C++ operation can do other than return
    (throw one of the standard exceptions, or have undefined behaviour); \<open>'a res\<close> is the
    result of such an operation and \<open>bindE\<close> sequences them.
  \<^item> Runs: \<open>reach\<close> is the reachability predicate of a step relation and the locale
    \<open>invariant_system\<close> the one proof that an inductive invariant holds on it.
  \<^item> Generic facts on lists and on words used by the component theories.
\<close>

type_synonym u8 = "8 word"
type_synonym u16 = "16 word"
type_synonym u32 = "32 word"
type_synonym u64 = "64 word"
type_synonym bytes = "8 word list"

named_theorems nowrap \<open>reading sums and differences of machine words as natural numbers\<close>

section \<open>Failure\<close>

datatype cxx_error =
    OutOfRange      \<comment> \<open>std::out_of_range\<close>
  | RuntimeError    \<comment> \<open>std::runtime_error\<close>
  | InvalidArgument \<comment> \<open>std::invalid_argument\<close>
  | LengthError     \<comment> \<open>std::length_error\<close>
  | BadOptionalAccess \<comment> \<open>std::bad_optional_access\<close>
  | UB              \<comment> \<open>undefined behaviour\<close>

type_synonym 'a res = "cxx_error + 'a"

definition bindE :: "'a res \<Rightarrow> ('a \<Rightarrow> 'b res) \<Rightarrow> 'b res" where
  "bindE m f = (case m of Inl e \<Rightarrow> Inl e | Inr x \<Rightarrow> f x)"

text \<open>\<open>std::string::substr (pos, n)\<close>: throws when \<open>pos\<close> is beyond the end, and clamps \<open>n\<close>.\<close>

definition substr :: "bytes \<Rightarrow> u64 \<Rightarrow> u64 \<Rightarrow> bytes res" where
  "substr s pos n =
     (if unat pos \<le> length s then Inr (take (unat n) (drop (unat pos) s)) else Inl OutOfRange)"

section \<open>Reachable states\<close>

inductive reach :: "('s \<Rightarrow> bool) \<Rightarrow> ('s \<Rightarrow> 's \<Rightarrow> bool) \<Rightarrow> 's \<Rightarrow> bool"
  for init :: "'s \<Rightarrow> bool" and step :: "'s \<Rightarrow> 's \<Rightarrow> bool" where
  reach_init: "init s \<Longrightarrow> reach init step s"
| reach_step: "reach init step s \<Longrightarrow> step s t \<Longrightarrow> reach init step t"

section \<open>Lemmas on results\<close>

lemma bindE_simps [simp]:
  "bindE (Inl e) f = Inl e"
  "bindE (Inr x) f = f x"
  by (simp_all add: bindE_def)

lemma bindE_Inr_iff: "bindE m f = Inr y \<longleftrightarrow> (\<exists>x. m = Inr x \<and> f x = Inr y)"
  by (cases m) simp_all

lemma bindE_Inl_iff: "bindE m f = Inl e \<longleftrightarrow> m = Inl e \<or> (\<exists>x. m = Inr x \<and> f x = Inl e)"
  by (cases m) auto

lemma bindE_assoc: "bindE (bindE m f) g = bindE m (\<lambda>x. bindE (f x) g)"
  by (cases m) simp_all

lemma substr_ok: "unat pos \<le> length s \<Longrightarrow> substr s pos n = Inr (take (unat n) (drop (unat pos) s))"
  by (simp add: substr_def)

section \<open>Invariants of a step relation\<close>

locale invariant_system =
  fixes init :: "'s \<Rightarrow> bool" and step :: "'s \<Rightarrow> 's \<Rightarrow> bool" and I :: "'s \<Rightarrow> bool"
  assumes inv_init: "init s \<Longrightarrow> I s"
    and inv_step: "I s \<Longrightarrow> step s t \<Longrightarrow> I t"
begin

lemma inv_reach: "reach init step s \<Longrightarrow> I s"
  by (induction rule: reach.induct) (auto intro: inv_init inv_step)

end

section \<open>Words\<close>

lemma unat_lt_64 [simp]: "unat (x :: u64) < 18446744073709551616"
  using unsigned_less [of x] by simp

lemma unat_lt_32 [simp]: "unat (x :: u32) < 4294967296"
  using unsigned_less [of x] by simp

lemma unat_lt_16 [simp]: "unat (x :: u16) < 65536"
  using unsigned_less [of x] by simp

lemma unat_lt_8 [simp]: "unat (x :: u8) < 256"
  using unsigned_less [of x] by simp

lemma unat_add_nowrap [nowrap]:
  "unat a + unat b < 2 ^ 64 \<Longrightarrow> unat (a + b :: u64) = unat a + unat b"
  by (subst unat_add_lem [symmetric]) simp

lemma unat_sub_nowrap [nowrap]: "b \<le> a \<Longrightarrow> unat (a - b :: u64) = unat a - unat b"
  by (rule unat_sub)

lemma unat_of_nat_small [nowrap]: "n < 2 ^ 64 \<Longrightarrow> unat (of_nat n :: u64) = n"
  by (simp add: unat_of_nat take_bit_nat_eq_self)

lemma unat_add_of_nat [nowrap]:
  "unat a + n < 2 ^ 64 \<Longrightarrow> unat (a + of_nat n :: u64) = unat a + n"
  by (subst unat_add_nowrap) (simp_all add: unat_of_nat_small)

lemma unat_ucast_32_64 [simp]: "unat (ucast (x :: u32) :: u64) = unat x"
  by (simp add: unsigned_ucast_eq take_bit_nat_eq_self order.strict_trans [OF unat_lt_32])

lemma unat_ucast_16_64 [simp]: "unat (ucast (x :: u16) :: u64) = unat x"
  by (simp add: unsigned_ucast_eq take_bit_nat_eq_self order.strict_trans [OF unat_lt_16])

lemma unat_eqI: "unat a = unat b \<Longrightarrow> a = b"
  by (rule word_unat_eq_iff [THEN iffD2])

section \<open>Pieces of a list\<close>

definition piece :: "'a list \<Rightarrow> nat \<Rightarrow> nat \<Rightarrow> 'a list" where
  "piece S i n = take n (drop i S)"

lemma length_piece [simp]: "length (piece S i n) = min n (length S - i)"
  by (simp add: piece_def)

lemma piece_0 [simp]: "piece S i 0 = []" "piece S 0 n = take n S"
  by (simp_all add: piece_def)

lemma piece_nth: "j < n \<Longrightarrow> i + n \<le> length S \<Longrightarrow> piece S i n ! j = S ! (i + j)"
  by (simp add: piece_def)

lemma piece_append: "piece S i m @ piece S (i + m) n = piece S i (m + n)"
  by (simp add: piece_def take_add add.commute)

lemma take_piece: "take m (piece S i n) = piece S i (min m n)"
  by (simp add: piece_def)

lemma drop_piece: "drop m (piece S i n) = piece S (i + m) (n - m)"
  by (simp add: piece_def drop_take add.commute)

lemma piece_eqI:
  assumes "length v = n" and "i + n \<le> length S" and "\<And>j. j < n \<Longrightarrow> v ! j = S ! (i + j)"
  shows "v = piece S i n"
  by (rule nth_equalityI) (use assms in \<open>simp_all add: piece_nth\<close>)

end
