(* ===== verification/Wrapping_Integers.thy ===== *)
theory Wrapping_Integers
  imports Sponge_Prelude
begin

text \<open>
  Models \<^verbatim>\<open>libsponge/wrapping_integers.hh\<close> and \<^verbatim>\<open>wrapping_integers.cc\<close>: 32-bit sequence numbers
  relative to an initial sequence number, and their conversion to and from 64-bit absolute
  sequence numbers. The locale \<open>seqno_space\<close> is the interface the sender and the receiver
  rely on; it is interpreted on \<open>wrap\<close> and \<open>unwrap\<close> below.
\<close>

section \<open>Model\<close>

datatype WrappingInt32 = WrappingInt32 (raw_value: u32)

definition wi_diff :: "WrappingInt32 \<Rightarrow> WrappingInt32 \<Rightarrow> 32 word" where
  "wi_diff a b = raw_value a - raw_value b"

definition wi_diff_int :: "WrappingInt32 \<Rightarrow> WrappingInt32 \<Rightarrow> int" where
  "wi_diff_int a b = sint (wi_diff a b)"

definition wi_eq :: "WrappingInt32 \<Rightarrow> WrappingInt32 \<Rightarrow> bool" where
  "wi_eq a b = (raw_value a = raw_value b)"

definition wi_neq :: "WrappingInt32 \<Rightarrow> WrappingInt32 \<Rightarrow> bool" where
  "wi_neq a b = (\<not> wi_eq a b)"

definition wi_plus :: "WrappingInt32 \<Rightarrow> u32 \<Rightarrow> WrappingInt32" where
  "wi_plus a b = WrappingInt32 (raw_value a + b)"

definition wi_minus :: "WrappingInt32 \<Rightarrow> u32 \<Rightarrow> WrappingInt32" where
  "wi_minus a b = wi_plus a (- b)"

definition N :: u64 where
  "N = push_bit 32 1"

definition wrap :: "u64 \<Rightarrow> WrappingInt32 \<Rightarrow> WrappingInt32" where
  "wrap n isn =
     (let sum = n + ucast (raw_value isn);
          res = ucast (sum mod N) :: u32
      in WrappingInt32 res)"

definition dist :: "u64 \<Rightarrow> u64 \<Rightarrow> u64" where
  "dist a b = (if b \<ge> a then b - a else a - b)"

definition cacul_result :: "u64 \<Rightarrow> u64 \<Rightarrow> u64 \<Rightarrow> u64" where
  "cacul_result base n_64_abs isn_64 = base * N + n_64_abs - isn_64"

definition unwrap :: "WrappingInt32 \<Rightarrow> WrappingInt32 \<Rightarrow> u64 \<Rightarrow> u64" where
  "unwrap n isn checkpoint =
     (let n_64_abs = ucast (raw_value n - raw_value isn) :: u64;
          offset = checkpoint mod N;
          base = checkpoint div N;
          base' = (if n_64_abs \<ge> offset \<and> n_64_abs - offset \<ge> N div 2 \<and> checkpoint \<ge> N
                   then base - 1
                   else if n_64_abs < offset \<and> offset - n_64_abs \<ge> N div 2
                   then base + 1
                   else base)
      in base' * N + n_64_abs)"

section \<open>The conversions on natural numbers\<close>

lemma unat_N [simp]: "unat N = 4294967296"
  by (simp add: N_def)

lemma N_eq: "N = 4294967296"
  by (simp add: N_def)

lemma raw_wrap: "raw_value (wrap n isn) = ucast n + raw_value isn"
proof (rule unat_eqI)
  have "unat (raw_value (wrap n isn)) = ((unat n + unat (raw_value isn)) mod 18446744073709551616) mod 4294967296"
    by (simp add: wrap_def Let_def unat_word_ariths unsigned_ucast_eq take_bit_eq_mod mod_add_right_eq)
  also have "\<dots> = (unat n + unat (raw_value isn)) mod 4294967296"
    by (rule mod_mod_cancel) simp
  also have "\<dots> = unat (ucast n + raw_value isn)"
    by (simp add: unat_word_ariths unsigned_ucast_eq take_bit_eq_mod mod_add_left_eq)
  finally show "unat (raw_value (wrap n isn)) = unat (ucast n + raw_value isn)" .
qed

lemma wrap_eq_iff: "wrap n isn = m \<longleftrightarrow> ucast n = raw_value m - raw_value isn"
proof -
  have "wrap n isn = m \<longleftrightarrow> raw_value (wrap n isn) = raw_value m"
    by (cases m; cases "wrap n isn") simp
  then show ?thesis by (auto simp: raw_wrap eq_diff_eq)
qed

lemma unat_ucast_32: "unat (ucast (n :: u64) :: u32) = unat n mod 4294967296"
  by (simp add: unsigned_ucast_eq take_bit_eq_mod)

lemma wrap_eq_iff_mod:
  "wrap n isn = m \<longleftrightarrow> unat n mod 4294967296 = unat (raw_value m - raw_value isn)"
  by (simp add: wrap_eq_iff word_unat_eq_iff unat_ucast_32)

text \<open>
  The reference: the candidates that wrap to \<open>n\<close> are the numbers \<open>a + k * 2 ^ 32\<close>; the
  code takes the quotient of the checkpoint, or the one below or above it.
\<close>

definition unwrap_base :: "nat \<Rightarrow> nat \<Rightarrow> nat" where
  "unwrap_base a c =
     (if c mod 2 ^ 32 \<le> a \<and> 2 ^ 31 \<le> a - c mod 2 ^ 32 \<and> 2 ^ 32 \<le> c then c div 2 ^ 32 - 1
      else if a < c mod 2 ^ 32 \<and> 2 ^ 31 \<le> c mod 2 ^ 32 - a then c div 2 ^ 32 + 1
      else c div 2 ^ 32)"

lemma unat_unwrap:
  "unat (unwrap n isn cp) =
     (unwrap_base (unat (raw_value n - raw_value isn)) (unat cp) * 2 ^ 32
       + unat (raw_value n - raw_value isn)) mod 2 ^ 64"
proof -
  let ?a = "ucast (raw_value n - raw_value isn) :: u64"
  let ?off = "cp mod N" and ?base = "cp div N"
  let ?c1 = "?off \<le> ?a \<and> N div 2 \<le> ?a - ?off \<and> N \<le> cp"
  let ?c2 = "?a < ?off \<and> N div 2 \<le> ?off - ?a"
  have half: "unat (N div 2) = 2147483648"
    by (simp add: N_eq)
  have off: "unat ?off = unat cp mod 4294967296" and base: "unat ?base = unat cp div 4294967296"
    by (simp_all add: unat_mod_distrib unat_div_distrib)
  have c1: "?c1 \<longleftrightarrow> unat cp mod 4294967296 \<le> unat ?a \<and> 2147483648 \<le> unat ?a - unat cp mod 4294967296
      \<and> 4294967296 \<le> unat cp"
    using unat_sub_nowrap [of ?off ?a] by (auto simp: word_le_nat_alt off half)
  have c2: "?c2 \<longleftrightarrow> unat ?a < unat cp mod 4294967296 \<and> 2147483648 \<le> unat cp mod 4294967296 - unat ?a"
    using unat_sub_nowrap [of ?a ?off] by (auto simp: word_le_nat_alt word_less_nat_alt off half)
  let ?b = "if ?c1 then ?base - 1 else if ?c2 then ?base + 1 else ?base"
  have "unat ?b = unwrap_base (unat ?a) (unat cp)"
  proof -
    have "unat (?base - 1) = unat cp div 4294967296 - 1" if "?c1"
    proof -
      from that have "4294967296 \<le> unat cp" by (simp add: word_le_nat_alt)
      then have "1 \<le> unat ?base" by (simp add: base div_greater_zero_iff Suc_le_eq)
      then have "1 \<le> ?base" by (simp add: word_le_nat_alt)
      then show ?thesis by (simp add: unat_sub_nowrap base)
    qed
    moreover have "unat (?base + 1) = unat cp div 4294967296 + 1"
    proof -
      have "unat ?base < 4294967296" using unat_lt_64 [of cp] by (simp only: base)
      then show ?thesis by (subst unat_add_nowrap) (simp_all add: base)
    qed
    ultimately show ?thesis by (simp add: unwrap_base_def c1 c2 base)
  qed
  moreover have "unwrap n isn cp = ?b * N + ?a"
    by (simp only: unwrap_def Let_def)
  ultimately show ?thesis
    by (simp add: unat_word_ariths mod_add_left_eq)
qed

lemma unwrap_base_near:
  fixes x c :: nat
  assumes "x < c + 2 ^ 31" and "c < x + 2 ^ 31"
  shows "unwrap_base (x mod 2 ^ 32) c * 2 ^ 32 + x mod 2 ^ 32 = x"
proof -
  define q b a r where "q = x div 2 ^ 32" and "b = c div 2 ^ 32" and "a = x mod 2 ^ 32" and "r = c mod 2 ^ 32"
  have x: "x = q * 2 ^ 32 + a" and c: "c = b * 2 ^ 32 + r" and a: "a < 2 ^ 32" and r: "r < 2 ^ 32"
    by (simp_all add: q_def b_def a_def r_def)
  from assms a r have "q = b \<or> q = b + 1 \<or> q + 1 = b"
    unfolding x c by simp linarith
  then have "unwrap_base a c = q"
    using assms a r unfolding unwrap_base_def r_def [symmetric] b_def [symmetric] unfolding x c
    by simp linarith
  then have "unwrap_base a c * 2 ^ 32 + a = x" by (simp only: x)
  then show ?thesis by (simp only: a_def)
qed

lemma unat_dist: "int (unat (dist a b)) = \<bar>int (unat a) - int (unat b)\<bar>"
proof -
  have "int (unat (q - p)) = \<bar>int (unat p) - int (unat q)\<bar>" if "p \<le> q" for p q :: u64
    unfolding unat_sub_nowrap [OF that] using that [unfolded word_le_nat_alt] by linarith
  from this [of a b] this [of b a] show ?thesis
    unfolding dist_def by (auto simp only: split: if_split)
qed

lemma unwrap_base_cases:
  obtains (low) "unwrap_base a c = c div 2 ^ 32 - 1" "c mod 2 ^ 32 + 2 ^ 31 \<le> a" "1 \<le> c div 2 ^ 32"
    | (high) "unwrap_base a c = c div 2 ^ 32 + 1" "a + 2 ^ 31 \<le> c mod 2 ^ 32"
    | (same) "unwrap_base a c = c div 2 ^ 32" "a < c mod 2 ^ 32 + 2 ^ 31 \<or> c div 2 ^ 32 = 0"
        "c mod 2 ^ 32 < a + 2 ^ 31"
proof -
  let ?r = "c mod 2 ^ 32" and ?b = "c div 2 ^ 32"
  have ge: "2 ^ 32 \<le> c \<longleftrightarrow> 1 \<le> ?b" by (simp add: Suc_le_eq div_greater_zero_iff)
  show thesis
  proof (cases "?r \<le> a \<and> 2 ^ 31 \<le> a - ?r \<and> 2 ^ 32 \<le> c")
    case True
    then have "unwrap_base a c = ?b - 1" unfolding unwrap_base_def by (rule if_P)
    moreover from True have "?r + 2 ^ 31 \<le> a" "1 \<le> ?b" unfolding ge by linarith+
    ultimately show thesis by (rule low)
  next
    case False
    note F = this
    show thesis
    proof (cases "a < ?r \<and> 2 ^ 31 \<le> ?r - a")
      case True
      then have "unwrap_base a c = ?b + 1" unfolding unwrap_base_def if_not_P [OF F] by (rule if_P)
      moreover from True have "a + 2 ^ 31 \<le> ?r" by linarith
      ultimately show thesis by (rule high)
    next
      case False
      then have "unwrap_base a c = ?b" unfolding unwrap_base_def if_not_P [OF F] by (rule if_not_P)
      moreover from F have "a < ?r + 2 ^ 31 \<or> ?b = 0" unfolding ge by linarith
      moreover from False have "?r < a + 2 ^ 31" by (cases "a < ?r") auto
      ultimately show thesis by (rule same)
    qed
  qed
qed

lemma unwrap_base_bound:
  assumes "c < 2 ^ 64 - 2 ^ 32"
  shows "unwrap_base a c < 2 ^ 32"
proof -
  have "c div 2 ^ 32 + 1 < 2 ^ 32" using assms by simp
  then show ?thesis by (cases rule: unwrap_base_cases [of a c]) simp_all
qed

lemma closest_aux:
  fixes q b a r :: int
  assumes "0 \<le> a" "a < 4294967296" "0 \<le> r" "r < 4294967296" "0 \<le> q" "0 \<le> b"
  defines "d \<equiv> \<bar>(q * 4294967296 + a) - (b * 4294967296 + r)\<bar>"
  shows "a < r \<Longrightarrow> 2147483648 \<le> r - a \<Longrightarrow> \<bar>4294967296 + a - r\<bar> \<le> d"
    and "r \<le> a \<Longrightarrow> 2147483648 \<le> a - r \<Longrightarrow> \<bar>a - 4294967296 - r\<bar> \<le> d"
    and "a - r < 2147483648 \<or> b = 0 \<Longrightarrow> r - a < 2147483648 \<Longrightarrow> \<bar>a - r\<bar> \<le> d"
proof -
  consider "q = b" | "q \<ge> b + 1" | "q \<le> b - 1" by linarith
  then show "a < r \<Longrightarrow> 2147483648 \<le> r - a \<Longrightarrow> \<bar>4294967296 + a - r\<bar> \<le> d"
    by cases (use assms in linarith)+
  consider "q = b" | "q \<ge> b + 1" | "q \<le> b - 1" by linarith
  then show "r \<le> a \<Longrightarrow> 2147483648 \<le> a - r \<Longrightarrow> \<bar>a - 4294967296 - r\<bar> \<le> d"
    by cases (use assms in linarith)+
  consider "q = b" | "q \<ge> b + 1" | "q \<le> b - 1" by linarith
  then show "a - r < 2147483648 \<or> b = 0 \<Longrightarrow> r - a < 2147483648 \<Longrightarrow> \<bar>a - r\<bar> \<le> d"
    by cases (use assms in linarith)+
qed

lemma unwrap_base_closest:
  fixes x c :: nat
  shows "\<bar>int (unwrap_base (x mod 2 ^ 32) c * 2 ^ 32 + x mod 2 ^ 32) - int c\<bar> \<le> \<bar>int x - int c\<bar>"
proof -
  define q b a r where "q = int (x div 4294967296)" and "b = int (c div 4294967296)"
    and "a = int (x mod 4294967296)" and "r = int (c mod 4294967296)"
  have x: "int x = q * 4294967296 + a" and c: "int c = b * 4294967296 + r"
    by (simp_all add: q_def b_def a_def r_def of_nat_div of_nat_mod)
  have bounds: "0 \<le> a" "a < 4294967296" "0 \<le> r" "r < 4294967296" "0 \<le> q" "0 \<le> b"
    by (simp_all add: q_def b_def a_def r_def)
  let ?u = "unwrap_base (x mod 4294967296) c"
  have num: "(2 :: nat) ^ 32 = 4294967296" by simp
  show ?thesis
  proof (cases rule: unwrap_base_cases [of "x mod 4294967296" c])
    case low
    then have u: "int ?u = b - 1" "r \<le> a" "2147483648 \<le> a - r"
      by (simp_all add: b_def a_def r_def of_nat_diff)
    have "int (?u * 4294967296 + x mod 4294967296) - int c = a - 4294967296 - r"
      by (simp add: u c a_def)
    with closest_aux(2) [OF bounds u(2,3)] show ?thesis unfolding num by (simp only: x c)
  next
    case high
    then have u: "int ?u = b + 1" "a < r" "2147483648 \<le> r - a"
      by (simp_all add: b_def a_def r_def)
    have "int (?u * 4294967296 + x mod 4294967296) - int c = 4294967296 + a - r"
      by (simp add: u c a_def)
    with closest_aux(1) [OF bounds u(2,3)] show ?thesis unfolding num by (simp only: x c)
  next
    case same
    then have u: "int ?u = b" "a - r < 2147483648 \<or> b = 0" "r - a < 2147483648"
      by (auto simp: b_def a_def r_def)
    have "int (?u * 4294967296 + x mod 4294967296) - int c = a - r"
      by (simp add: u c a_def)
    with closest_aux(3) [OF bounds u(2,3)] show ?thesis unfolding num by (simp only: x c)
  qed
qed

section \<open>The interface\<close>

definition near :: "u64 \<Rightarrow> u64 \<Rightarrow> bool" where
  "near x c \<longleftrightarrow> unat x < unat c + 2 ^ 31 \<and> unat c < unat x + 2 ^ 31"

lemma near_refl [simp]: "near x x"
  by (simp add: near_def)

lemma near_sym: "near x y \<longleftrightarrow> near y x"
  by (auto simp: near_def)

lemma near_smallI: "unat x < 2 ^ 31 \<Longrightarrow> unat y < 2 ^ 31 \<Longrightarrow> near x y"
  by (simp add: near_def)

locale seqno_space =
  fixes to_rel :: "u64 \<Rightarrow> WrappingInt32 \<Rightarrow> WrappingInt32"
    and to_abs :: "WrappingInt32 \<Rightarrow> WrappingInt32 \<Rightarrow> u64 \<Rightarrow> u64"
  assumes to_rel_to_abs: "to_rel (to_abs n isn c) isn = n"
    and to_abs_to_rel: "near x c \<Longrightarrow> to_abs (to_rel x isn) isn c = x"
begin

lemma to_rel_inj_near:
  assumes "near x c" and "near y c" and "to_rel x isn = to_rel y isn"
  shows "x = y"
  by (metis assms to_abs_to_rel)

lemma to_abs_gt_iff:
  assumes "near x c" and "near y c"
  shows "to_abs (to_rel x isn) isn c < to_abs (to_rel y isn) isn c \<longleftrightarrow> x < y"
  using assms by (simp add: to_abs_to_rel)

end

interpretation sq: seqno_space wrap unwrap
proof
  fix n isn c
  have "unat (unwrap n isn c) mod 4294967296 = unat (raw_value n - raw_value isn)"
    unfolding unat_unwrap by (subst mod_mod_cancel) simp_all
  then show "wrap (unwrap n isn c) isn = n"
    by (simp only: wrap_eq_iff_mod)
next
  fix x c isn
  assume "near x c"
  then have near: "unat x < unat c + 2 ^ 31" "unat c < unat x + 2 ^ 31"
    by (simp_all only: near_def)
  have a: "unat (raw_value (wrap x isn) - raw_value isn) = unat x mod 2 ^ 32"
    by (simp add: raw_wrap unat_ucast_32)
  have "unat (unwrap (wrap x isn) isn c) = unat x"
    unfolding unat_unwrap a unwrap_base_near [OF near] by simp
  then show "unwrap (wrap x isn) isn c = x"
    by (rule unat_eqI)
qed

section \<open>Properties\<close>

text \<open>
  C1. \<open>unwrap\<close> returns a number that wraps to \<open>n\<close>, and no other number that wraps to \<open>n\<close> is
  closer to the checkpoint. The bound on the checkpoint leaves out the last of the \<open>2 ^ 32\<close>
  blocks, where the closest number need not fit in 64 bits.
\<close>

theorem unwrap_closest:
  assumes "unat checkpoint < 2 ^ 64 - 2 ^ 32"
  shows "wrap (unwrap n isn checkpoint) isn = n \<and>
    (\<forall>x. wrap x isn = n \<longrightarrow> dist (unwrap n isn checkpoint) checkpoint \<le> dist x checkpoint)"
proof (intro conjI allI impI)
  show "wrap (unwrap n isn checkpoint) isn = n" by (rule sq.to_rel_to_abs)
next
  fix x
  assume "wrap x isn = n"
  then have a: "unat (raw_value n - raw_value isn) = unat x mod 2 ^ 32"
    by (simp add: wrap_eq_iff_mod)
  have "unwrap_base (unat x mod 2 ^ 32) (unat checkpoint) < 2 ^ 32" "unat x mod 2 ^ 32 < (2 ^ 32 :: nat)"
    using assms by (rule unwrap_base_bound) simp
  then have "unwrap_base (unat x mod 2 ^ 32) (unat checkpoint) * 2 ^ 32 + unat x mod 2 ^ 32 < 2 ^ 64"
    by simp
  then have "unat (unwrap n isn checkpoint) =
      unwrap_base (unat x mod 2 ^ 32) (unat checkpoint) * 2 ^ 32 + unat x mod 2 ^ 32"
    by (simp only: unat_unwrap a mod_less)
  then have "int (unat (dist (unwrap n isn checkpoint) checkpoint)) \<le> int (unat (dist x checkpoint))"
    unfolding unat_dist by (simp only: unwrap_base_closest)
  then show "dist (unwrap n isn checkpoint) checkpoint \<le> dist x checkpoint"
    by (simp only: word_le_nat_alt of_nat_le_iff)
qed

theorem unwrap_closest_witness:
  "wrap (unwrap (WrappingInt32 5) (WrappingInt32 7) 5000000000) (WrappingInt32 7) = WrappingInt32 5 \<and>
   dist (unwrap (WrappingInt32 5) (WrappingInt32 7) 5000000000) 5000000000 \<le> dist 8589934590 5000000000"
proof -
  have "wrap 8589934590 (WrappingInt32 7) = WrappingInt32 5" by code_simp
  then show ?thesis using unwrap_closest [of 5000000000 "WrappingInt32 5" "WrappingInt32 7"] by simp
qed

text \<open>
  C2. \<open>unwrap\<close> inverts \<open>wrap\<close> whenever the checkpoint is less than \<open>2 ^ 31\<close> away from the
  number that was wrapped, for every initial sequence number.
\<close>

theorem unwrap_wrap:
  assumes "near x checkpoint"
  shows "unwrap (wrap x isn) isn checkpoint = x"
  using assms by (rule sq.to_abs_to_rel)

theorem unwrap_wrap_witness:
  "near 5000000000 5000000001 \<and> unwrap (wrap 5000000000 (WrappingInt32 17)) (WrappingInt32 17) 5000000001 = 5000000000"
proof -
  have "near 5000000000 5000000001" by (simp add: near_def)
  with unwrap_wrap [OF this, of "WrappingInt32 17"] show ?thesis by simp
qed

end
