(* ===== verification/Byte_Stream.thy ===== *)
theory Byte_Stream
  imports Sponge_Prelude
begin

text \<open>
  Models \<^verbatim>\<open>libsponge/byte_stream.hh\<close> and \<^verbatim>\<open>byte_stream.cc\<close>: the bounded in-order byte stream that
  connects the application to the sender and the reassembler to the application. The loops of
  \<^verbatim>\<open>write\<close>, \<^verbatim>\<open>peek_output\<close> and \<^verbatim>\<open>pop_output\<close> are kept as recursions and proved equal to
  list operations. The locale \<open>byte_pipe\<close> is the contract of such a stream; its one theorem,
  that bytes leave in the order in which they were accepted, is proved there for every sequence
  of operations and obtained for the code by interpretation.
\<close>

section \<open>Model\<close>

record ByteStream =
  bs_cap :: u64
  bs_is_end :: bool
  bs_total_bytes_written :: u64
  bs_total_bytes_read :: u64
  bs_buf :: bytes
  bs_err :: bool

definition bs_new :: "u64 \<Rightarrow> ByteStream" where
  "bs_new capacity =
     \<lparr>bs_cap = capacity, bs_is_end = False, bs_total_bytes_written = 0, bs_total_bytes_read = 0,
      bs_buf = [], bs_err = False\<rparr>"

function bs_write_loop :: "u64 \<Rightarrow> bytes \<Rightarrow> bytes \<Rightarrow> nat \<Rightarrow> bytes \<times> nat" where
  "bs_write_loop cap buf data p =
     (if length buf < unat cap \<and> p < length data
      then bs_write_loop cap (buf @ [data ! p]) data (p + 1)
      else (buf, p))"
  by pat_completeness auto
termination
  by (relation "measure (\<lambda>(cap, buf, data, p). length data - p)") auto

definition bs_write :: "bytes \<Rightarrow> ByteStream \<Rightarrow> ByteStream \<times> u64" where
  "bs_write data s =
     (if bs_is_end s then (s, 0)
      else let (buf', p) = bs_write_loop (bs_cap s) (bs_buf s) data 0
           in (s\<lparr>bs_buf := buf', bs_total_bytes_written := bs_total_bytes_written s + of_nat p\<rparr>, of_nat p))"

primrec bs_peek_loop :: "bytes \<Rightarrow> nat \<Rightarrow> bytes \<Rightarrow> bytes" where
  "bs_peek_loop [] index result = result"
| "bs_peek_loop (c # cs) index result = bs_peek_loop cs (index + 1) (result[index := c])"

definition bs_peek_output :: "u64 \<Rightarrow> ByteStream \<Rightarrow> bytes" where
  "bs_peek_output len s =
     (let result = replicate (unat len) 45;
          real_len = (if length (bs_buf s) < unat len then length (bs_buf s) else unat len)
      in take real_len (bs_peek_loop (take real_len (bs_buf s)) 0 result))"

fun bs_pop_loop :: "nat \<Rightarrow> nat \<Rightarrow> bytes \<Rightarrow> bytes \<times> nat" where
  "bs_pop_loop len count [] = ([], count)"
| "bs_pop_loop len count (c # cs) =
     (if count < len then bs_pop_loop len (count + 1) cs else (c # cs, count))"

definition bs_pop_output :: "u64 \<Rightarrow> ByteStream \<Rightarrow> ByteStream" where
  "bs_pop_output len s =
     (let (buf', count) = bs_pop_loop (unat len) 0 (bs_buf s)
      in s\<lparr>bs_buf := buf', bs_total_bytes_read := bs_total_bytes_read s + of_nat count\<rparr>)"

definition bs_read :: "u64 \<Rightarrow> ByteStream \<Rightarrow> ByteStream \<times> bytes" where
  "bs_read len s = (let result = bs_peek_output len s in (bs_pop_output len s, result))"

definition bs_end_input :: "ByteStream \<Rightarrow> ByteStream" where
  "bs_end_input s = s\<lparr>bs_is_end := True\<rparr>"

definition bs_set_error :: "ByteStream \<Rightarrow> ByteStream" where
  "bs_set_error s = s\<lparr>bs_err := True\<rparr>"

definition bs_error :: "ByteStream \<Rightarrow> bool" where
  "bs_error s = bs_err s"

definition bs_input_ended :: "ByteStream \<Rightarrow> bool" where
  "bs_input_ended s = bs_is_end s"

definition bs_buffer_size :: "ByteStream \<Rightarrow> u64" where
  "bs_buffer_size s = of_nat (length (bs_buf s))"

definition bs_buffer_empty :: "ByteStream \<Rightarrow> bool" where
  "bs_buffer_empty s = (bs_buf s = [])"

definition bs_eof :: "ByteStream \<Rightarrow> bool" where
  "bs_eof s = (bs_buf s = [] \<and> bs_is_end s)"

definition bs_bytes_written :: "ByteStream \<Rightarrow> u64" where
  "bs_bytes_written s = bs_total_bytes_written s"

definition bs_bytes_read :: "ByteStream \<Rightarrow> u64" where
  "bs_bytes_read s = bs_total_bytes_read s"

definition bs_remaining_capacity :: "ByteStream \<Rightarrow> u64" where
  "bs_remaining_capacity s = bs_cap s - of_nat (length (bs_buf s))"

definition bs_bytes_not_read :: "ByteStream \<Rightarrow> u64" where
  "bs_bytes_not_read s = bs_cap s - bs_remaining_capacity s"

section \<open>The contract of a bounded byte stream\<close>

datatype pipe_op = Put bytes | Get u64 | Close

text \<open>A run keeps the bytes accepted so far and the bytes delivered so far beside the state.\<close>

fun pipe_step ::
  "(bytes \<Rightarrow> 's \<Rightarrow> 's \<times> u64) \<Rightarrow> (u64 \<Rightarrow> 's \<Rightarrow> 's \<times> bytes) \<Rightarrow> ('s \<Rightarrow> 's) \<Rightarrow>
   pipe_op \<Rightarrow> 's \<times> bytes \<times> bytes \<Rightarrow> 's \<times> bytes \<times> bytes" where
  "pipe_step put get close (Put d) (s, acc, del) =
     (fst (put d s), acc @ take (unat (snd (put d s))) d, del)"
| "pipe_step put get close (Get n) (s, acc, del) = (fst (get n s), acc, del @ snd (get n s))"
| "pipe_step put get close Close (s, acc, del) = (close s, acc, del)"

definition pipe_run ::
  "(bytes \<Rightarrow> 's \<Rightarrow> 's \<times> u64) \<Rightarrow> (u64 \<Rightarrow> 's \<Rightarrow> 's \<times> bytes) \<Rightarrow> ('s \<Rightarrow> 's) \<Rightarrow>
   pipe_op list \<Rightarrow> 's \<Rightarrow> 's \<times> bytes \<times> bytes" where
  "pipe_run put get close ops s = fold (pipe_step put get close) ops (s, [], [])"

locale byte_pipe =
  fixes inv :: "'s \<Rightarrow> bool" and content :: "'s \<Rightarrow> bytes" and room :: "'s \<Rightarrow> nat" and closed :: "'s \<Rightarrow> bool"
    and put :: "bytes \<Rightarrow> 's \<Rightarrow> 's \<times> u64" and get :: "u64 \<Rightarrow> 's \<Rightarrow> 's \<times> bytes" and close :: "'s \<Rightarrow> 's"
  assumes put_inv: "inv s \<Longrightarrow> inv (fst (put d s))"
    and put_count: "inv s \<Longrightarrow> unat (snd (put d s)) = (if closed s then 0 else min (room s) (length d))"
    and put_content: "inv s \<Longrightarrow> content (fst (put d s)) = content s @ take (unat (snd (put d s))) d"
    and put_room: "inv s \<Longrightarrow> room (fst (put d s)) = room s - unat (snd (put d s))"
    and put_closed: "inv s \<Longrightarrow> closed (fst (put d s)) = closed s"
    and get_inv: "inv s \<Longrightarrow> inv (fst (get n s))"
    and get_data: "inv s \<Longrightarrow> snd (get n s) = take (unat n) (content s)"
    and get_content: "inv s \<Longrightarrow> content (fst (get n s)) = drop (unat n) (content s)"
    and get_room: "inv s \<Longrightarrow> room (fst (get n s)) = room s + length (snd (get n s))"
    and get_closed: "inv s \<Longrightarrow> closed (fst (get n s)) = closed s"
    and close_inv: "inv s \<Longrightarrow> inv (close s)"
    and close_content: "inv s \<Longrightarrow> content (close s) = content s"
    and close_room: "inv s \<Longrightarrow> room (close s) = room s"
    and close_closed: "inv s \<Longrightarrow> closed (close s)"
begin

fun fifo :: "'s \<times> bytes \<times> bytes \<Rightarrow> bool" where
  "fifo (s, acc, del) \<longleftrightarrow> inv s \<and> acc = del @ content s"

lemma step_fifo: "fifo c \<Longrightarrow> fifo (pipe_step put get close op c)"
  by (cases c; cases op)
     (simp_all add: put_inv put_content get_inv get_data get_content close_inv close_content)

lemma fold_fifo: "fifo c \<Longrightarrow> fifo (fold (pipe_step put get close) ops c)"
  by (induction ops arbitrary: c) (simp_all add: step_fifo del: fifo.simps)

lemma run_fifo:
  assumes "inv s" and "content s = []" and "pipe_run put get close ops s = (s', acc, del)"
  shows "inv s'" and "acc = del @ content s'"
  using fold_fifo [of "(s, [], [])" ops] assms by (simp_all add: pipe_run_def)

lemma step_room:
  assumes "inv s" and "pipe_step put get close op (s, acc, del) = (s', acc', del')"
  shows "length (content s') + room s' = length (content s) + room s"
  using assms by (cases op)
    (auto simp: put_content put_count put_room get_content get_room get_data close_content close_room)

end

section \<open>The loops\<close>

declare bs_write_loop.simps [simp del]

lemma bs_write_loop_eq:
  "p \<le> length data \<Longrightarrow>
   bs_write_loop cap buf data p =
     (buf @ take (unat cap - length buf) (drop p data), p + min (unat cap - length buf) (length data - p))"
proof (induction cap buf data p rule: bs_write_loop.induct)
  case (1 cap buf data p)
  show ?case
  proof (cases "length buf < unat cap \<and> p < length data")
    case True
    then obtain k where k: "unat cap - length buf = Suc k" "unat cap - length (buf @ [data ! p]) = k"
      by (metis Suc_diff_Suc diff_Suc_1 length_append_singleton diff_Suc_eq_diff_pred)
    from True have "drop p data = data ! p # drop (p + 1) data" by (simp add: Cons_nth_drop_Suc)
    with True k "1.IH" show ?thesis
      by (subst bs_write_loop.simps) auto
  next
    case False
    with "1.prems" show ?thesis by (subst bs_write_loop.simps) auto
  qed
qed

lemma bs_peek_loop_eq:
  "index + length cs \<le> length result \<Longrightarrow>
   bs_peek_loop cs index result = take index result @ cs @ drop (index + length cs) result"
proof (induction cs arbitrary: index result)
  case (Cons c cs)
  then have "index < length result" by simp
  then have "take (Suc index) (result[index := c]) = take index result @ [c]"
    by (simp add: take_Suc_conv_app_nth)
  with Cons show ?case by simp
qed simp

lemma bs_pop_loop_eq:
  "bs_pop_loop len count cs = (drop (len - count) cs, count + min (len - count) (length cs))"
  by (induction len count cs rule: bs_pop_loop.induct) (auto simp: Suc_diff_Suc drop_Cons')

lemma bs_peek_output_eq [code]: "bs_peek_output len s = take (unat len) (bs_buf s)"
  by (auto simp: bs_peek_output_def bs_peek_loop_eq Let_def min_def)

lemma bs_pop_output_eq [code]:
  "bs_pop_output len s =
     s\<lparr>bs_buf := drop (unat len) (bs_buf s),
       bs_total_bytes_read := bs_total_bytes_read s + of_nat (min (unat len) (length (bs_buf s)))\<rparr>"
  by (simp add: bs_pop_output_def bs_pop_loop_eq)

lemma bs_write_eq [code]:
  "bs_write data s =
     (if bs_is_end s then (s, 0)
      else let n = min (unat (bs_cap s) - length (bs_buf s)) (length data)
           in (s\<lparr>bs_buf := bs_buf s @ take n data,
                 bs_total_bytes_written := bs_total_bytes_written s + of_nat n\<rparr>, of_nat n))"
  by (simp add: bs_write_def bs_write_loop_eq min_def Let_def)

section \<open>Invariant\<close>

text \<open>The buffer never exceeds the capacity, and the two counters differ by its length.\<close>

definition bs_inv :: "ByteStream \<Rightarrow> bool" where
  "bs_inv s \<longleftrightarrow> length (bs_buf s) \<le> unat (bs_cap s) \<and>
     bs_total_bytes_written s = bs_total_bytes_read s + of_nat (length (bs_buf s))"

definition bs_room :: "ByteStream \<Rightarrow> nat" where
  "bs_room s = unat (bs_cap s) - length (bs_buf s)"

lemma bs_inv_new [simp]: "bs_inv (bs_new c)"
  by (simp add: bs_inv_def bs_new_def)

lemma bs_inv_end_input [simp]: "bs_inv (bs_end_input s) = bs_inv s"
  by (simp add: bs_inv_def bs_end_input_def)

lemma bs_inv_set_error [simp]: "bs_inv (bs_set_error s) = bs_inv s"
  by (simp add: bs_inv_def bs_set_error_def)

lemma bs_inv_write: "bs_inv s \<Longrightarrow> bs_inv (fst (bs_write d s))"
  by (auto simp: bs_inv_def bs_write_eq Let_def)

lemma bs_inv_pop: "bs_inv s \<Longrightarrow> bs_inv (bs_pop_output n s)"
proof -
  assume "bs_inv s"
  then have "length (bs_buf s) \<le> unat (bs_cap s)"
    and "bs_total_bytes_written s = bs_total_bytes_read s + of_nat (length (bs_buf s))"
    by (simp_all add: bs_inv_def)
  moreover have "min (unat n) (length (bs_buf s)) + (length (bs_buf s) - unat n) = length (bs_buf s)"
    by simp
  then have "of_nat (length (bs_buf s)) =
      (of_nat (min (unat n) (length (bs_buf s))) + of_nat (length (bs_buf s) - unat n) :: u64)"
    by (metis of_nat_add)
  ultimately show ?thesis by (simp add: bs_inv_def bs_pop_output_eq)
qed

lemma unat_bs_remaining_capacity: "bs_inv s \<Longrightarrow> unat (bs_remaining_capacity s) = bs_room s"
proof -
  assume inv: "bs_inv s"
  then have len: "unat (of_nat (length (bs_buf s)) :: u64) = length (bs_buf s)"
    by (intro unat_of_nat_small) (auto simp: bs_inv_def intro: le_less_trans)
  with inv have "of_nat (length (bs_buf s)) \<le> bs_cap s"
    by (simp add: bs_inv_def word_le_nat_alt)
  then show ?thesis
    by (simp add: bs_remaining_capacity_def bs_room_def unat_sub_nowrap len)
qed

lemma bs_bytes_not_read_eq: "bs_bytes_not_read s = bs_buffer_size s"
  by (simp add: bs_bytes_not_read_def bs_remaining_capacity_def bs_buffer_size_def)

lemma unat_snd_bs_write:
  "unat (snd (bs_write d s)) = (if bs_is_end s then 0 else min (bs_room s) (length d))"
proof -
  have "min (bs_room s) (length d) < 2 ^ 64"
    by (simp add: bs_room_def min_less_iff_disj less_imp_diff_less)
  then show ?thesis
    by (simp add: bs_write_eq Let_def unat_of_nat_small flip: bs_room_def)
qed

lemma bs_buf_write: "bs_buf (fst (bs_write d s)) = bs_buf s @ take (unat (snd (bs_write d s))) d"
  unfolding unat_snd_bs_write by (simp add: bs_write_eq Let_def bs_room_def)

lemma bs_read_simps [simp]:
  "snd (bs_read n s) = take (unat n) (bs_buf s)"
  "bs_buf (fst (bs_read n s)) = drop (unat n) (bs_buf s)"
  "bs_is_end (fst (bs_read n s)) = bs_is_end s"
  "bs_cap (fst (bs_read n s)) = bs_cap s"
  by (simp_all add: bs_read_def bs_peek_output_eq bs_pop_output_eq)

lemma bs_inv_read: "bs_inv s \<Longrightarrow> bs_inv (fst (bs_read n s))"
  by (simp add: bs_read_def bs_inv_pop)

lemma bs_end_input_simps [simp]:
  "bs_buf (bs_end_input s) = bs_buf s" "bs_is_end (bs_end_input s)" "bs_cap (bs_end_input s) = bs_cap s"
  "bs_err (bs_end_input s) = bs_err s"
  "bs_total_bytes_written (bs_end_input s) = bs_total_bytes_written s"
  "bs_total_bytes_read (bs_end_input s) = bs_total_bytes_read s"
  by (simp_all add: bs_end_input_def)

lemma bs_set_error_simps [simp]:
  "bs_buf (bs_set_error s) = bs_buf s" "bs_is_end (bs_set_error s) = bs_is_end s"
  "bs_cap (bs_set_error s) = bs_cap s" "bs_err (bs_set_error s)"
  "bs_total_bytes_written (bs_set_error s) = bs_total_bytes_written s"
  "bs_total_bytes_read (bs_set_error s) = bs_total_bytes_read s"
  by (simp_all add: bs_set_error_def)

text \<open>Fields an operation does not touch, and the counters of a run.\<close>

lemma bs_frame [simp]:
  "bs_cap (fst (bs_write d s)) = bs_cap s"
  "bs_is_end (fst (bs_write d s)) = bs_is_end s"
  "bs_err (fst (bs_write d s)) = bs_err s"
  "bs_total_bytes_read (fst (bs_write d s)) = bs_total_bytes_read s"
  "bs_cap (bs_pop_output n s) = bs_cap s"
  "bs_is_end (bs_pop_output n s) = bs_is_end s"
  "bs_err (bs_pop_output n s) = bs_err s"
  "bs_total_bytes_written (bs_pop_output n s) = bs_total_bytes_written s"
  by (auto simp: bs_write_eq bs_pop_output_eq Let_def)

lemma bs_total_bytes_written_write:
  "bs_total_bytes_written (fst (bs_write d s)) = bs_total_bytes_written s + snd (bs_write d s)"
  by (simp add: bs_write_eq Let_def)

interpretation bs: byte_pipe bs_inv bs_buf bs_room bs_is_end bs_write bs_read bs_end_input
  by unfold_locales
     (simp_all add: bs_inv_write bs_inv_read unat_snd_bs_write bs_buf_write, auto simp: bs_room_def bs_inv_def bs_buf_write unat_snd_bs_write)

fun bs_counts :: "u64 \<Rightarrow> ByteStream \<times> bytes \<times> bytes \<Rightarrow> bool" where
  "bs_counts c (s, acc, del) \<longleftrightarrow> bs_cap s = c \<and> bs_total_bytes_written s = of_nat (length acc) \<and>
     bs_total_bytes_read s = of_nat (length del)"

lemma bs_counts_step: "bs_counts c t \<Longrightarrow> bs_counts c (pipe_step bs_write bs_read bs_end_input op t)"
proof (cases t)
  case (fields s acc del)
  assume "bs_counts c t"
  moreover have "of_nat (length (take (unat (snd (bs_write d s))) d)) = snd (bs_write d s)" for d
  proof -
    have "unat (snd (bs_write d s)) \<le> length d" by (simp add: unat_snd_bs_write)
    then show ?thesis by (simp add: min_absorb2)
  qed
  ultimately show ?thesis using fields
    by (cases op) (simp_all add: bs_total_bytes_written_write bs_read_def bs_peek_output_eq
        bs_pop_output_eq bs_end_input_def min.commute)
qed

lemma bs_counts_run:
  "bs_counts c (pipe_run bs_write bs_read bs_end_input ops (bs_new c))"
proof -
  have "bs_counts c t \<Longrightarrow> bs_counts c (fold (pipe_step bs_write bs_read bs_end_input) ops t)" for t
    by (induction ops arbitrary: t) (simp_all add: bs_counts_step del: bs_counts.simps)
  then show ?thesis by (simp add: pipe_run_def bs_new_def)
qed

section \<open>Properties\<close>

text \<open>
  C3. Whatever sequence of writes, reads and \<open>end_input\<close> a stream goes through, the bytes it
  accepted are the bytes it delivered followed by the bytes still buffered; it never buffers more
  than its capacity; its counters count what was accepted and delivered; and once \<open>eof\<close> holds
  everything accepted has been delivered.
\<close>

theorem byte_stream_fifo:
  assumes "pipe_run bs_write bs_read bs_end_input ops (bs_new c) = (s, acc, del)"
  shows "acc = del @ bs_buf s \<and> length (bs_buf s) \<le> unat c \<and>
    bs_bytes_written s = of_nat (length acc) \<and> bs_bytes_read s = of_nat (length del) \<and>
    (bs_eof s \<longrightarrow> del = acc)"
proof -
  have init: "bs_inv (bs_new c)" "bs_buf (bs_new c) = []" by (simp_all add: bs_new_def bs_inv_def)
  note run = bs.run_fifo [OF init assms]
  have "bs_counts c (s, acc, del)" using bs_counts_run [of c ops] assms by simp
  with run show ?thesis
    by (auto simp: bs_inv_def bs_bytes_written_def bs_bytes_read_def bs_eof_def)
qed

theorem byte_stream_fifo_witness:
  "pipe_run bs_write bs_read bs_end_input [Put [10, 20, 30], Get 1, Put [40], Close, Get 9] (bs_new 2) =
     (\<lparr>bs_cap = 2, bs_is_end = True, bs_total_bytes_written = 3, bs_total_bytes_read = 3, bs_buf = [],
       bs_err = False\<rparr>, [10, 20, 40], [10, 20, 40])
   \<and> bs_eof \<lparr>bs_cap = 2, bs_is_end = True, bs_total_bytes_written = 3, bs_total_bytes_read = 3, bs_buf = [],
       bs_err = False\<rparr> \<and> ([10, 20, 40] :: bytes) = [10, 20, 40] @ []"
proof -
  have run: "pipe_run bs_write bs_read bs_end_input [Put [10, 20, 30], Get 1, Put [40], Close, Get 9] (bs_new 2) =
     (\<lparr>bs_cap = 2, bs_is_end = True, bs_total_bytes_written = 3, bs_total_bytes_read = 3, bs_buf = [],
       bs_err = False\<rparr>, [10, 20, 40], [10, 20, 40])"
    by (simp add: pipe_run_def bs_new_def bs_write_eq bs_read_def bs_peek_output_eq bs_pop_output_eq
        bs_end_input_def Let_def)
  from byte_stream_fifo [OF run] run show ?thesis by (simp add: bs_eof_def)
qed

text \<open>
  The three loops of the stream are the list operations they stand for: \<open>write\<close> appends
  the longest prefix of its argument that fits (and nothing after \<open>end_input\<close>) and returns its
  length, \<open>peek_output\<close> returns the first \<open>len\<close> buffered bytes without the filler character
  it starts from, \<open>pop_output\<close> removes exactly those.
\<close>

theorem byte_stream_ops_reference:
  "bs_write data s =
     (if bs_is_end s then (s, 0)
      else let n = min (unat (bs_cap s) - length (bs_buf s)) (length data)
           in (s\<lparr>bs_buf := bs_buf s @ take n data,
                 bs_total_bytes_written := bs_total_bytes_written s + of_nat n\<rparr>, of_nat n)) \<and>
   bs_peek_output len s = take (unat len) (bs_buf s) \<and>
   bs_pop_output len s =
     s\<lparr>bs_buf := drop (unat len) (bs_buf s),
       bs_total_bytes_read := bs_total_bytes_read s + of_nat (min (unat len) (length (bs_buf s)))\<rparr>"
  by (simp only: bs_write_eq bs_peek_output_eq bs_pop_output_eq)

end
