(* ===== verification/Tcp_Segment.thy ===== *)
theory Tcp_Segment
  imports Wrapping_Integers Byte_Stream
begin

text \<open>
  The data of \<^verbatim>\<open>libsponge/tcp_helpers/tcp_header.hh\<close>, \<^verbatim>\<open>tcp_segment.hh\<close> and \<^verbatim>\<open>tcp_config.hh\<close>, and the
  length of a segment in sequence space. The payload is the byte list that
  \<^verbatim>\<open>Buffer::copy\<close> returns; parsing and serializing are in the codec theories.
  The relation \<open>seg_of\<close> says that a segment carries a part of a byte stream: it is the contract
  between the sender, which emits only such segments, and the receiver, which relies on it.
\<close>

section \<open>Model\<close>

record TCPHeader =
  th_sport :: u16
  th_dport :: u16
  th_seqno :: WrappingInt32
  th_ackno :: WrappingInt32
  th_doff :: u8
  th_urg :: bool
  th_ack :: bool
  th_psh :: bool
  th_rst :: bool
  th_syn :: bool
  th_fin :: bool
  th_win :: u16
  th_cksum :: u16
  th_uptr :: u16

definition TCPHeader_LENGTH :: nat where
  "TCPHeader_LENGTH = 20"

definition th_default :: TCPHeader where
  "th_default =
     \<lparr>th_sport = 0, th_dport = 0, th_seqno = WrappingInt32 0, th_ackno = WrappingInt32 0,
      th_doff = of_nat (TCPHeader_LENGTH div 4), th_urg = False, th_ack = False, th_psh = False, th_rst = False,
      th_syn = False, th_fin = False, th_win = 0, th_cksum = 0, th_uptr = 0\<rparr>"

record TCPSegment =
  ts_header :: TCPHeader
  ts_payload :: bytes

definition ts_default :: TCPSegment where
  "ts_default = \<lparr>ts_header = th_default, ts_payload = []\<rparr>"

definition length_in_sequence_space :: "TCPSegment \<Rightarrow> u64" where
  "length_in_sequence_space seg =
     of_nat (length (ts_payload seg)) + (if th_syn (ts_header seg) then 1 else 0) + (if th_fin (ts_header seg) then 1 else 0)"

record TCPConfig =
  cfg_rt_timeout :: u16
  cfg_recv_capacity :: u64
  cfg_send_capacity :: u64
  cfg_fixed_isn :: "WrappingInt32 option"

definition MAX_PAYLOAD_SIZE :: u64 where
  "MAX_PAYLOAD_SIZE = 1000"

definition MAX_RETX_ATTEMPTS :: u32 where
  "MAX_RETX_ATTEMPTS = 8"

definition cfg_default :: TCPConfig where
  "cfg_default = \<lparr>cfg_rt_timeout = 1000, cfg_recv_capacity = 64000, cfg_send_capacity = 64000, cfg_fixed_isn = None\<rparr>"

section \<open>Segments of a stream\<close>

lemma wrap_0 [simp]: "wrap 0 isn = isn"
  by (simp add: wrap_eq_iff)

lemma unwrap_self: "unwrap n n 0 = 0"
  using sq.to_abs_to_rel [of 0 0 n] by simp

text \<open>The number of sequence numbers a segment takes, on natural numbers.\<close>

definition seg_len :: "TCPSegment \<Rightarrow> nat" where
  "seg_len seg = length (ts_payload seg) + (if th_syn (ts_header seg) then 1 else 0) + (if th_fin (ts_header seg) then 1 else 0)"

lemma length_in_sequence_space_eq: "length_in_sequence_space seg = of_nat (seg_len seg)"
  by (simp add: length_in_sequence_space_def seg_len_def)

lemma unat_length_in_sequence_space: "seg_len seg < 2 ^ 64 \<Longrightarrow> unat (length_in_sequence_space seg) = seg_len seg"
  by (simp only: length_in_sequence_space_eq unat_of_nat_small)

text \<open>
  Segment \<open>seg\<close> carries part of the stream \<open>S\<close> from absolute sequence number \<open>a\<close> on: SYN is
  number 0, byte \<open>i\<close> of \<open>S\<close> is number \<open>i + 1\<close>, FIN comes after the last byte.
\<close>

definition seg_of :: "WrappingInt32 \<Rightarrow> bytes \<Rightarrow> nat \<Rightarrow> TCPSegment \<Rightarrow> bool" where
  "seg_of isn S a seg \<longleftrightarrow>
     th_seqno (ts_header seg) = wrap (of_nat a) isn \<and>
     (th_syn (ts_header seg) \<longrightarrow> a = 0) \<and>
     (ts_payload seg \<noteq> [] \<longrightarrow> th_syn (ts_header seg) \<or> 0 < a) \<and>
     (th_fin (ts_header seg) \<longrightarrow> a + seg_len seg = length S + 2) \<and>
     (ts_payload seg \<noteq> [] \<longrightarrow> a - 1 + length (ts_payload seg) \<le> length S \<and>
        ts_payload seg = piece S (a - 1) (length (ts_payload seg)))"

end
