(* ===== verification/Std_Map.thy ===== *)
theory Std_Map
  imports Sponge_Prelude
begin

text \<open>
  \<open>std::map\<close> as the code uses it: a list of key/value pairs in ascending key order, so that
  iteration from \<open>begin()\<close> to \<open>end()\<close> is the list itself. The locale \<open>ordered_map\<close> states
  what the reassembler and the network interface rely on.
\<close>

type_synonym ('k, 'v) smap = "('k \<times> 'v) list"

fun sm_set :: "'k::linorder \<Rightarrow> 'v \<Rightarrow> ('k, 'v) smap \<Rightarrow> ('k, 'v) smap" where
  "sm_set k v [] = [(k, v)]"
| "sm_set k v ((k', v') # m) =
     (if k < k' then (k, v) # (k', v') # m
      else if k = k' then (k, v) # m
      else (k', v') # sm_set k v m)"

definition sm_find :: "'k \<Rightarrow> ('k, 'v) smap \<Rightarrow> 'v option" where
  "sm_find k m = map_of m k"

definition sm_erase :: "'k \<Rightarrow> ('k, 'v) smap \<Rightarrow> ('k, 'v) smap" where
  "sm_erase k m = filter (\<lambda>e. fst e \<noteq> k) m"

text \<open>The loop \<^verbatim>\<open>for (it = begin; it != end;) it = p(*it) ? erase(it) : it + 1\<close>.\<close>

fun sm_erase_if :: "('v \<Rightarrow> bool) \<Rightarrow> ('k, 'v) smap \<Rightarrow> ('k, 'v) smap" where
  "sm_erase_if p [] = []"
| "sm_erase_if p ((k, v) # m) = (if p v then sm_erase_if p m else (k, v) # sm_erase_if p m)"

definition sm_wf :: "('k::linorder, 'v) smap \<Rightarrow> bool" where
  "sm_wf m \<longleftrightarrow> sorted_wrt (<) (map fst m)"

section \<open>Interface\<close>

locale ordered_map =
  fixes wf :: "'m \<Rightarrow> bool" and find :: "'k::linorder \<Rightarrow> 'm \<Rightarrow> 'v option" and put :: "'k \<Rightarrow> 'v \<Rightarrow> 'm \<Rightarrow> 'm"
    and erase :: "'k \<Rightarrow> 'm \<Rightarrow> 'm" and erase_if :: "('v \<Rightarrow> bool) \<Rightarrow> 'm \<Rightarrow> 'm" and none :: 'm
  assumes wf_none: "wf none" and find_none: "find k none = None"
    and wf_put: "wf m \<Longrightarrow> wf (put k v m)"
    and find_put: "wf m \<Longrightarrow> find k' (put k v m) = (if k' = k then Some v else find k' m)"
    and wf_erase: "wf m \<Longrightarrow> wf (erase k m)"
    and find_erase: "wf m \<Longrightarrow> find k' (erase k m) = (if k' = k then None else find k' m)"
    and wf_erase_if: "wf m \<Longrightarrow> wf (erase_if p m)"
    and find_erase_if: "wf m \<Longrightarrow> find k (erase_if p m) =
      (case find k m of None \<Rightarrow> None | Some v \<Rightarrow> if p v then None else Some v)"
begin

lemma find_erase_if_Some: "wf m \<Longrightarrow> find k (erase_if p m) = Some v \<longleftrightarrow> find k m = Some v \<and> \<not> p v"
  by (auto simp: find_erase_if split: option.splits)

lemma find_erase_if_None: "wf m \<Longrightarrow> find k m = None \<Longrightarrow> find k (erase_if p m) = None"
  by (simp add: find_erase_if)

lemma erase_if_idem: "wf m \<Longrightarrow> find k (erase_if p (erase_if p m)) = find k (erase_if p m)"
  by (simp add: find_erase_if wf_erase_if split: option.splits)

end

section \<open>Lemmas\<close>

lemma sm_wf_simps [simp]:
  "sm_wf []"
  "sm_wf ((k, v) # m) \<longleftrightarrow> (\<forall>k' \<in> fst ` set m. k < k') \<and> sm_wf m"
  by (auto simp: sm_wf_def)

lemma sm_wf_append: "sm_wf (a @ b) \<longleftrightarrow> sm_wf a \<and> sm_wf b \<and> (\<forall>x \<in> set a. \<forall>y \<in> set b. fst x < fst y)"
  by (auto simp: sm_wf_def sorted_wrt_append)

lemma sm_wf_hd_le: "sm_wf m \<Longrightarrow> e \<in> set m \<Longrightarrow> fst (hd m) \<le> fst e"
  by (cases m) (auto intro: less_imp_le)

lemma fst_set_sm_set: "fst ` set (sm_set k v m) = insert k (fst ` set m)"
  by (induction k v m rule: sm_set.induct) auto

lemma sm_wf_set: "sm_wf m \<Longrightarrow> sm_wf (sm_set k v m)"
  by (induction k v m rule: sm_set.induct) (auto simp: fst_set_sm_set)

lemma sm_find_set: "sm_wf m \<Longrightarrow> sm_find k' (sm_set k v m) = (if k' = k then Some v else sm_find k' m)"
proof (induction k v m rule: sm_set.induct)
  case (2 k v k2 v2 m)
  show ?case
  proof (cases "k = k2")
    case True
    with 2 show ?thesis by (auto simp: sm_find_def)
  next
    case False
    with 2 show ?thesis by (auto simp: sm_find_def)
  qed
qed (simp add: sm_find_def)

lemma sm_find_erase: "sm_find k' (sm_erase k m) = (if k' = k then None else sm_find k' m)"
  by (induction m) (auto simp: sm_find_def sm_erase_def)

lemma sm_wf_erase: "sm_wf m \<Longrightarrow> sm_wf (sm_erase k m)"
  by (induction m) (auto simp: sm_erase_def)

lemma sm_erase_if_eq: "sm_erase_if p m = filter (\<lambda>e. \<not> p (snd e)) m"
  by (induction p m rule: sm_erase_if.induct) simp_all

lemma sm_wf_filter: "sm_wf m \<Longrightarrow> sm_wf (filter q m)"
  by (induction m) auto

lemma sm_find_notin: "k \<notin> fst ` set m \<Longrightarrow> sm_find k m = None"
  by (auto simp: sm_find_def map_of_eq_None_iff)

lemma sm_find_filter:
  "sm_wf m \<Longrightarrow> sm_find k (filter (\<lambda>e. \<not> p (snd e)) m) =
     (case sm_find k m of None \<Rightarrow> None | Some v \<Rightarrow> if p v then None else Some v)"
proof (induction m)
  case (Cons e m)
  obtain k2 v2 where e: "e = (k2, v2)" by (cases e)
  have "sm_find k (filter (\<lambda>e. \<not> p (snd e)) m) = None" if "k = k2"
    using Cons.prems that e by (intro sm_find_notin) force
  with Cons e show ?case by (auto simp: sm_find_def)
qed (simp add: sm_find_def)

interpretation sm: ordered_map sm_wf sm_find sm_set sm_erase sm_erase_if "[]"
  by unfold_locales
     (simp_all add: sm_wf_set sm_find_set sm_wf_erase sm_find_erase sm_erase_if_eq sm_wf_filter sm_find_filter,
      simp add: sm_find_def)

text \<open>Setting a key of a sorted map, seen as a split at that key.\<close>

lemma sm_set_split:
  "sm_wf m \<Longrightarrow> sm_set k v m =
     takeWhile (\<lambda>e. fst e < k) m @ (k, v) # filter (\<lambda>e. k < fst e) m"
proof (induction k v m rule: sm_set.induct)
  case (2 k v k2 v2 m)
  have "filter (\<lambda>e. k < fst e) m = m" if "k \<le> k2"
    using 2(2) that by (intro filter_True) force
  with 2 show ?case by auto
qed simp

lemma sm_wf_split:
  "sm_wf m \<Longrightarrow> m = takeWhile (\<lambda>e. fst e < k) m @ filter (\<lambda>e. fst e = k) m @ filter (\<lambda>e. k < fst e) m"
proof (induction m)
  case (Cons e m)
  obtain k' v' where e: "e = (k', v')" by (cases e)
  have gt: "\<forall>x \<in> set m. k' < fst x" using Cons.prems by (simp add: e)
  have IH: "m = takeWhile (\<lambda>e. fst e < k) m @ filter (\<lambda>e. fst e = k) m @ filter (\<lambda>e. k < fst e) m"
    using Cons by (simp add: e)
  consider "k' < k" | "k' = k" | "k < k'" by fastforce
  then show ?case
  proof cases
    case 1
    then have "k' \<noteq> k" "\<not> k < k'" by auto
    with 1 IH show ?thesis by (simp add: e)
  next
    case 2
    then have "filter (\<lambda>e. fst e = k) m = []" "filter (\<lambda>e. k < fst e) m = m"
      using gt by (fastforce simp: filter_empty_conv filter_id_conv)+
    then show ?thesis using 2 by (simp add: e)
  next
    case 3
    then have "filter (\<lambda>e. fst e = k) m = []" "filter (\<lambda>e. k < fst e) m = m"
      using gt by (fastforce simp: filter_empty_conv filter_id_conv)+
    then show ?thesis using 3 by (auto simp: e)
  qed
qed simp

lemma sm_find_in: "sm_wf m \<Longrightarrow> (k, v) \<in> set m \<Longrightarrow> sm_find k m = Some v"
  by (induction m) (force simp: sm_find_def)+

end
