(* ===== verification/Stream_Reassembler.thy ===== *)
theory Stream_Reassembler
  imports Byte_Stream Std_Map
begin

text \<open>
  Models \<^verbatim>\<open>libsponge/stream_reassembler.hh\<close> and \<^verbatim>\<open>stream_reassembler.cc\<close>. Substrings that arrive
  out of order wait in \<open>sr_unassemBuf\<close>, a map from the index of their first byte; bytes that are
  contiguous with the stream move to \<open>sr_assemBuf\<close> and from there into the output stream.

  Iterators are positions in the ordered list of the map. What the code leaves undefined is an
  error value: dereferencing an iterator that was moved before \<open>begin()\<close> (in \<open>fixCap\<close>), and a
  write outside \<open>mergedStr\<close>. The one decrement of \<open>begin()\<close> that the code relies on, in
  \<open>pushUnassem\<close>, is modelled by what it is written to detect: there is no predecessor.
\<close>

section \<open>Model\<close>

record StreamReassembler =
  sr_output :: ByteStream
  sr_capacity :: u64
  sr_unassemBuf :: "(u64, bytes) smap"
  sr_assemBuf :: bytes
  sr_expectIdx :: u64
  sr_unassemSize :: u64
  sr_eofIndex :: u64

definition sr_new :: "u64 \<Rightarrow> StreamReassembler" where
  "sr_new capacity =
     \<lparr>sr_output = bs_new capacity, sr_capacity = capacity, sr_unassemBuf = [], sr_assemBuf = [],
      sr_expectIdx = 0, sr_unassemSize = 0, sr_eofIndex = -1\<rparr>"

text \<open>The part of \<open>data\<close> not yet received; \<open>None\<close> is the early return.\<close>

definition sr_valid_part :: "bytes \<Rightarrow> u64 \<Rightarrow> u64 \<Rightarrow> (u64 \<times> bytes) option res" where
  "sr_valid_part data index expectIdx =
     (let len = of_nat (length data)
      in if index + len \<le> expectIdx then Inr None
         else if index < expectIdx
         then bindE (substr data (expectIdx - index) (len - (expectIdx - index)))
                (\<lambda>validStr. Inr (Some (expectIdx, validStr)))
         else Inr (Some (index, data)))"

text \<open>Insertion of the valid part; \<open>None\<close> is the early return when a longer string is there.\<close>

definition sr_insert :: "u64 \<Rightarrow> bytes \<Rightarrow> (u64, bytes) smap \<Rightarrow> (u64, bytes) smap option" where
  "sr_insert validIdx validStr m =
     (case sm_find validIdx m of
        None \<Rightarrow> Some (sm_set validIdx validStr m)
      | Some old \<Rightarrow>
          if length old \<ge> length validStr then None else Some (sm_set validIdx validStr m))"

text \<open>The loop that advances \<open>iterR\<close>: the new right bound, the entries passed, the rest.\<close>

fun sr_right_loop ::
  "u64 \<Rightarrow> u64 \<Rightarrow> (u64, bytes) smap \<Rightarrow> u64 \<times> (u64, bytes) smap \<times> (u64, bytes) smap" where
  "sr_right_loop limit rightBound [] = (rightBound, [], [])"
| "sr_right_loop limit rightBound ((k, v) # m) =
     (if k < limit
      then let (rb, passed, rest) = sr_right_loop limit (max rightBound (k + of_nat (length v))) m
           in (rb, (k, v) # passed, rest)
      else (rightBound, [], (k, v) # m))"

fun sr_write_at :: "bytes \<Rightarrow> nat \<Rightarrow> u64 \<Rightarrow> u64 \<Rightarrow> bytes \<Rightarrow> bytes res" where
  "sr_write_at [] j offset leftBound mergedStr = Inr mergedStr"
| "sr_write_at (c # cs) j offset leftBound mergedStr =
     (let pos = unat (of_nat j + offset - leftBound)
      in if pos < length mergedStr
         then sr_write_at cs (j + 1) offset leftBound (mergedStr[pos := c])
         else Inl UB)"

fun sr_merge_loop :: "(u64, bytes) smap \<Rightarrow> u64 \<Rightarrow> bytes \<Rightarrow> bytes res" where
  "sr_merge_loop [] leftBound mergedStr = Inr mergedStr"
| "sr_merge_loop ((k, v) # es) leftBound mergedStr =
     bindE (sr_write_at v 0 k leftBound mergedStr) (sr_merge_loop es leftBound)"

text \<open>
  The merge around the entry at \<open>validIdx\<close>. \<open>lefts\<close> are the entries before it, \<open>rights\<close>
  starts with it; \<open>hasL\<close> says that \<open>iterL\<close> is the predecessor rather than \<open>iterR\<close>.
\<close>

definition sr_merge :: "u64 \<Rightarrow> bytes \<Rightarrow> u64 \<Rightarrow> (u64, bytes) smap \<Rightarrow> (u64, bytes) smap res" where
  "sr_merge validIdx validStr rightBound m =
     (let lefts = takeWhile (\<lambda>e. fst e < validIdx) m;
          rights = dropWhile (\<lambda>e. fst e < validIdx) m;
          hasL = (lefts \<noteq> [] \<and> \<not> fst (last lefts) + of_nat (length (snd (last lefts))) \<le> validIdx);
          before = (if hasL then butlast lefts else lefts);
          (leftBound, leftStr) = (if hasL then last lefts else hd rights);
          rightBound1 = max (leftBound + of_nat (length leftStr)) rightBound;
          (rightBound2, passed, rest) =
            sr_right_loop (validIdx + of_nat (length validStr)) rightBound1 rights;
          mergedStr = replicate (unat (rightBound2 - leftBound)) 45;
          entries = (if hasL then last lefts # passed else passed);
          remaining = (if \<not> hasL \<and> passed = [] then tl rest else rest)
      in bindE (sr_merge_loop entries leftBound mergedStr)
           (\<lambda>merged. Inr (before @ (leftBound, merged) # remaining)))"

definition sr_pushUnassem :: "bytes \<Rightarrow> u64 \<Rightarrow> StreamReassembler \<Rightarrow> StreamReassembler res" where
  "sr_pushUnassem data index r =
     bindE (sr_valid_part data index (sr_expectIdx r)) (\<lambda>valid.
       case valid of
         None \<Rightarrow> Inr r
       | Some (validIdx, validStr) \<Rightarrow>
           (case sr_insert validIdx validStr (sr_unassemBuf r) of
              None \<Rightarrow> Inr r
            | Some m \<Rightarrow>
                bindE (sr_merge validIdx validStr (index + of_nat (length data)) m)
                  (\<lambda>m'. Inr (r\<lparr>sr_unassemBuf := m'\<rparr>))))"

fun sr_total :: "(u64, bytes) smap \<Rightarrow> u64" where
  "sr_total [] = 0"
| "sr_total ((k, v) # m) = of_nat (length v) + sr_total m"

fun sr_assem_loop :: "(u64, bytes) smap \<Rightarrow> bytes \<Rightarrow> u64 \<Rightarrow> (u64, bytes) smap \<times> bytes \<times> u64" where
  "sr_assem_loop [] assemBuf expectIdx = ([], assemBuf, expectIdx)"
| "sr_assem_loop ((k, v) # m) assemBuf expectIdx =
     (if k = expectIdx then sr_assem_loop m (assemBuf @ v) (expectIdx + of_nat (length v))
      else ((k, v) # m, assemBuf, expectIdx))"

definition sr_assem :: "StreamReassembler \<Rightarrow> StreamReassembler" where
  "sr_assem r =
     (let (m, a, i) = sr_assem_loop (sr_unassemBuf r) (sr_assemBuf r) (sr_expectIdx r)
      in r\<lparr>sr_unassemBuf := m, sr_assemBuf := a, sr_expectIdx := i, sr_unassemSize := sr_total m\<rparr>)"

definition sr_writeStr :: "StreamReassembler \<Rightarrow> StreamReassembler res" where
  "sr_writeStr r =
     (let (out, writeLen) = bs_write (sr_assemBuf r) (sr_output r)
      in bindE (substr (sr_assemBuf r) writeLen (of_nat (length (sr_assemBuf r)) - writeLen))
           (\<lambda>a. Inr (r\<lparr>sr_output := out, sr_assemBuf := a\<rparr>)))"

text \<open>The loop from the last entry backwards, on the reversed list.\<close>

fun sr_fixCap_loop :: "u64 \<Rightarrow> (u64, bytes) smap \<Rightarrow> (u64, bytes) smap res" where
  "sr_fixCap_loop overflowSize [] = Inl UB"
| "sr_fixCap_loop overflowSize ((k, v) # es) =
     (if of_nat (length v) \<le> overflowSize
      then sr_fixCap_loop (overflowSize - of_nat (length v)) es
      else bindE (substr v 0 (of_nat (length v) - overflowSize)) (\<lambda>v'. Inr ((k, v') # es)))"

definition sr_fixCap :: "StreamReassembler \<Rightarrow> StreamReassembler res" where
  "sr_fixCap r =
     (if sr_unassemBuf r = [] then Inr r
      else let temp = sr_total (sr_unassemBuf r)
           in if sr_capacity r > of_nat (length (sr_assemBuf r)) + temp then Inr r
              else bindE (sr_fixCap_loop (of_nat (length (sr_assemBuf r)) + temp - sr_capacity r)
                           (rev (sr_unassemBuf r)))
                     (\<lambda>es. Inr (r\<lparr>sr_unassemBuf := rev es\<rparr>)))"

definition sr_push_substring :: "bytes \<Rightarrow> u64 \<Rightarrow> bool \<Rightarrow> StreamReassembler \<Rightarrow> StreamReassembler res" where
  "sr_push_substring data index eof r =
     (let r0 = (if eof then r\<lparr>sr_eofIndex := index + of_nat (length data)\<rparr> else r)
      in bindE (sr_pushUnassem data index r0) (\<lambda>r1.
         bindE (sr_fixCap r1) (\<lambda>r2.
         bindE (sr_writeStr (sr_assem r2)) (\<lambda>r3.
           Inr (if sr_assemBuf r3 = [] \<and> sr_expectIdx r3 = sr_eofIndex r3
                then r3\<lparr>sr_output := bs_end_input (sr_output r3)\<rparr> else r3)))))"

definition sr_unassembled_bytes :: "StreamReassembler \<Rightarrow> u64" where
  "sr_unassembled_bytes r = sr_unassemSize r"

definition sr_empty :: "StreamReassembler \<Rightarrow> bool" where
  "sr_empty r = (if sr_unassemSize r + of_nat (length (sr_assemBuf r)) = 0 then True else False)"

definition sr_streamSize :: "StreamReassembler \<Rightarrow> u64" where
  "sr_streamSize r = of_nat (length (sr_assemBuf r)) + bs_buffer_size (sr_output r)"

definition sr_getExpectedIdx :: "StreamReassembler \<Rightarrow> u64" where
  "sr_getExpectedIdx r = sr_expectIdx r"

section \<open>Entries that agree with a source stream\<close>

text \<open>
  \<open>S\<close> is the stream being reassembled. An entry of the map agrees with it when its bytes are
  those of \<open>S\<close> at its index; \<open>sr_cover\<close> is the set of indices the entries hold.
\<close>

definition sr_end :: "u64 \<times> bytes \<Rightarrow> nat" where
  "sr_end e = unat (fst e) + length (snd e)"

definition sr_ok :: "bytes \<Rightarrow> u64 \<times> bytes \<Rightarrow> bool" where
  "sr_ok S e \<longleftrightarrow> sr_end e \<le> length S \<and> snd e = piece S (unat (fst e)) (length (snd e))"

definition sr_cover :: "(u64, bytes) smap \<Rightarrow> nat set" where
  "sr_cover m = (\<Union>e \<in> set m. {unat (fst e) ..< sr_end e})"

text \<open>Entries in order, none empty, none overlapping.\<close>

definition sr_sep :: "(u64, bytes) smap \<Rightarrow> bool" where
  "sr_sep m \<longleftrightarrow> sorted_wrt (\<lambda>e e'. sr_end e \<le> unat (fst e')) m \<and> (\<forall>e \<in> set m. snd e \<noteq> [])"

lemma unat_max: "unat (max a b :: u64) = max (unat a) (unat b)"
  by (simp add: max_def word_le_nat_alt)

lemma unat_sr_end: "sr_end e < 2 ^ 64 \<Longrightarrow> unat (fst e + of_nat (length (snd e)) :: u64) = sr_end e"
  by (simp add: sr_end_def unat_add_of_nat)

lemma sr_cover_simps [simp]:
  "sr_cover [] = {}"
  "sr_cover (e # m) = {unat (fst e) ..< sr_end e} \<union> sr_cover m"
  "sr_cover (m @ m') = sr_cover m \<union> sr_cover m'"
  by (auto simp: sr_cover_def)

lemma sr_ok_nth: "sr_ok S e \<Longrightarrow> j < length (snd e) \<Longrightarrow> snd e ! j = S ! (unat (fst e) + j)"
  unfolding sr_ok_def sr_end_def by (metis piece_nth)

lemma sr_ok_pieceI: "i + n \<le> length S \<Longrightarrow> unat k = i \<Longrightarrow> sr_ok S (k, piece S i n)"
  by (simp add: sr_ok_def sr_end_def)

section \<open>The loops\<close>

lemma sr_write_at_eq:
  assumes "unat offset + j + length cs < 2 ^ 64" and "leftBound \<le> offset"
    and "unat offset - unat leftBound + j + length cs \<le> length m"
  shows "sr_write_at cs j offset leftBound m =
    Inr (take (unat offset - unat leftBound + j) m @ cs @ drop (unat offset - unat leftBound + j + length cs) m)"
  using assms
proof (induction cs arbitrary: j m)
  case (Cons c cs)
  let ?p = "unat offset - unat leftBound + j"
  have le: "unat leftBound \<le> unat offset" using Cons.prems(2) by (simp add: word_le_nat_alt)
  have "unat (of_nat j + offset) = j + unat offset"
    using Cons.prems(1) by (subst add.commute, subst unat_add_of_nat) simp_all
  moreover from this have "leftBound \<le> of_nat j + offset"
    using le by (simp add: word_le_nat_alt)
  ultimately have pos: "unat (of_nat j + offset - leftBound) = ?p"
    using le by (simp add: unat_sub_nowrap)
  have "?p < length m" using Cons.prems(3) by simp
  then have "take (Suc ?p) (m[?p := c]) = take ?p m @ [c]" by (simp add: take_Suc_conv_app_nth)
  then show ?case
    using Cons.prems \<open>?p < length m\<close> Cons.IH [of "j + 1" "m[?p := c]"] by (simp add: pos Let_def)
qed simp

lemma sr_merge_loop_nth:
  assumes "length S < 2 ^ 64"
    and "\<forall>e \<in> set es. sr_ok S e \<and> L \<le> fst e \<and> sr_end e \<le> unat L + length m"
  shows "\<exists>m'. sr_merge_loop es L m = Inr m' \<and> length m' = length m \<and>
    (\<forall>p < length m. m' ! p = (if unat L + p \<in> sr_cover es then S ! (unat L + p) else m ! p))"
  using assms(2)
proof (induction es arbitrary: m)
  case (Cons e es)
  obtain k v where e: "e = (k, v)" by (cases e)
  let ?o = "unat k - unat L"
  have ok: "sr_ok S (k, v)" and le: "unat L \<le> unat k" and bd: "unat k + length v \<le> unat L + length m"
    using Cons.prems by (auto simp: e word_le_nat_alt sr_end_def)
  have "unat k + length v \<le> length S" using ok by (simp add: sr_ok_def sr_end_def)
  then have w: "sr_write_at v 0 k L m = Inr (take ?o m @ v @ drop (?o + length v) m)"
    using sr_write_at_eq [of k 0 v L m] assms(1) le bd by (simp add: word_le_nat_alt)
  let ?m1 = "take ?o m @ v @ drop (?o + length v) m"
  have len: "length ?m1 = length m" using bd le by simp
  have nth: "?m1 ! p = (if unat L + p \<in> {unat k ..< unat k + length v} then S ! (unat L + p) else m ! p)"
    if "p < length m" for p
  proof -
    have "v ! (p - ?o) = S ! (unat L + p)" if "?o \<le> p" "p < ?o + length v"
      using sr_ok_nth [OF ok, of "p - ?o"] that le by (simp add: add.commute)
    then show ?thesis using that le bd by (auto simp: nth_append)
  qed
  obtain m' where "sr_merge_loop es L ?m1 = Inr m'" "length m' = length ?m1"
    "\<forall>p < length ?m1. m' ! p = (if unat L + p \<in> sr_cover es then S ! (unat L + p) else ?m1 ! p)"
    using Cons.IH [of ?m1] Cons.prems len by auto
  then show ?case
    using w len nth by (auto simp: e sr_end_def)
qed simp

lemma sr_merge_loop_piece:
  assumes "length S < 2 ^ 64" and "unat L + n \<le> length S"
    and "\<forall>e \<in> set es. sr_ok S e \<and> L \<le> fst e"
    and "sr_cover es = {unat L ..< unat L + n}" and "\<forall>e \<in> set es. sr_end e \<le> unat L + n"
  shows "sr_merge_loop es L (replicate n x) = Inr (piece S (unat L) n)"
proof -
  obtain m' where m': "sr_merge_loop es L (replicate n x) = Inr m'" "length m' = n"
    "\<forall>p < n. m' ! p = S ! (unat L + p)"
    using sr_merge_loop_nth [OF assms(1), of es L "replicate n x"] assms(3-5) by auto
  then have "m' = piece S (unat L) n" using assms(2) by (intro piece_eqI) auto
  with m' show ?thesis by simp
qed

lemma sr_right_loop_eq:
  "sr_right_loop limit rb m =
     (fold (\<lambda>e r. max r (fst e + of_nat (length (snd e)))) (takeWhile (\<lambda>e. fst e < limit) m) rb,
      takeWhile (\<lambda>e. fst e < limit) m, dropWhile (\<lambda>e. fst e < limit) m)"
  by (induction limit rb m rule: sr_right_loop.induct) (simp_all add: Let_def split: prod.splits)

lemma unat_fold_max:
  "\<forall>e \<in> set es. sr_end e < 2 ^ 64 \<Longrightarrow>
   unat (fold (\<lambda>e r. max r (fst e + of_nat (length (snd e)))) es rb) = Max (insert (unat rb) (sr_end ` set es))"
proof (induction es arbitrary: rb)
  case (Cons e es)
  let ?rb = "max rb (fst e + of_nat (length (snd e)))"
  have "unat ?rb = max (unat rb) (sr_end e)" using Cons.prems by (simp add: unat_max unat_sr_end)
  moreover have "unat (fold (\<lambda>e r. max r (fst e + of_nat (length (snd e)))) es ?rb) =
      Max (insert (unat ?rb) (sr_end ` set es))"
    using Cons.prems by (intro Cons.IH) simp
  ultimately show ?case by (cases "es = []") (simp_all add: Max_insert max.assoc)
qed simp

lemma sr_cover_star:
  assumes "e0 \<in> set E" and "snd e0 \<noteq> []" and "\<forall>e \<in> set E. unat (fst e) < sr_end e0"
    and "l \<in> set E" and "\<forall>e \<in> set E. unat (fst l) \<le> unat (fst e)" and "unat (fst e0) \<le> sr_end l"
  shows "sr_cover E = {unat (fst l) ..< Max (sr_end ` set E)}"
proof (intro set_eqI iffI)
  fix p
  assume "p \<in> sr_cover E"
  then obtain e where "e \<in> set E" "unat (fst e) \<le> p" "p < sr_end e"
    by (auto simp: sr_cover_def)
  moreover from this have "p < Max (sr_end ` set E)" by (meson Max_ge finite_imageI finite_set imageI less_le_trans)
  ultimately show "p \<in> {unat (fst l) ..< Max (sr_end ` set E)}"
    using assms(5) by simp (meson le_trans)
next
  fix p
  assume p: "p \<in> {unat (fst l) ..< Max (sr_end ` set E)}"
  have "Max (sr_end ` set E) \<in> sr_end ` set E" using assms(1) by (intro Max_in) auto
  then obtain e1 where e1: "e1 \<in> set E" "Max (sr_end ` set E) = sr_end e1" by auto
  consider "p < unat (fst e0)" | "unat (fst e0) \<le> p" "p < sr_end e0" | "sr_end e0 \<le> p" by linarith
  then have "\<exists>e \<in> set E. unat (fst e) \<le> p \<and> p < sr_end e"
  proof cases
    case 1 then show ?thesis using assms(4,6) p by (intro bexI [of _ l]) auto
  next
    case 2 then show ?thesis using assms(1) by blast
  next
    case 3
    with assms(3) e1 have "unat (fst e1) \<le> p" by fastforce
    then show ?thesis using e1 p by auto
  qed
  then show "p \<in> sr_cover E" by (auto simp: sr_cover_def)
qed

lemma takeWhile_keys:
  assumes "sm_wf (lefts @ (k, v) # tail)"
  shows "takeWhile (\<lambda>e. fst e < k) (lefts @ (k, v) # tail) = lefts"
    and "dropWhile (\<lambda>e. fst e < k) (lefts @ (k, v) # tail) = (k, v) # tail"
proof -
  have "\<forall>e \<in> set lefts. fst e < k" using assms by (auto simp: sm_wf_def sorted_wrt_append)
  then show "takeWhile (\<lambda>e. fst e < k) (lefts @ (k, v) # tail) = lefts"
    "dropWhile (\<lambda>e. fst e < k) (lefts @ (k, v) # tail) = (k, v) # tail"
    by (simp_all add: takeWhile_append2 dropWhile_append2)
qed

section \<open>The merge\<close>

text \<open>
  \<open>sr_shape S m m'\<close>: a block \<open>E\<close> of consecutive entries of \<open>m\<close> that together cover an
  interval is replaced by one entry with the bytes of \<open>S\<close> on that interval.
\<close>

definition sr_shape :: "bytes \<Rightarrow> (u64, bytes) smap \<Rightarrow> (u64, bytes) smap \<Rightarrow> bool" where
  "sr_shape S m m' \<longleftrightarrow> (\<exists>B E R n. m = B @ E @ R \<and> E \<noteq> [] \<and>
     sr_cover E = {unat (fst (hd E)) ..< unat (fst (hd E)) + n} \<and> unat (fst (hd E)) + n \<le> length S \<and>
     m' = B @ (fst (hd E), piece S (unat (fst (hd E))) n) # R)"

lemma sr_shape_ok: "sr_shape S m m' \<Longrightarrow> \<forall>e \<in> set m. sr_ok S e \<Longrightarrow> \<forall>e \<in> set m'. sr_ok S e"
  by (auto simp: sr_shape_def sr_ok_pieceI)

lemma sr_shape_cover: "sr_shape S m m' \<Longrightarrow> sr_cover m' = sr_cover m"
  by (auto simp: sr_shape_def sr_end_def)

lemma sr_shape_wf: "sr_shape S m m' \<Longrightarrow> sm_wf m \<Longrightarrow> sm_wf m'"
proof -
  assume "sr_shape S m m'" "sm_wf m"
  then obtain B E R n where *: "m = B @ E @ R" "E \<noteq> []"
    "m' = B @ (fst (hd E), piece S (unat (fst (hd E))) n) # R"
    by (auto simp: sr_shape_def)
  moreover obtain e E' where "E = e # E'" using * by (cases E) auto
  ultimately show "sm_wf m'" using \<open>sm_wf m\<close> by (auto simp: sm_wf_def sorted_wrt_append)
qed

lemma sr_merge_block:
  assumes S: "length S < 2 ^ 64" and wf: "sm_wf m" and ok: "\<forall>e \<in> set m. sr_ok S e"
    and m: "m = B @ E @ R" and E: "E \<noteq> []"
    and cov: "sr_cover E = {unat (fst (hd E)) ..< rb}" and rb: "rb = Max (sr_end ` set E)"
  shows "sr_merge_loop E (fst (hd E)) (replicate (rb - unat (fst (hd E))) 45) =
      Inr (piece S (unat (fst (hd E))) (rb - unat (fst (hd E))))" (is "?loop = _")
    and "sr_shape S m (B @ (fst (hd E), piece S (unat (fst (hd E))) (rb - unat (fst (hd E)))) # R)"
    and "rb \<le> length S"
proof -
  let ?L = "fst (hd E)"
  have okE: "\<forall>e \<in> set E. sr_ok S e" using ok m by simp
  have "rb \<in> sr_end ` set E" unfolding rb using E by (intro Max_in) auto
  then show rbS: "rb \<le> length S" using okE by (auto simp: sr_ok_def)
  have "sr_end (hd E) \<le> rb" unfolding rb using E by simp
  then have L: "unat ?L \<le> rb" by (simp add: sr_end_def)
  then have rb': "unat ?L + (rb - unat ?L) = rb" by simp
  have "\<forall>e \<in> set E. ?L \<le> fst e"
    using wf by (auto simp: m sm_wf_append intro: sm_wf_hd_le)
  moreover have "\<forall>e \<in> set E. sr_end e \<le> rb" unfolding rb by simp
  ultimately show "?loop = Inr (piece S (unat ?L) (rb - unat ?L))"
    using okE cov rbS rb' S by (intro sr_merge_loop_piece) auto
  show "sr_shape S m (B @ (?L, piece S (unat ?L) (rb - unat ?L)) # R)"
    unfolding sr_shape_def
    by (intro exI [of _ B] exI [of _ E] exI [of _ R] exI [of _ "rb - unat ?L"] conjI, unfold rb')
       (rule m E cov rbS refl)+
qed

text \<open>The block merged around the entry at \<open>vi\<close>, and what lies before and after it.\<close>

definition sr_hasL :: "(u64, bytes) smap \<Rightarrow> u64 \<Rightarrow> bool" where
  "sr_hasL lefts vi \<longleftrightarrow> lefts \<noteq> [] \<and> unat vi < sr_end (last lefts)"

definition sr_before :: "(u64, bytes) smap \<Rightarrow> u64 \<Rightarrow> (u64, bytes) smap" where
  "sr_before lefts vi = (if sr_hasL lefts vi then butlast lefts else lefts)"

definition sr_passed :: "u64 \<Rightarrow> bytes \<Rightarrow> (u64, bytes) smap \<Rightarrow> (u64, bytes) smap" where
  "sr_passed vi vs tail = takeWhile (\<lambda>e. fst e < vi + of_nat (length vs)) ((vi, vs) # tail)"

definition sr_after :: "u64 \<Rightarrow> bytes \<Rightarrow> (u64, bytes) smap \<Rightarrow> (u64, bytes) smap" where
  "sr_after vi vs tail = dropWhile (\<lambda>e. fst e < vi + of_nat (length vs)) ((vi, vs) # tail)"

definition sr_block :: "(u64, bytes) smap \<Rightarrow> u64 \<Rightarrow> bytes \<Rightarrow> (u64, bytes) smap \<Rightarrow> (u64, bytes) smap" where
  "sr_block lefts vi vs tail =
     (if sr_hasL lefts vi then last lefts # sr_passed vi vs tail else sr_passed vi vs tail)"

lemma sr_block_split: "lefts @ (vi, vs) # tail = sr_before lefts vi @ sr_block lefts vi vs tail @ sr_after vi vs tail"
  by (simp add: sr_before_def sr_block_def sr_passed_def sr_after_def sr_hasL_def)

lemma sr_merge_run:
  assumes wf: "sm_wf (lefts @ (vi, vs) # tail)" and fit: "\<forall>e \<in> set (lefts @ (vi, vs) # tail). sr_end e < 2 ^ 64"
  defines "l \<equiv> if sr_hasL lefts vi then last lefts else (vi, vs)"
  shows "\<exists>rb. unat rb = Max (insert (sr_end l) (insert (sr_end (vi, vs)) (sr_end ` set (sr_passed vi vs tail)))) \<and>
    sr_merge vi vs (vi + of_nat (length vs)) (lefts @ (vi, vs) # tail) =
      bindE (sr_merge_loop (sr_block lefts vi vs tail) (fst l) (replicate (unat (rb - fst l)) 45))
        (\<lambda>merged. Inr (sr_before lefts vi @ (fst l, merged) #
          (if \<not> sr_hasL lefts vi \<and> sr_passed vi vs tail = [] then tl (sr_after vi vs tail) else sr_after vi vs tail)))"
proof (intro exI conjI)
  let ?rb = "fold (\<lambda>e r. max r (fst e + of_nat (length (snd e)))) (sr_passed vi vs tail)
    (max (fst l + of_nat (length (snd l))) (vi + of_nat (length vs)))"
  have hasL: "(lefts \<noteq> [] \<and> \<not> fst (last lefts) + of_nat (length (snd (last lefts))) \<le> vi) = sr_hasL lefts vi"
  proof (cases "lefts = []")
    case False
    then have "sr_end (last lefts) < 2 ^ 64" using fit by simp
    then show ?thesis using False by (simp add: sr_hasL_def word_le_nat_alt unat_sr_end not_le)
  qed (simp add: sr_hasL_def)
  have "sr_end l < 2 ^ 64" using fit by (auto simp: l_def sr_hasL_def)
  moreover have "sr_end (vi, vs) < 2 ^ 64" using fit by simp
  moreover have "\<forall>e \<in> set (sr_passed vi vs tail). sr_end e < 2 ^ 64"
    using fit by (auto simp: sr_passed_def dest: set_takeWhileD split: if_splits)
  ultimately show "unat ?rb = Max (insert (sr_end l) (insert (sr_end (vi, vs)) (sr_end ` set (sr_passed vi vs tail))))"
    using unat_sr_end [of l] unat_sr_end [of "(vi, vs)"]
    by (cases "sr_passed vi vs tail = []") (simp_all add: unat_fold_max unat_max Max_insert max.assoc)
  show "sr_merge vi vs (vi + of_nat (length vs)) (lefts @ (vi, vs) # tail) =
      bindE (sr_merge_loop (sr_block lefts vi vs tail) (fst l) (replicate (unat (?rb - fst l)) 45))
        (\<lambda>merged. Inr (sr_before lefts vi @ (fst l, merged) #
          (if \<not> sr_hasL lefts vi \<and> sr_passed vi vs tail = [] then tl (sr_after vi vs tail) else sr_after vi vs tail)))"
    unfolding sr_merge_def Let_def takeWhile_keys [OF wf] hasL sr_right_loop_eq
      sr_passed_def [symmetric] sr_after_def [symmetric]
    by (simp add: sr_block_def l_def sr_before_def case_prod_beta)
qed

lemma sr_passed_Cons:
  assumes "sr_end (vi, vs) < 2 ^ 64" and "vs \<noteq> []"
  shows "sr_passed vi vs tail = (vi, vs) # takeWhile (\<lambda>e. unat (fst e) < sr_end (vi, vs)) tail"
    and "sr_after vi vs tail = dropWhile (\<lambda>e. unat (fst e) < sr_end (vi, vs)) tail"
proof -
  have limit: "unat (vi + of_nat (length vs)) = sr_end (vi, vs)"
    using unat_sr_end [OF assms(1)] by simp
  then have "(\<lambda>e :: u64 \<times> bytes. fst e < vi + of_nat (length vs)) = (\<lambda>e. unat (fst e) < sr_end (vi, vs))"
    by (auto simp: word_less_nat_alt)
  moreover have "unat vi < sr_end (vi, vs)" using assms(2) by (simp add: sr_end_def)
  ultimately show "sr_passed vi vs tail = (vi, vs) # takeWhile (\<lambda>e. unat (fst e) < sr_end (vi, vs)) tail"
    and "sr_after vi vs tail = dropWhile (\<lambda>e. unat (fst e) < sr_end (vi, vs)) tail"
    by (simp_all add: sr_passed_def sr_after_def)
qed

lemma sr_block_cover:
  assumes wf: "sm_wf (lefts @ (vi, vs) # tail)" and fit: "sr_end (vi, vs) < 2 ^ 64" and vs: "vs \<noteq> []"
  defines "E \<equiv> sr_block lefts vi vs tail"
  shows "E \<noteq> []" and "hd E = (if sr_hasL lefts vi then last lefts else (vi, vs))"
    and "sr_cover E = {unat (fst (hd E)) ..< Max (sr_end ` set E)}"
proof -
  note passed = sr_passed_Cons(1) [OF fit vs]
  show E: "E \<noteq> []" and hd: "hd E = (if sr_hasL lefts vi then last lefts else (vi, vs))"
    by (simp_all add: E_def sr_block_def passed)
  have wfE: "sm_wf E" using wf unfolding E_def sr_block_split by (simp add: sm_wf_append)
  show "sr_cover E = {unat (fst (hd E)) ..< Max (sr_end ` set E)}"
  proof (rule sr_cover_star [of "(vi, vs)"])
    show "(vi, vs) \<in> set E" by (simp add: E_def sr_block_def passed)
    show "snd (vi, vs) \<noteq> []" using vs by simp
    show "\<forall>e \<in> set E. unat (fst e) < sr_end (vi, vs)"
    proof -
      have "unat (fst (last lefts)) < sr_end (vi, vs)" if "sr_hasL lefts vi"
      proof -
        have "fst (last lefts) < vi" using that wf by (simp add: sm_wf_append sr_hasL_def)
        then show ?thesis by (simp add: word_less_nat_alt sr_end_def)
      qed
      then show ?thesis using vs
        by (auto simp: E_def sr_block_def passed sr_end_def dest: set_takeWhileD)
    qed
    show "hd E \<in> set E" using E by simp
    show "\<forall>e \<in> set E. unat (fst (hd E)) \<le> unat (fst e)"
      using sm_wf_hd_le [OF wfE] by (simp add: word_le_nat_alt)
    show "unat (fst (vi, vs)) \<le> sr_end (hd E)" by (auto simp: hd sr_hasL_def sr_end_def)
  qed
qed

lemma sr_sep_append:
  "sr_sep (a @ b) \<longleftrightarrow> sr_sep a \<and> sr_sep b \<and> (\<forall>x \<in> set a. \<forall>y \<in> set b. sr_end x \<le> unat (fst y))"
  by (auto simp: sr_sep_def sorted_wrt_append)

lemma sr_sep_Cons:
  "sr_sep (e # m) \<longleftrightarrow> snd e \<noteq> [] \<and> (\<forall>y \<in> set m. sr_end e \<le> unat (fst y)) \<and> sr_sep m"
  by (auto simp: sr_sep_def)

lemma sr_sep_Nil [simp]: "sr_sep []"
  by (simp add: sr_sep_def)

lemma sm_wf_dropWhile_ge:
  "sm_wf (m :: (u64, bytes) smap) \<Longrightarrow> r \<in> set (dropWhile (\<lambda>e. unat (fst e) < n) m) \<Longrightarrow> n \<le> unat (fst r)"
proof (induction m)
  case (Cons e m)
  show ?case
  proof (cases "unat (fst e) < n")
    case True
    then show ?thesis using Cons by (cases e) simp
  next
    case False
    then have "unat (fst e) \<le> unat (fst r)"
      using Cons.prems sm_wf_hd_le [of "e # m" r] by (simp add: word_le_nat_alt)
    then show ?thesis using False by simp
  qed
qed simp

lemma sr_before_le:
  assumes sep: "sr_sep lefts" and b: "b \<in> set (sr_before lefts vi)"
  shows "sr_end b \<le> unat (if sr_hasL lefts vi then fst (last lefts) else vi)"
proof -
  have "lefts \<noteq> []" using b by (auto simp: sr_before_def split: if_splits)
  then obtain xs x where lefts: "lefts = xs @ [x]" by (metis rev_exhaust)
  then have "sr_sep (xs @ [x])" using sep by simp
  then have xs: "\<forall>y \<in> set xs. sr_end y \<le> unat (fst x)" by (simp add: sr_sep_append)
  show ?thesis
  proof (cases "sr_hasL lefts vi")
    case True
    then show ?thesis using b xs by (simp add: sr_before_def lefts)
  next
    case False
    then have "sr_end x \<le> unat vi" by (simp add: sr_hasL_def lefts)
    moreover have "unat (fst x) \<le> sr_end x" by (simp add: sr_end_def)
    moreover have "b \<in> set xs \<or> b = x" using False b by (auto simp: sr_before_def lefts)
    ultimately show ?thesis using False xs by fastforce
  qed
qed

lemma sr_sep_merge:
  assumes wf: "sm_wf (lefts @ (vi, vs) # tail)" and fit: "sr_end (vi, vs) < 2 ^ 64" and vs: "vs \<noteq> []"
    and sep: "sr_sep (lefts @ tail)" and w: "w \<noteq> []"
  defines "E \<equiv> sr_block lefts vi vs tail"
  assumes wlen: "unat (fst (hd E)) + length w = Max (sr_end ` set E)"
  shows "sr_sep (sr_before lefts vi @ (fst (hd E), w) # sr_after vi vs tail)"
proof -
  have l: "sr_sep lefts" and t: "sr_sep tail" and lt: "\<forall>x \<in> set lefts. \<forall>y \<in> set tail. sr_end x \<le> unat (fst y)"
    using sep by (simp_all add: sr_sep_append)
  have wft: "sm_wf tail" using wf by (simp add: sm_wf_append)
  let ?P = "\<lambda>e :: u64 \<times> bytes. unat (fst e) < sr_end (vi, vs)"
  have after: "sr_after vi vs tail = dropWhile ?P tail" and
    E: "E = (if sr_hasL lefts vi then [last lefts] else []) @ (vi, vs) # takeWhile ?P tail"
    using sr_passed_Cons [OF fit vs] by (simp_all add: E_def sr_block_def)
  have "sr_sep (takeWhile ?P tail @ dropWhile ?P tail)" using t by simp
  then have d: "sr_sep (dropWhile ?P tail)"
    and td: "\<forall>x \<in> set (takeWhile ?P tail). \<forall>y \<in> set (dropWhile ?P tail). sr_end x \<le> unat (fst y)"
    by (simp_all add: sr_sep_append del: takeWhile_dropWhile_id)
  have "sr_end e \<le> unat (fst r)" if "e \<in> set E" "r \<in> set (dropWhile ?P tail)" for e r
    using that td lt sm_wf_dropWhile_ge [OF wft that(2)] set_dropWhileD [OF that(2)]
    by (auto simp: E sr_hasL_def split: if_splits)
  then have right: "\<forall>r \<in> set (sr_after vi vs tail). sr_end (fst (hd E), w) \<le> unat (fst r)"
    using wlen by (auto simp: after sr_end_def E)
  have "fst (hd E) = (if sr_hasL lefts vi then fst (last lefts) else vi)" by (simp add: E)
  then have left: "\<forall>b \<in> set (sr_before lefts vi). sr_end b \<le> unat (fst (hd E))"
    using sr_before_le [OF l] by simp
  have sub: "set (sr_before lefts vi) \<subseteq> set lefts" by (auto simp: sr_before_def dest: in_set_butlastD)
  have "sr_sep (sr_before lefts vi)"
  proof (cases "sr_hasL lefts vi")
    case True
    then have "sr_sep (butlast lefts @ [last lefts])" using l by (simp add: sr_hasL_def)
    then show ?thesis using True by (simp add: sr_before_def sr_sep_append)
  qed (simp add: sr_before_def l)
  moreover have "\<forall>x \<in> set (sr_before lefts vi). \<forall>y \<in> set (sr_after vi vs tail). sr_end x \<le> unat (fst y)"
    unfolding after using lt sub set_dropWhileD by (metis subsetD)
  ultimately show ?thesis
    using left right d w by (simp add: sr_sep_append sr_sep_Cons after)
qed

lemma sr_merge_nonempty:
  assumes S: "length S < 2 ^ 64" and wf: "sm_wf (lefts @ (vi, vs) # tail)"
    and ok: "\<forall>e \<in> set (lefts @ (vi, vs) # tail). sr_ok S e" and vs: "vs \<noteq> []"
  shows "\<exists>m'. sr_merge vi vs (vi + of_nat (length vs)) (lefts @ (vi, vs) # tail) = Inr m' \<and>
    sr_shape S (lefts @ (vi, vs) # tail) m' \<and> (sr_sep (lefts @ tail) \<longrightarrow> sr_sep m')"
proof -
  have fit: "\<forall>e \<in> set (lefts @ (vi, vs) # tail). sr_end e < 2 ^ 64"
    using ok [unfolded sr_ok_def] S le_less_trans by blast
  then have fit1: "sr_end (vi, vs) < 2 ^ 64" by simp
  define E where "E = sr_block lefts vi vs tail"
  let ?L = "unat (fst (hd E))" and ?rb = "Max (sr_end ` set E)"
  note E = sr_block_cover [OF wf fit1 vs, folded E_def]
  note split = sr_block_split [of lefts vi vs tail, folded E_def]
  note blk = sr_merge_block [OF S wf ok split E(1) E(3) refl]
  have set_E: "set E = insert (hd E) (insert (vi, vs) (set (sr_passed vi vs tail)))"
    unfolding E(2) by (auto simp: E_def sr_block_def sr_passed_Cons(1) [OF fit1 vs])
  obtain rb where rb: "unat rb = ?rb" and run: "sr_merge vi vs (vi + of_nat (length vs)) (lefts @ (vi, vs) # tail) =
      bindE (sr_merge_loop E (fst (hd E)) (replicate (unat (rb - fst (hd E))) 45))
        (\<lambda>merged. Inr (sr_before lefts vi @ (fst (hd E), merged) # sr_after vi vs tail))"
    using sr_merge_run [OF wf fit] unfolding set_E E(2) E_def [symmetric]
    by (auto simp: sr_passed_Cons(1) [OF fit1 vs])
  have "sr_end (hd E) \<le> ?rb" using E(1) by simp
  then have le: "?L \<le> ?rb" by (simp add: sr_end_def)
  then have "unat (rb - fst (hd E)) = ?rb - ?L"
    by (subst unat_sub_nowrap) (simp_all add: word_le_nat_alt rb)
  then have m': "sr_merge vi vs (vi + of_nat (length vs)) (lefts @ (vi, vs) # tail) =
      Inr (sr_before lefts vi @ (fst (hd E), piece S ?L (?rb - ?L)) # sr_after vi vs tail)"
    using run blk(1) by simp
  have "sr_sep (sr_before lefts vi @ (fst (hd E), piece S ?L (?rb - ?L)) # sr_after vi vs tail)"
    if "sr_sep (lefts @ tail)"
  proof (rule sr_sep_merge [OF wf fit1 vs that, folded E_def])
    have "unat vi < sr_end (vi, vs)" using vs by (simp add: sr_end_def)
    also have "\<dots> \<le> ?rb" by (rule Max_ge) (simp_all add: set_E)
    finally have "unat vi < ?rb" .
    moreover have "?L \<le> unat vi" unfolding E(2) using wf
      by (auto simp: sr_hasL_def sm_wf_append word_less_nat_alt intro: less_imp_le)
    ultimately show "piece S ?L (?rb - ?L) \<noteq> []" using blk(3) by (simp add: piece_def)
    show "?L + length (piece S ?L (?rb - ?L)) = ?rb" using le blk(3) by simp
  qed
  with m' blk(2) show ?thesis by blast
qed

lemma sr_merge_empty:
  assumes S: "length S < 2 ^ 64" and wf: "sm_wf (lefts @ (vi, []) # tail)"
    and ok: "\<forall>e \<in> set (lefts @ (vi, []) # tail). sr_ok S e"
  shows "\<exists>m'. sr_merge vi [] vi (lefts @ (vi, []) # tail) = Inr m' \<and> sr_shape S (lefts @ (vi, []) # tail) m'"
proof -
  let ?m = "lefts @ (vi, []) # tail"
  have fit: "\<forall>e \<in> set ?m. sr_end e < 2 ^ 64"
    using ok [unfolded sr_ok_def] S le_less_trans by blast
  have [simp]: "sr_passed vi [] tail = []" "sr_after vi [] tail = (vi, []) # tail"
    by (simp_all add: sr_passed_def sr_after_def)
  show ?thesis
  proof (cases "sr_hasL lefts vi")
    case True
    define l where "l = last lefts"
    have "butlast lefts @ [l] = lefts" using True by (simp add: sr_hasL_def l_def)
    then have split: "?m = butlast lefts @ [l] @ (vi, []) # tail" by simp
    have le: "sr_end (vi, []) \<le> sr_end l" using True by (simp add: sr_hasL_def sr_end_def l_def)
    obtain rb where rb: "unat rb = sr_end l" and run: "sr_merge vi [] vi ?m =
        bindE (sr_merge_loop [l] (fst l) (replicate (unat (rb - fst l)) 45))
          (\<lambda>merged. Inr (butlast lefts @ (fst l, merged) # (vi, []) # tail))"
      using sr_merge_run [OF wf fit] le True
      by (auto simp: sr_block_def sr_before_def max_absorb1 simp flip: l_def simp del: sr_merge_loop.simps)
    have n: "unat (rb - fst l) = sr_end l - unat (fst l)"
      using rb by (subst unat_sub_nowrap) (simp_all add: word_le_nat_alt sr_end_def)
    have "sr_cover [l] = {unat (fst (hd [l])) ..< sr_end l}" "sr_end l = Max (sr_end ` set [l])" by simp_all
    note blk = sr_merge_block [OF S wf ok split list.distinct(2) this, unfolded list.sel(1)]
    show ?thesis unfolding run n blk(1) bindE_simps using blk(2) by blast
  next
    case False
    then obtain rb where "unat rb = sr_end (vi, [])" and run: "sr_merge vi [] vi ?m =
        Inr (lefts @ (vi, replicate (unat (rb - vi)) 45) # tail)"
      using sr_merge_run [OF wf fit] by (auto simp: sr_block_def sr_before_def)
    then have "rb = vi" by (intro unat_eqI) (simp add: sr_end_def)
    with run have "sr_merge vi [] vi ?m = Inr ?m" by simp
    moreover have "unat vi \<le> length S" using ok by (simp add: sr_ok_def sr_end_def)
    then have "sr_shape S ?m ?m"
      unfolding sr_shape_def
      by (intro exI [of _ lefts] exI [of _ "[(vi, [])]"] exI [of _ tail] exI [of _ 0]) (simp add: sr_end_def)
    ultimately show ?thesis by blast
  qed
qed

end
