(* ===== verification/Reassembler_Correct.thy ===== *)
theory Reassembler_Correct
  imports Stream_Reassembler
begin

text \<open>
  Correctness of the reassembler of \<^verbatim>\<open>stream_reassembler.cc\<close>. \<open>sr_inv S r\<close> says that the entries
  waiting in the map agree with the source stream \<open>S\<close>; every step keeps it, so what leaves the
  reassembler is a prefix of \<open>S\<close> whatever the order, overlap and repetition of the pieces.
  \<open>sr_held\<close> abstracts a state to the set of stream indices it has; with room for them, pushing
  a piece adds exactly its indices and the assembled part is everything below the first gap.
\<close>

section \<open>Specification\<close>

definition sr_inv :: "bytes \<Rightarrow> StreamReassembler \<Rightarrow> bool" where
  "sr_inv S r \<longleftrightarrow> length S < 2 ^ 64 \<and> sm_wf (sr_unassemBuf r) \<and> (\<forall>e \<in> set (sr_unassemBuf r). sr_ok S e) \<and>
     unat (sr_expectIdx r) \<le> length S"

text \<open>The pieces wait beyond the assembled part, without overlap.\<close>

definition sr_neat :: "StreamReassembler \<Rightarrow> bool" where
  "sr_neat r \<longleftrightarrow> sr_sep (sr_unassemBuf r) \<and> (\<forall>e \<in> set (sr_unassemBuf r). sr_expectIdx r \<le> fst e)"

definition sr_held :: "StreamReassembler \<Rightarrow> nat set" where
  "sr_held r = {..< unat (sr_expectIdx r)} \<union> sr_cover (sr_unassemBuf r)"

definition sr_size :: "(u64, bytes) smap \<Rightarrow> nat" where
  "sr_size m = sum_list (map (length \<circ> snd) m)"

text \<open>
  The steps of a reassembler in use: a piece of \<open>S\<close> is pushed, or the reader takes bytes from
  the output. \<open>strict\<close> adds that \<open>eof\<close> is only set on a piece that ends where \<open>S\<close> ends.
\<close>

inductive sr_step :: "bool \<Rightarrow> bytes \<Rightarrow> StreamReassembler \<times> bytes \<Rightarrow> StreamReassembler \<times> bytes \<Rightarrow> bool"
  for strict :: bool and S :: bytes where
  push: "i + length d \<le> length S \<Longrightarrow> d = piece S i (length d) \<Longrightarrow>
     (strict \<and> eof \<Longrightarrow> i + length d = length S) \<Longrightarrow>
     sr_push_substring d (of_nat i) eof r = Inr r' \<Longrightarrow> sr_step strict S (r, del) (r', del)"
| read: "bs_read n (sr_output r) = (out, d) \<Longrightarrow> sr_step strict S (r, del) (r\<lparr>sr_output := out\<rparr>, del @ d)"

inductive_cases sr_stepE: "sr_step strict S s t"

section \<open>Clipping and insertion\<close>

lemma sr_valid_part_spec:
  assumes S: "length S < 2 ^ 64" and len: "i + length d \<le> length S" and d: "d = piece S i (length d)"
    and e: "unat e \<le> length S"
  shows "sr_valid_part d (of_nat i) e = Inr None \<and> i + length d \<le> unat e \<or>
    (\<exists>vi vs. sr_valid_part d (of_nat i) e = Inr (Some (vi, vs)) \<and> unat e < i + length d \<and> sr_ok S (vi, vs) \<and>
       unat vi = max i (unat e) \<and> sr_end (vi, vs) = i + length d \<and> of_nat i + of_nat (length d) = vi + of_nat (length vs))"
proof -
  have i: "unat (of_nat i :: u64) = i" and l: "unat (of_nat (length d) :: u64) = length d"
    using S len by (simp_all add: unat_of_nat_small)
  have sum: "unat (of_nat i + of_nat (length d) :: u64) = i + length d"
    using S len i by (subst unat_add_of_nat) simp_all
  consider "i + length d \<le> unat e" | "unat e < i + length d" "i < unat e" | "unat e < i + length d" "unat e \<le> i"
    by linarith
  then show ?thesis
  proof cases
    case 1
    then show ?thesis by (simp add: sr_valid_part_def word_le_nat_alt sum)
  next
    case 2
    have off: "unat (e - of_nat i) = unat e - i"
      using 2 i by (subst unat_sub_nowrap) (simp_all add: word_le_nat_alt)
    have n: "unat (of_nat (length d) - (e - of_nat i) :: u64) = length d - (unat e - i)"
      using 2 off l by (subst unat_sub_nowrap) (simp_all add: word_le_nat_alt)
    let ?vs = "drop (unat e - i) d"
    have "sr_valid_part d (of_nat i) e = Inr (Some (e, ?vs))"
      using 2 off n sum i by (simp add: sr_valid_part_def word_le_nat_alt word_less_nat_alt substr_ok)
    moreover have "?vs = piece S (unat e) (length d - (unat e - i))"
      using d 2 by (metis drop_piece le_add_diff_inverse less_imp_le)
    then have "sr_ok S (e, ?vs)" using 2 len by (auto simp: sr_ok_def sr_end_def)
    moreover have "sr_end (e, ?vs) = i + length d" using 2 by (simp add: sr_end_def)
    moreover from this have "of_nat i + of_nat (length d) = e + of_nat (length ?vs)"
      using sum unat_sr_end [of "(e, ?vs)"] S len by (intro unat_eqI) simp
    ultimately show ?thesis using 2 by (auto simp: max_def)
  next
    case 3
    then show ?thesis using i l sum d len
      by (simp add: sr_valid_part_def word_le_nat_alt word_less_nat_alt sr_ok_def sr_end_def max_def)
  qed
qed


lemma sr_insert_Some:
  assumes wf: "sm_wf m" and ins: "sr_insert vi vs m = Some m1"
  obtains lefts tail where "m1 = lefts @ (vi, vs) # tail" and "sm_wf m1" and "set m1 \<subseteq> insert (vi, vs) (set m)"
    and "sr_cover m1 = sr_cover m \<union> {unat vi ..< sr_end (vi, vs)}" and "sr_sep m \<Longrightarrow> sr_sep (lefts @ tail)"
proof
  let ?l = "takeWhile (\<lambda>e. fst e < vi) m" and ?t = "filter (\<lambda>e. vi < fst e) m"
  have m1: "m1 = sm_set vi vs m" using ins by (auto simp: sr_insert_def split: option.splits if_splits)
  then show eq: "m1 = ?l @ (vi, vs) # ?t" using sm_set_split [OF wf] by simp
  show "sm_wf m1" using m1 wf by (simp add: sm_wf_set)
  show "set m1 \<subseteq> insert (vi, vs) (set m)" unfolding eq by (auto dest: set_takeWhileD)
  obtain mid where m: "m = ?l @ mid @ ?t" and mid: "\<forall>e \<in> set mid. fst e = vi"
    by (rule that [OF sm_wf_split [OF wf]]) simp
  have "length (snd e) \<le> length vs" if "e \<in> set mid" for e
  proof -
    have "(vi, snd e) \<in> set m" using that mid by (subst m) auto
    then have "sm_find vi m = Some (snd e)" by (rule sm_find_in [OF wf])
    then show ?thesis using ins by (auto simp: sr_insert_def split: if_splits)
  qed
  then have "sr_cover mid \<subseteq> {unat vi ..< sr_end (vi, vs)}"
    using mid by (fastforce simp: sr_cover_def sr_end_def)
  then show "sr_cover m1 = sr_cover m \<union> {unat vi ..< sr_end (vi, vs)}"
    unfolding eq by (subst (3) m) auto
  show "sr_sep (?l @ ?t)" if "sr_sep m"
  proof -
    have "sr_sep (?l @ mid @ ?t)" using that m by metis
    then show ?thesis by (auto simp: sr_sep_append)
  qed
qed

lemma sr_shape_keys:
  assumes "sr_shape S m m'"
  shows "fst ` set m' \<subseteq> fst ` set m"
proof -
  obtain B E R n where m: "m = B @ E @ R" "E \<noteq> []" "m' = B @ (fst (hd E), piece S (unat (fst (hd E))) n) # R"
    using assms unfolding sr_shape_def by blast
  then have "hd E \<in> set E" by simp
  then show ?thesis unfolding m by (auto simp: image_Un)
qed

lemma sr_pushUnassem_spec:
  assumes inv: "sr_inv S r" and len: "i + length d \<le> length S" and d: "d = piece S i (length d)"
  shows "\<exists>m'. sr_pushUnassem d (of_nat i) r = Inr (r\<lparr>sr_unassemBuf := m'\<rparr>) \<and>
    sr_inv S (r\<lparr>sr_unassemBuf := m'\<rparr>) \<and>
    sr_held (r\<lparr>sr_unassemBuf := m'\<rparr>) = sr_held r \<union> {i ..< i + length d} \<and>
    (sr_neat r \<longrightarrow> d \<noteq> [] \<longrightarrow> sr_neat (r\<lparr>sr_unassemBuf := m'\<rparr>))"
proof -
  let ?m = "sr_unassemBuf r" and ?e = "sr_expectIdx r"
  have S: "length S < 2 ^ 64" and wf: "sm_wf ?m" and ok: "\<forall>e \<in> set ?m. sr_ok S e" and e: "unat ?e \<le> length S"
    using inv by (simp_all add: sr_inv_def)
  have id: "r\<lparr>sr_unassemBuf := ?m\<rparr> = r" by simp
  consider "sr_valid_part d (of_nat i) ?e = Inr None" "i + length d \<le> unat ?e"
    | vi vs where "sr_valid_part d (of_nat i) ?e = Inr (Some (vi, vs))" "unat ?e < i + length d" "sr_ok S (vi, vs)"
       "unat vi = max i (unat ?e)" "sr_end (vi, vs) = i + length d" "of_nat i + of_nat (length d) = vi + of_nat (length vs)"
    using sr_valid_part_spec [OF S len d e] by blast
  then show ?thesis
  proof cases
    case 1
    then have "sr_held r = sr_held r \<union> {i ..< i + length d}" by (auto simp: sr_held_def)
    then show ?thesis using 1 inv by (intro exI [of _ ?m]) (simp add: sr_pushUnassem_def)
  next
    case 2
    have cov: "{..<unat ?e} \<union> {i ..< i + length d} = {..<unat ?e} \<union> {unat vi ..< sr_end (vi, vs)}"
      using 2 by auto
    have vs: "d \<noteq> [] \<Longrightarrow> vs \<noteq> []" using 2(2,4,5) by (auto simp: sr_end_def max_def split: if_splits)
    have key: "?e \<le> vi" using 2(4) by (simp add: word_le_nat_alt)
    show ?thesis
    proof (cases "sr_insert vi vs ?m")
      case None
      then obtain old where old: "(vi, old) \<in> set ?m" "length vs \<le> length old"
        by (auto simp: sr_insert_def sm_find_def split: option.splits if_splits dest: map_of_SomeD)
      then have "{unat vi ..< sr_end (vi, vs)} \<subseteq> {unat (fst (vi, old)) ..< sr_end (vi, old)}" by (simp add: sr_end_def)
      also have "\<dots> \<subseteq> sr_cover ?m" unfolding sr_cover_def using old(1) by blast
      finally have "{unat vi ..< sr_end (vi, vs)} \<subseteq> sr_cover ?m" .
      then have "sr_held r = sr_held r \<union> {i ..< i + length d}" using cov by (auto simp: sr_held_def)
      then show ?thesis using 2 None inv by (intro exI [of _ ?m]) (simp add: sr_pushUnassem_def)
    next
      case (Some m1)
      obtain lefts tail where m1: "m1 = lefts @ (vi, vs) # tail" "sm_wf m1" "set m1 \<subseteq> insert (vi, vs) (set ?m)"
        "sr_cover m1 = sr_cover ?m \<union> {unat vi ..< sr_end (vi, vs)}" "sr_sep ?m \<Longrightarrow> sr_sep (lefts @ tail)"
        using sr_insert_Some [OF wf Some] by blast
      have ok1: "\<forall>e \<in> set m1. sr_ok S e" using m1(3) ok 2(3) by blast
      obtain m' where m': "sr_merge vi vs (vi + of_nat (length vs)) m1 = Inr m'" "sr_shape S m1 m'"
        "vs \<noteq> [] \<longrightarrow> sr_sep (lefts @ tail) \<longrightarrow> sr_sep m'"
      proof (cases "vs = []")
        case True
        then show ?thesis using sr_merge_empty [OF S, of lefts vi tail] m1(1,2) ok1 that by auto
      next
        case False
        then show ?thesis using sr_merge_nonempty [OF S, of lefts vi vs tail] m1(1,2) ok1 that by auto
      qed
      have "fst ` set m' \<subseteq> insert vi (fst ` set ?m)" using sr_shape_keys [OF m'(2)] m1(3) by force
      then have "sr_neat r \<longrightarrow> d \<noteq> [] \<longrightarrow> sr_neat (r\<lparr>sr_unassemBuf := m'\<rparr>)"
        using m'(3) m1(5) vs key unfolding sr_neat_def by fastforce
      moreover have "sr_inv S (r\<lparr>sr_unassemBuf := m'\<rparr>)"
        using inv sr_shape_ok [OF m'(2) ok1] sr_shape_wf [OF m'(2) m1(2)] by (simp add: sr_inv_def)
      moreover have "sr_held (r\<lparr>sr_unassemBuf := m'\<rparr>) = sr_held r \<union> {i ..< i + length d}"
        using cov sr_shape_cover [OF m'(2)] m1(4) by (auto simp: sr_held_def)
      ultimately show ?thesis using 2 Some m'(1) by (intro exI [of _ m']) (simp add: sr_pushUnassem_def)
    qed
  qed
qed

section \<open>Capacity\<close>

lemma sr_total_eq: "sr_total m = of_nat (sr_size m)"
  by (induction m rule: sr_total.induct) (simp_all add: sr_size_def)

lemma sr_size_simps [simp]:
  "sr_size [] = 0" "sr_size (e # m) = length (snd e) + sr_size m" "sr_size (m @ m') = sr_size m + sr_size m'"
  "sr_size (rev m) = sr_size m"
  by (simp_all add: sr_size_def rev_map [symmetric] sum_list_rev)

text \<open>What \<open>fixCap\<close> leaves: an initial part of the entries, the last of them possibly cut.\<close>

definition sr_cut :: "(u64, bytes) smap \<Rightarrow> (u64, bytes) smap \<Rightarrow> bool" where
  "sr_cut m m' \<longleftrightarrow> m' = m \<or> (\<exists>B k v R n. m = B @ (k, v) # R \<and> m' = B @ [(k, take (Suc n) v)])"

lemma sr_fixCap_loop_cut:
  "sr_fixCap_loop ov es = Inr es' \<Longrightarrow> \<exists>A k v B n. es = A @ (k, v) # B \<and> es' = (k, take (Suc n) v) # B"
proof (induction ov es rule: sr_fixCap_loop.induct)
  case (2 ov k v es)
  show ?case
  proof (cases "of_nat (length v) \<le> ov")
    case True
    then obtain A k' v' B n where "es = A @ (k', v') # B" "es' = (k', take (Suc n) v') # B"
      using 2 by auto
    then show ?thesis by (metis append_Cons)
  next
    case False
    then have "0 < unat (of_nat (length v) - ov)" by (auto simp: unat_gt_0)
    then obtain n where "unat (of_nat (length v) - ov) = Suc n" by (metis Suc_pred)
    then have "es' = (k, take (Suc n) v) # es" using 2(2) False by (simp add: substr_def)
    then show ?thesis by blast
  qed
qed simp

lemma sr_fixCap_loop_fits:
  "n < sr_size es \<Longrightarrow> sr_size es < 2 ^ 64 \<Longrightarrow>
   \<exists>es'. sr_fixCap_loop (of_nat n) es = Inr es' \<and> sr_size es' = sr_size es - n"
proof (induction es arbitrary: n)
  case (Cons e es)
  obtain k v where e: "e = (k, v)" by (cases e)
  have le: "of_nat (length v) \<le> (of_nat n :: u64) \<longleftrightarrow> length v \<le> n"
    using Cons.prems by (simp add: e word_le_nat_alt unat_of_nat_small)
  show ?case
  proof (cases "length v \<le> n")
    case True
    then have "of_nat n - of_nat (length v) = (of_nat (n - length v) :: u64)" by simp
    then show ?thesis using True le Cons.IH [of "n - length v"] Cons.prems by (auto simp: e add.commute)
  next
    case False
    then have "of_nat (length v) - of_nat n = (of_nat (length v - n) :: u64)" by simp
    then have "unat (of_nat (length v) - of_nat n :: u64) = length v - n"
      using Cons.prems by (simp add: e unat_of_nat_small)
    then show ?thesis using False le by (simp add: e substr_def)
  qed
qed simp

lemma sr_fixCap_loop_UB:
  "sr_size es \<le> n \<Longrightarrow> n < 2 ^ 64 \<Longrightarrow> sr_fixCap_loop (of_nat n) es = Inl UB"
proof (induction es arbitrary: n)
  case (Cons e es)
  obtain k v where e: "e = (k, v)" by (cases e)
  have "of_nat (length v) \<le> (of_nat n :: u64)"
    using Cons.prems by (simp add: e word_le_nat_alt unat_of_nat_small)
  moreover have "of_nat n - of_nat (length v) = (of_nat (n - length v) :: u64)" using Cons.prems by (simp add: e)
  ultimately show ?case using Cons.IH [of "n - length v"] Cons.prems by (simp add: e)
qed simp

lemma sr_fixCap_loop_rev: "sr_fixCap_loop ov (rev m) = Inr es \<Longrightarrow> sr_cut m (rev es)"
proof -
  assume "sr_fixCap_loop ov (rev m) = Inr es"
  then obtain A k v B n where "rev m = A @ (k, v) # B" "es = (k, take (Suc n) v) # B"
    using sr_fixCap_loop_cut by blast
  then have "m = rev B @ (k, v) # rev A" "rev es = rev B @ [(k, take (Suc n) v)]"
    by (auto simp: rev_swap)
  then show ?thesis unfolding sr_cut_def by blast
qed

text \<open>\<open>fixCap\<close> exactly: below capacity nothing happens, at or above it the newest entries are cut.\<close>

lemma sr_fixCap_cases:
  assumes fit: "length (sr_assemBuf r) + sr_size (sr_unassemBuf r) < 2 ^ 64"
  defines "tot \<equiv> length (sr_assemBuf r) + sr_size (sr_unassemBuf r)"
  shows "sr_unassemBuf r = [] \<or> tot < unat (sr_capacity r) \<Longrightarrow> sr_fixCap r = Inr r"
    and "sr_unassemBuf r \<noteq> [] \<Longrightarrow> unat (sr_capacity r) \<le> length (sr_assemBuf r) \<Longrightarrow> sr_fixCap r = Inl UB"
    and "sr_unassemBuf r \<noteq> [] \<Longrightarrow> unat (sr_capacity r) \<le> tot \<Longrightarrow> length (sr_assemBuf r) < unat (sr_capacity r) \<Longrightarrow>
      \<exists>m'. sr_fixCap r = Inr (r\<lparr>sr_unassemBuf := m'\<rparr>) \<and> sr_cut (sr_unassemBuf r) m' \<and>
        length (sr_assemBuf r) + sr_size m' = unat (sr_capacity r)"
proof -
  let ?a = "length (sr_assemBuf r)" and ?u = "sr_size (sr_unassemBuf r)" and ?c = "sr_capacity r"
  have sum: "of_nat ?a + of_nat ?u = (of_nat tot :: u64)" by (simp add: tot_def)
  have tot: "unat (of_nat tot :: u64) = tot" using fit by (intro unat_of_nat_small) (simp add: tot_def)
  have ov: "of_nat tot - ?c = of_nat (tot - unat ?c)" if "unat ?c \<le> tot" using that by simp
  show "sr_unassemBuf r = [] \<or> tot < unat ?c \<Longrightarrow> sr_fixCap r = Inr r"
    by (auto simp: sr_fixCap_def sr_total_eq sum word_less_nat_alt tot)
  have loop: "sr_fixCap r = bindE (sr_fixCap_loop (of_nat (tot - unat ?c)) (rev (sr_unassemBuf r)))
      (\<lambda>es. Inr (r\<lparr>sr_unassemBuf := rev es\<rparr>))" if "sr_unassemBuf r \<noteq> []" "unat ?c \<le> tot"
    using that ov by (simp add: sr_fixCap_def sr_total_eq sum word_less_nat_alt tot)
  show "sr_fixCap r = Inl UB" if "sr_unassemBuf r \<noteq> []" "unat ?c \<le> ?a"
    using that loop sr_fixCap_loop_UB [of "rev (sr_unassemBuf r)" "tot - unat ?c"] fit by (simp add: tot_def)
  show "\<exists>m'. sr_fixCap r = Inr (r\<lparr>sr_unassemBuf := m'\<rparr>) \<and> sr_cut (sr_unassemBuf r) m' \<and> ?a + sr_size m' = unat ?c"
    if ne: "sr_unassemBuf r \<noteq> []" and c: "unat ?c \<le> tot" "?a < unat ?c"
  proof -
    have "tot - unat ?c < sr_size (rev (sr_unassemBuf r))" "sr_size (rev (sr_unassemBuf r)) < 2 ^ 64"
      using c fit unfolding tot_def sr_size_simps by linarith+
    then obtain es where es: "sr_fixCap_loop (of_nat (tot - unat ?c)) (rev (sr_unassemBuf r)) = Inr es"
      "sr_size es = ?u - (tot - unat ?c)"
      using sr_fixCap_loop_fits sr_size_simps(4) by metis
    moreover from es(1) have "sr_cut (sr_unassemBuf r) (rev es)" by (rule sr_fixCap_loop_rev)
    ultimately show ?thesis using loop [OF ne c(1)] c by (intro exI [of _ "rev es"]) (simp add: tot_def)
  qed
qed

lemma sr_fixCap_cut:
  assumes "sr_fixCap r = Inr r'"
  shows "\<exists>m'. r' = r\<lparr>sr_unassemBuf := m'\<rparr> \<and> sr_cut (sr_unassemBuf r) m'"
proof (cases "r' = r")
  case True
  then show ?thesis by (intro exI [of _ "sr_unassemBuf r"]) (simp add: sr_cut_def)
next
  case False
  then obtain ov es where "sr_fixCap_loop ov (rev (sr_unassemBuf r)) = Inr es" "r' = r\<lparr>sr_unassemBuf := rev es\<rparr>"
    using assms by (auto simp: sr_fixCap_def Let_def bindE_Inr_iff split: if_splits)
  then show ?thesis using sr_fixCap_loop_rev by blast
qed

lemma sr_ok_take:
  assumes "sr_ok S (k, v)"
  shows "sr_ok S (k, take n v)"
proof -
  have v: "v = piece S (unat k) (length v)" and le: "unat k + length v \<le> length S"
    using assms by (simp_all add: sr_ok_def sr_end_def)
  have "take n v = piece S (unat k) (min n (length v))" by (subst v) (simp only: take_piece)
  then show ?thesis using le by (simp add: sr_ok_def sr_end_def min.commute)
qed

lemma sr_cut_keeps:
  assumes "sr_cut m m'"
  shows "sm_wf m \<Longrightarrow> sm_wf m'" and "\<forall>e \<in> set m. sr_ok S e \<Longrightarrow> \<forall>e \<in> set m'. sr_ok S e"
    and "sr_sep m \<Longrightarrow> sr_sep m'" and "fst ` set m' \<subseteq> fst ` set m" and "sr_cover m' \<subseteq> sr_cover m"
    and "sr_size m' \<le> sr_size m"
proof -
  consider "m' = m" | B k v R n where "m = B @ (k, v) # R" "m' = B @ [(k, take (Suc n) v)]"
    using assms by (auto simp: sr_cut_def)
  note cs = this
  show "sm_wf m \<Longrightarrow> sm_wf m'" by (cases rule: cs) (auto simp: sm_wf_append)
  show "\<forall>e \<in> set m. sr_ok S e \<Longrightarrow> \<forall>e \<in> set m'. sr_ok S e"
    by (cases rule: cs) (auto intro: sr_ok_take)
  show "sr_sep m \<Longrightarrow> sr_sep m'" by (cases rule: cs) (auto simp: sr_sep_append sr_sep_Cons)
  show "fst ` set m' \<subseteq> fst ` set m" by (cases rule: cs) (auto simp: image_Un)
  show "sr_cover m' \<subseteq> sr_cover m" by (cases rule: cs) (auto simp: sr_end_def)
  show "sr_size m' \<le> sr_size m" by (cases rule: cs) auto
qed

section \<open>Assembly and output\<close>

lemma sr_assem_loop_spec:
  assumes "sr_assem_loop m a i = (m', a', i')" and "length S < 2 ^ 64" and "\<forall>e \<in> set m. sr_ok S e" and "unat i \<le> length S"
  shows "(\<exists>B. m = B @ m') \<and> unat i \<le> unat i' \<and> unat i' \<le> length S \<and>
    a' = a @ piece S (unat i) (unat i' - unat i) \<and> (m' \<noteq> [] \<longrightarrow> fst (hd m') \<noteq> i') \<and>
    {..<unat i'} \<union> sr_cover m' = {..<unat i} \<union> sr_cover m \<and> length a' + sr_size m' = length a + sr_size m \<and>
    (sr_sep m \<and> (\<forall>e \<in> set m. i \<le> fst e) \<longrightarrow> (\<forall>e \<in> set m'. i' < fst e))"
  using assms
proof (induction m a i rule: sr_assem_loop.induct)
  case (2 k v m a i)
  show ?case
  proof (cases "k = i")
    case False
    then have *: "m' = (k, v) # m" "a' = a" "i' = i" using 2(2) by auto
    have "\<forall>e \<in> set m'. i' < fst e" if "sr_sep ((k, v) # m)" "\<forall>e \<in> set ((k, v) # m). i \<le> fst e"
    proof -
      have "unat i < unat k" using that(2) False by (simp flip: word_less_nat_alt add: le_less)
      moreover have "unat k \<le> unat (fst y)" if "y \<in> set m" for y
        using that \<open>sr_sep ((k, v) # m)\<close> unfolding sr_sep_Cons sr_end_def by fastforce
      ultimately show ?thesis using * by (fastforce simp: word_less_nat_alt)
    qed
    then show ?thesis using * False 2 by simp
  next
    case True
    have ok: "sr_ok S (k, v)" using 2 by simp
    then have fin: "unat (i + of_nat (length v)) = unat i + length v" and le: "unat i + length v \<le> length S"
      and v: "v = piece S (unat i) (length v)"
      using 2(3) True unat_sr_end [of "(k, v)"] by (simp_all add: sr_ok_def sr_end_def)
    have loop: "sr_assem_loop m (a @ v) (i + of_nat (length v)) = (m', a', i')"
      and ok': "\<forall>e \<in> set m. sr_ok S e" using 2(2,4) True by simp_all
    note IH = 2(1) [OF True loop 2(3) ok', unfolded fin, OF le]
    then have lei: "unat i + length v \<le> unat i'" by blast
    have pc: "piece S (unat i) (unat i' - unat i) = v @ piece S (unat i + length v) (unat i' - (unat i + length v))"
      using piece_append [of S "unat i" "length v" "unat i' - (unat i + length v)"] lei unfolding v [symmetric] by simp
    have "a' = (a @ v) @ piece S (unat i + length v) (unat i' - (unat i + length v))" using IH by blast
    then have "a' = a @ piece S (unat i) (unat i' - unat i)" unfolding pc by simp
    moreover have "length a' + sr_size m' = length (a @ v) + sr_size m" using IH by blast
    then have "length a' + sr_size m' = length a + sr_size ((k, v) # m)" by simp
    moreover have "\<exists>B. (k, v) # m = B @ m'" using IH by (metis append_Cons)
    moreover have "{..<unat i + length v} \<union> sr_cover m = {..<unat i} \<union> sr_cover ((k, v) # m)"
      by (auto simp: sr_end_def True)
    moreover have "\<forall>e \<in> set m. i + of_nat (length v) \<le> fst e" if "sr_sep ((k, v) # m)"
      using that True by (simp add: sr_sep_Cons sr_end_def word_le_nat_alt fin)
    moreover have "sr_sep ((k, v) # m) \<Longrightarrow> sr_sep m" by (simp add: sr_sep_Cons)
    moreover have "unat i \<le> unat i'" using lei by simp
    ultimately show ?thesis using IH by (intro conjI) (assumption | argo | blast)+
  qed
qed simp

text \<open>The stream so far: what was read, what waits in the output, what waits in \<open>assemBuf\<close>.\<close>

definition sr_stream :: "bytes \<Rightarrow> StreamReassembler \<Rightarrow> bytes" where
  "sr_stream del r = del @ bs_buf (sr_output r) @ sr_assemBuf r"

lemma sr_assem_spec:
  assumes "sr_inv S r" and "sr_stream del r = take (unat (sr_expectIdx r)) S"
  shows "sr_inv S (sr_assem r)" and "sr_stream del (sr_assem r) = take (unat (sr_expectIdx (sr_assem r))) S"
    and "sr_held (sr_assem r) = sr_held r"
    and "length (sr_assemBuf (sr_assem r)) + sr_size (sr_unassemBuf (sr_assem r)) = length (sr_assemBuf r) + sr_size (sr_unassemBuf r)"
    and "sr_neat r \<Longrightarrow> sr_neat (sr_assem r) \<and> unat (sr_expectIdx (sr_assem r)) \<notin> sr_held (sr_assem r)"
    and "sr_output (sr_assem r) = sr_output r \<and> sr_capacity (sr_assem r) = sr_capacity r \<and>
      sr_eofIndex (sr_assem r) = sr_eofIndex r \<and> sr_unassemSize (sr_assem r) = of_nat (sr_size (sr_unassemBuf (sr_assem r)))"
proof -
  obtain m' a' i' where loop: "sr_assem_loop (sr_unassemBuf r) (sr_assemBuf r) (sr_expectIdx r) = (m', a', i')"
    by (metis prod_cases3)
  have r': "sr_assem r = r\<lparr>sr_unassemBuf := m', sr_assemBuf := a', sr_expectIdx := i', sr_unassemSize := of_nat (sr_size m')\<rparr>"
    by (simp add: sr_assem_def loop sr_total_eq)
  have S: "length S < 2 ^ 64" and ok: "\<forall>e \<in> set (sr_unassemBuf r). sr_ok S e" and e: "unat (sr_expectIdx r) \<le> length S"
    using assms(1) by (simp_all add: sr_inv_def)
  note spec = sr_assem_loop_spec [OF loop S ok e]
  obtain B where B: "sr_unassemBuf r = B @ m'" using spec by blast
  have le: "unat (sr_expectIdx r) \<le> unat i'" "unat i' \<le> length S"
    and a': "a' = sr_assemBuf r @ piece S (unat (sr_expectIdx r)) (unat i' - unat (sr_expectIdx r))"
    and cov: "{..<unat i'} \<union> sr_cover m' = {..<unat (sr_expectIdx r)} \<union> sr_cover (sr_unassemBuf r)"
    and size: "length a' + sr_size m' = length (sr_assemBuf r) + sr_size (sr_unassemBuf r)"
    and lt: "sr_sep (sr_unassemBuf r) \<and> (\<forall>e \<in> set (sr_unassemBuf r). sr_expectIdx r \<le> fst e) \<Longrightarrow> \<forall>e \<in> set m'. i' < fst e"
    using spec by (argo | blast)+
  show "sr_inv S (sr_assem r)" using assms(1) le by (simp add: sr_inv_def r' B sm_wf_append)
  have "take (unat i') S = take (unat (sr_expectIdx r)) S @ piece S (unat (sr_expectIdx r)) (unat i' - unat (sr_expectIdx r))"
    using piece_append [of S 0 "unat (sr_expectIdx r)" "unat i' - unat (sr_expectIdx r)"] le by simp
  then show "sr_stream del (sr_assem r) = take (unat (sr_expectIdx (sr_assem r))) S"
    using assms(2) by (simp add: sr_stream_def r' a')
  show "sr_held (sr_assem r) = sr_held r" using cov by (simp add: sr_held_def r')
  show "length (sr_assemBuf (sr_assem r)) + sr_size (sr_unassemBuf (sr_assem r)) = length (sr_assemBuf r) + sr_size (sr_unassemBuf r)"
    using size by (simp add: r')
  show "sr_neat (sr_assem r) \<and> unat (sr_expectIdx (sr_assem r)) \<notin> sr_held (sr_assem r)" if "sr_neat r"
  proof -
    have *: "\<forall>e \<in> set m'. i' < fst e" using that by (intro lt) (simp add: sr_neat_def)
    moreover have "sr_sep m'" using that by (simp add: sr_neat_def B sr_sep_append)
    moreover have "unat i' \<notin> sr_cover m'" using * by (auto simp: sr_cover_def word_less_nat_alt)
    ultimately show ?thesis by (simp add: sr_neat_def sr_held_def r' less_imp_le)
  qed
qed (simp_all add: sr_assem_def sr_total_eq split: prod.splits)

lemma sr_writeStr_spec:
  assumes "length (sr_assemBuf r) < 2 ^ 64" and "bs_inv (sr_output r)"
  shows "\<exists>out a. sr_writeStr r = Inr (r\<lparr>sr_output := out, sr_assemBuf := a\<rparr>) \<and> bs_inv out \<and>
    bs_buf out @ a = bs_buf (sr_output r) @ sr_assemBuf r \<and> bs_cap out = bs_cap (sr_output r) \<and>
    bs_is_end out = bs_is_end (sr_output r) \<and> length a \<le> length (sr_assemBuf r) \<and>
    (a \<noteq> [] \<longrightarrow> bs_is_end out \<or> length (bs_buf out) = unat (bs_cap out))"
proof -
  let ?n = "snd (bs_write (sr_assemBuf r) (sr_output r))" and ?a = "sr_assemBuf r"
  have n: "unat ?n = (if bs_is_end (sr_output r) then 0 else min (bs_room (sr_output r)) (length ?a))"
    by (rule unat_snd_bs_write)
  have len: "unat (of_nat (length ?a) :: u64) = length ?a" using assms(1) by (rule unat_of_nat_small)
  have "unat (of_nat (length ?a) - ?n) = length ?a - unat ?n"
    using n len by (subst unat_sub_nowrap) (simp_all add: word_le_nat_alt)
  then have "substr ?a ?n (of_nat (length ?a) - ?n) = Inr (drop (unat ?n) ?a)"
    using n by (simp add: substr_def)
  then have "sr_writeStr r = Inr (r\<lparr>sr_output := fst (bs_write ?a (sr_output r)), sr_assemBuf := drop (unat ?n) ?a\<rparr>)"
    by (simp add: sr_writeStr_def case_prod_beta)
  moreover have "drop (unat ?n) ?a \<noteq> [] \<longrightarrow> bs_is_end (sr_output r) \<or>
      length (bs_buf (fst (bs_write ?a (sr_output r)))) = unat (bs_cap (sr_output r))"
    using n assms(2) by (auto simp: bs_buf_write bs_room_def bs_inv_def)
  ultimately show ?thesis using assms(2)
    by (intro exI [of _ "fst (bs_write ?a (sr_output r))"] exI [of _ "drop (unat ?n) ?a"])
       (simp add: bs_inv_write bs_buf_write)
qed

section \<open>The invariant of a reassembler in use\<close>

definition sr_good :: "bytes \<Rightarrow> bytes \<Rightarrow> StreamReassembler \<Rightarrow> bool" where
  "sr_good S del r \<longleftrightarrow> sr_inv S r \<and> bs_inv (sr_output r) \<and> sr_stream del r = take (unat (sr_expectIdx r)) S"

text \<open>The end of the stream is only announced at the end of \<open>S\<close>.\<close>

definition sr_ended :: "bytes \<Rightarrow> StreamReassembler \<Rightarrow> bool" where
  "sr_ended S r \<longleftrightarrow> (sr_eofIndex r = -1 \<or> sr_eofIndex r = of_nat (length S)) \<and>
     (bs_is_end (sr_output r) \<longrightarrow> sr_assemBuf r = [] \<and> unat (sr_expectIdx r) = length S)"

definition sr_finish :: "StreamReassembler \<Rightarrow> StreamReassembler res" where
  "sr_finish r = bindE (sr_writeStr (sr_assem r)) (\<lambda>r3.
     Inr (if sr_assemBuf r3 = [] \<and> sr_expectIdx r3 = sr_eofIndex r3
          then r3\<lparr>sr_output := bs_end_input (sr_output r3)\<rparr> else r3))"

lemma sr_finish_spec:
  assumes good: "sr_good S del r"
  shows "\<exists>r'. sr_finish r = Inr r' \<and> sr_good S del r' \<and> sr_held r' = sr_held r \<and> sr_capacity r' = sr_capacity r \<and>
    length (sr_assemBuf r') + sr_size (sr_unassemBuf r') \<le> length (sr_assemBuf r) + sr_size (sr_unassemBuf r) \<and>
    (sr_neat r \<longrightarrow> sr_neat r' \<and> unat (sr_expectIdx r') \<notin> sr_held r') \<and>
    (length S < 2 ^ 64 - 1 \<and> sr_ended S r \<longrightarrow> sr_ended S r') \<and>
    (sr_assemBuf r' \<noteq> [] \<longrightarrow> bs_is_end (sr_output r) \<or> length (bs_buf (sr_output r')) = unat (bs_cap (sr_output r')))"
proof -
  let ?r = "sr_assem r"
  have inv: "sr_inv S r" and bs: "bs_inv (sr_output r)" and st: "sr_stream del r = take (unat (sr_expectIdx r)) S"
    using good by (simp_all add: sr_good_def)
  note a = sr_assem_spec [OF inv st]
  have "length (sr_stream del ?r) \<le> length S" using a(2) by simp
  then have fit: "length (sr_assemBuf ?r) < 2 ^ 64" using inv by (simp add: sr_stream_def sr_inv_def)
  have bs': "bs_inv (sr_output ?r)" using a(6) bs by simp
  obtain out b where w: "sr_writeStr ?r = Inr (?r\<lparr>sr_output := out, sr_assemBuf := b\<rparr>)" "bs_inv out"
    "bs_buf out @ b = bs_buf (sr_output ?r) @ sr_assemBuf ?r" "bs_cap out = bs_cap (sr_output ?r)"
    "bs_is_end out = bs_is_end (sr_output ?r)" "length b \<le> length (sr_assemBuf ?r)"
    "b \<noteq> [] \<longrightarrow> bs_is_end out \<or> length (bs_buf out) = unat (bs_cap out)"
    using sr_writeStr_spec [OF fit bs'] by blast
  define o' where "o' = (if b = [] \<and> sr_expectIdx ?r = sr_eofIndex ?r then bs_end_input out else out)"
  define r' where "r' = ?r\<lparr>sr_output := o', sr_assemBuf := b\<rparr>"
  have o': "bs_buf o' = bs_buf out" "bs_inv o'" "bs_cap o' = bs_cap out" using w(2) by (simp_all add: o'_def)
  have "sr_finish r = Inr r'" by (simp add: sr_finish_def w(1) r'_def o'_def)
  moreover have "sr_good S del r'"
    using a(1,2) w(3) o' by (simp add: sr_good_def sr_inv_def r'_def sr_stream_def)
  moreover have "sr_held r' = sr_held r" using a(3) by (simp add: sr_held_def r'_def)
  moreover have "sr_capacity r' = sr_capacity r" using a(6) by (simp add: r'_def)
  moreover have "length (sr_assemBuf r') + sr_size (sr_unassemBuf r') \<le> length (sr_assemBuf r) + sr_size (sr_unassemBuf r)"
    using a(4) w(6) by (simp add: r'_def)
  moreover have "sr_neat r \<longrightarrow> sr_neat r' \<and> unat (sr_expectIdx r') \<notin> sr_held r'"
    using a(5) by (simp add: sr_neat_def sr_held_def r'_def)
  moreover have "sr_assemBuf r' \<noteq> [] \<longrightarrow> bs_is_end (sr_output r) \<or> length (bs_buf (sr_output r')) = unat (bs_cap (sr_output r'))"
    using w(5,7) o' a(6) by (simp add: r'_def)
  moreover have "sr_ended S r'" if S: "length S < 2 ^ 64 - 1" and ended: "sr_ended S r"
  proof -
    have le: "unat (sr_expectIdx ?r) \<le> length S" using a(1) by (simp add: sr_inv_def)
    have eof: "sr_eofIndex ?r = -1 \<or> sr_eofIndex ?r = of_nat (length S)" using ended a(6) by (simp add: sr_ended_def)
    have "b = [] \<and> unat (sr_expectIdx ?r) = length S" if "bs_is_end o'"
    proof (cases "bs_is_end (sr_output r)")
      case True
      then have "sr_assemBuf r = []" "unat (sr_expectIdx r) = length S" using ended by (simp_all add: sr_ended_def)
      then have "length (del @ bs_buf (sr_output r)) = length S" using st by (simp add: sr_stream_def)
      moreover have "length (sr_stream del ?r) = unat (sr_expectIdx ?r)" using a(2) le by simp
      ultimately have "length b = 0 \<and> unat (sr_expectIdx ?r) = length S"
        using w(6) le unfolding sr_stream_def length_append conjunct1 [OF a(6)] by linarith
      then show ?thesis by simp
    next
      case False
      then have b: "b = []" and e: "sr_expectIdx ?r = sr_eofIndex ?r"
        using that w(5) a(6) by (auto simp: o'_def split: if_splits)
      have "sr_expectIdx ?r \<noteq> -1" using le S by (auto simp: unsigned_minus_1_eq_mask mask_eq_exp_minus_1)
      then have "sr_expectIdx ?r = of_nat (length S)" using eof e by simp
      then show ?thesis using b S by (simp add: unat_of_nat_small)
    qed
    then show ?thesis using eof by (simp add: sr_ended_def r'_def)
  qed
  ultimately show ?thesis by blast
qed

lemma sr_push_substring_finish:
  "sr_push_substring d i eof r =
     bindE (sr_pushUnassem d i (if eof then r\<lparr>sr_eofIndex := i + of_nat (length d)\<rparr> else r))
       (\<lambda>r1. bindE (sr_fixCap r1) sr_finish)"
  by (simp add: sr_push_substring_def sr_finish_def [abs_def])

lemma sr_good_cut:
  assumes "sr_good S del r" and "sr_cut (sr_unassemBuf r) m"
  shows "sr_good S del (r\<lparr>sr_unassemBuf := m\<rparr>)" and "sr_neat r \<Longrightarrow> sr_neat (r\<lparr>sr_unassemBuf := m\<rparr>)"
    and "sr_ended S r \<Longrightarrow> sr_ended S (r\<lparr>sr_unassemBuf := m\<rparr>)"
    and "sr_held (r\<lparr>sr_unassemBuf := m\<rparr>) \<subseteq> sr_held r"
proof -
  note c = sr_cut_keeps [OF assms(2)]
  show "sr_good S del (r\<lparr>sr_unassemBuf := m\<rparr>)"
    using assms(1) c(1,2) by (auto simp: sr_good_def sr_inv_def sr_stream_def)
  show "sr_neat (r\<lparr>sr_unassemBuf := m\<rparr>)" if "sr_neat r"
    using that c(3,4) by (fastforce simp: sr_neat_def)
  show "sr_held (r\<lparr>sr_unassemBuf := m\<rparr>) \<subseteq> sr_held r" using c(5) by (auto simp: sr_held_def)
qed (simp add: sr_ended_def)

text \<open>The state that \<open>pushUnassem\<close> leaves for \<open>fixCap\<close>.\<close>

lemma sr_push_first:
  assumes good: "sr_good S del r" and len: "i + length d \<le> length S" and d: "d = piece S i (length d)"
  obtains r1 where "sr_push_substring d (of_nat i) eof r = bindE (sr_fixCap r1) sr_finish"
    and "sr_good S del r1" and "sr_held r1 = sr_held r \<union> {i ..< i + length d}"
    and "sr_neat r \<Longrightarrow> d \<noteq> [] \<Longrightarrow> sr_neat r1"
    and "sr_ended S r \<Longrightarrow> (eof \<Longrightarrow> i + length d = length S) \<Longrightarrow> sr_ended S r1"
    and "sr_assemBuf r1 = sr_assemBuf r \<and> sr_expectIdx r1 = sr_expectIdx r \<and> sr_capacity r1 = sr_capacity r \<and>
      sr_output r1 = sr_output r"
proof -
  let ?r0 = "if eof then r\<lparr>sr_eofIndex := of_nat i + of_nat (length d)\<rparr> else r"
  have inv: "sr_inv S ?r0" using good by (simp add: sr_good_def sr_inv_def)
  obtain m where m: "sr_pushUnassem d (of_nat i) ?r0 = Inr (?r0\<lparr>sr_unassemBuf := m\<rparr>)"
    "sr_inv S (?r0\<lparr>sr_unassemBuf := m\<rparr>)"
    "sr_held (?r0\<lparr>sr_unassemBuf := m\<rparr>) = sr_held ?r0 \<union> {i ..< i + length d}"
    "sr_neat ?r0 \<longrightarrow> d \<noteq> [] \<longrightarrow> sr_neat (?r0\<lparr>sr_unassemBuf := m\<rparr>)"
    using sr_pushUnassem_spec [OF inv len d] by blast
  show ?thesis
  proof (rule that [of "?r0\<lparr>sr_unassemBuf := m\<rparr>"])
    show "sr_push_substring d (of_nat i) eof r = bindE (sr_fixCap (?r0\<lparr>sr_unassemBuf := m\<rparr>)) sr_finish"
      unfolding sr_push_substring_finish m(1) by simp
    show "sr_good S del (?r0\<lparr>sr_unassemBuf := m\<rparr>)"
      using m(2) good by (simp add: sr_good_def sr_stream_def)
    show "sr_held (?r0\<lparr>sr_unassemBuf := m\<rparr>) = sr_held r \<union> {i ..< i + length d}"
      using m(3) by (simp add: sr_held_def)
    show "sr_neat (?r0\<lparr>sr_unassemBuf := m\<rparr>)" if "sr_neat r" "d \<noteq> []"
      using m(4) that by (simp add: sr_neat_def)
    show "sr_ended S (?r0\<lparr>sr_unassemBuf := m\<rparr>)" if "sr_ended S r" "eof \<Longrightarrow> i + length d = length S"
      using that by (auto simp: sr_ended_def simp flip: of_nat_add)
  qed simp
qed

lemma sr_push_inv:
  assumes good: "sr_good S del r" and len: "i + length d \<le> length S" and d: "d = piece S i (length d)"
    and push: "sr_push_substring d (of_nat i) eof r = Inr r'"
  shows "sr_good S del r'"
    and "length S < 2 ^ 64 - 1 \<Longrightarrow> sr_ended S r \<Longrightarrow> (eof \<Longrightarrow> i + length d = length S) \<Longrightarrow> sr_ended S r'"
    and "sr_neat r \<Longrightarrow> d \<noteq> [] \<Longrightarrow> sr_neat r' \<and> unat (sr_expectIdx r') \<notin> sr_held r'"
    and "sr_held r' \<subseteq> sr_held r \<union> {i ..< i + length d}" and "sr_capacity r' = sr_capacity r"
    and "sr_assemBuf r' \<noteq> [] \<Longrightarrow> bs_is_end (sr_output r) \<or> length (bs_buf (sr_output r')) = unat (bs_cap (sr_output r'))"
proof -
  obtain r1 where r1: "sr_push_substring d (of_nat i) eof r = bindE (sr_fixCap r1) sr_finish"
    "sr_good S del r1" "sr_held r1 = sr_held r \<union> {i ..< i + length d}"
    "sr_neat r \<Longrightarrow> d \<noteq> [] \<Longrightarrow> sr_neat r1"
    "sr_ended S r \<Longrightarrow> (eof \<Longrightarrow> i + length d = length S) \<Longrightarrow> sr_ended S r1"
    "sr_assemBuf r1 = sr_assemBuf r \<and> sr_expectIdx r1 = sr_expectIdx r \<and> sr_capacity r1 = sr_capacity r \<and>
      sr_output r1 = sr_output r"
    using sr_push_first [OF good len d] by metis
  obtain r2 where r2: "sr_fixCap r1 = Inr r2" "sr_finish r2 = Inr r'"
    using push r1(1) by (auto simp: bindE_Inr_iff)
  obtain m where m: "r2 = r1\<lparr>sr_unassemBuf := m\<rparr>" "sr_cut (sr_unassemBuf r1) m"
    using sr_fixCap_cut [OF r2(1)] by blast
  note c = sr_good_cut [OF r1(2) m(2), folded m(1)]
  note f = sr_finish_spec [OF c(1), unfolded r2(2)]
  show "sr_good S del r'" using f by auto
  show "sr_held r' \<subseteq> sr_held r \<union> {i ..< i + length d}" using f c(4) r1(3) by auto
  show "sr_neat r' \<and> unat (sr_expectIdx r') \<notin> sr_held r'" if "sr_neat r" "d \<noteq> []" using f c(2) r1(4) that by auto
  show "sr_capacity r' = sr_capacity r" using f r1(6) m(1) by auto
  show "bs_is_end (sr_output r) \<or> length (bs_buf (sr_output r')) = unat (bs_cap (sr_output r'))" if "sr_assemBuf r' \<noteq> []"
    using f r1(6) m(1) that by auto
  show "sr_ended S r'" if "length S < 2 ^ 64 - 1" "sr_ended S r" "eof \<Longrightarrow> i + length d = length S"
    using f c(3) r1(5) that by auto
qed

section \<open>Reachable states\<close>

lemma sr_good_new: "length S < 2 ^ 64 \<Longrightarrow> sr_good S [] (sr_new c)"
  by (simp add: sr_good_def sr_inv_def sr_stream_def sr_new_def) (simp add: bs_new_def)

lemma sr_good_read:
  "sr_good S del r \<Longrightarrow> bs_read n (sr_output r) = (out, d) \<Longrightarrow> sr_good S (del @ d) (r\<lparr>sr_output := out\<rparr>)"
  using bs_read_simps [of n "sr_output r"] bs_inv_read [of "sr_output r" n]
  by (simp add: sr_good_def sr_inv_def sr_stream_def) (metis append.assoc append_take_drop_id)

definition sr_run_inv :: "bool \<Rightarrow> bytes \<Rightarrow> StreamReassembler \<times> bytes \<Rightarrow> bool" where
  "sr_run_inv strict S s \<longleftrightarrow> (length S < 2 ^ 64 - 1 \<longrightarrow> sr_good S (snd s) (fst s) \<and> (strict \<longrightarrow> sr_ended S (fst s)))"

lemma sr_run_inv_step: "sr_run_inv strict S s \<Longrightarrow> sr_step strict S s t \<Longrightarrow> sr_run_inv strict S t"
proof (erule sr_stepE)
  fix i d eof r r' del
  assume "sr_run_inv strict S s" "s = (r, del)" "t = (r', del)" "i + length d \<le> length S" "d = piece S i (length d)"
    "strict \<and> eof \<Longrightarrow> i + length d = length S" "sr_push_substring d (word_of_nat i) eof r = Inr r'"
  then show "sr_run_inv strict S t" using sr_push_inv(1,2) unfolding sr_run_inv_def by (metis fst_conv snd_conv)
next
  fix n r out d del
  assume "sr_run_inv strict S s" "s = (r, del)" "t = (r\<lparr>sr_output := out\<rparr>, del @ d)" "bs_read n (sr_output r) = (out, d)"
  then show "sr_run_inv strict S t"
    using bs_read_simps(3) [of n "sr_output r"] by (auto simp: sr_run_inv_def sr_good_read sr_ended_def)
qed

interpretation sr: invariant_system "\<lambda>s. s = (sr_new c, [])" "sr_step strict S" "sr_run_inv strict S" for c strict S
proof unfold_locales
  show "s = (sr_new c, []) \<Longrightarrow> sr_run_inv strict S s" for s
    by (simp add: sr_run_inv_def sr_good_new sr_ended_def) (simp add: sr_new_def bs_new_def)
qed (rule sr_run_inv_step)

section \<open>Room\<close>

lemma finite_sr_cover [simp]: "finite (sr_cover m)"
  by (simp add: sr_cover_def)

lemma sr_sep_card: "sr_sep m \<Longrightarrow> sr_size m = card (sr_cover m)"
proof (induction m)
  case (Cons e m)
  have "{unat (fst e) ..< sr_end e} \<inter> sr_cover m = {}"
    using Cons.prems by (fastforce simp: sr_sep_Cons sr_cover_def)
  then have "card (sr_cover (e # m)) = card {unat (fst e) ..< sr_end e} + card (sr_cover m)"
    by (simp add: card_Un_disjoint)
  then show ?case using Cons by (simp add: sr_sep_Cons sr_end_def)
qed simp

lemma sr_neat_cover: "sr_neat r \<Longrightarrow> sr_cover (sr_unassemBuf r) = sr_held r - {..<unat (sr_expectIdx r)}"
  by (fastforce simp: sr_neat_def sr_held_def sr_cover_def word_le_nat_alt)

text \<open>The bytes of \<open>S\<close> that wait for a gap to be filled.\<close>

definition sr_waiting :: "StreamReassembler \<Rightarrow> nat set \<Rightarrow> nat" where
  "sr_waiting r I = card (sr_held r \<union> I - {..<unat (sr_expectIdx r)})"

lemma sr_size_waiting: "sr_neat r \<Longrightarrow> sr_size (sr_unassemBuf r) = sr_waiting r {}"
  using sr_neat_cover by (simp add: sr_waiting_def sr_neat_def sr_sep_card)

lemma sr_cover_bound: "\<forall>e \<in> set m. sr_ok S e \<Longrightarrow> sr_cover m \<subseteq> {..<length S}"
  by (auto simp: sr_cover_def sr_ok_def intro: less_le_trans)

lemma sr_good_fits:
  assumes good: "sr_good S del r" and neat: "sr_neat r"
  shows "length (sr_assemBuf r) + sr_size (sr_unassemBuf r) < 2 ^ 64"
proof -
  let ?e = "unat (sr_expectIdx r)"
  have inv: "length S < 2 ^ 64" "\<forall>e \<in> set (sr_unassemBuf r). sr_ok S e" "?e \<le> length S"
    and "length (sr_stream del r) \<le> ?e"
    using good by (simp_all add: sr_good_def sr_inv_def)
  then have "length (sr_assemBuf r) \<le> ?e" by (simp add: sr_stream_def)
  moreover have "sr_cover (sr_unassemBuf r) \<subseteq> {?e ..< length S}"
    using sr_cover_bound [OF inv(2)] sr_neat_cover [OF neat] by auto
  then have "sr_size (sr_unassemBuf r) \<le> length S - ?e"
    using neat card_mono [of "{?e ..< length S}"] by (simp add: sr_neat_def sr_sep_card)
  ultimately show ?thesis using inv by linarith
qed

lemma sr_cut_same: "sr_cut m m' \<Longrightarrow> sr_sep m \<Longrightarrow> sr_size m \<le> sr_size m' \<Longrightarrow> m' = m"
proof (unfold sr_cut_def, elim disjE exE conjE)
  fix B k v R n
  assume sep: "sr_sep m" and le: "sr_size m \<le> sr_size m'" and m: "m = B @ (k, v) # R" "m' = B @ [(k, take (Suc n) v)]"
  have "length v + sr_size R \<le> min (length v) (Suc n)" using le by (simp add: m)
  then have "sr_size R = 0" "length v \<le> Suc n" by linarith+
  moreover from this have "R = []" using sep by (cases R) (auto simp: m sr_sep_append sr_sep_Cons)
  ultimately show "m' = m" by (simp add: m)
qed simp

text \<open>A push on a tidy state, by what it would make the state hold.\<close>

lemma sr_push_cases:
  assumes good: "sr_good S del r" and neat: "sr_neat r" and len: "i + length d \<le> length S"
    and d: "d = piece S i (length d)" and ne: "d \<noteq> []"
  defines "w \<equiv> sr_waiting r {i ..< i + length d}" and "a \<equiv> length (sr_assemBuf r)" and "c \<equiv> unat (sr_capacity r)"
  shows "w \<noteq> 0 \<Longrightarrow> c \<le> a \<Longrightarrow> sr_push_substring d (of_nat i) eof r = Inl UB"
    and "w = 0 \<or> a < c \<Longrightarrow> \<exists>r'. sr_push_substring d (of_nat i) eof r = Inr r'"
    and "w = 0 \<or> a + w \<le> c \<Longrightarrow> sr_push_substring d (of_nat i) eof r = Inr r' \<Longrightarrow> sr_held r' = sr_held r \<union> {i ..< i + length d}"
    and "a \<le> c \<Longrightarrow> sr_push_substring d (of_nat i) eof r = Inr r' \<Longrightarrow> length (sr_assemBuf r') + sr_size (sr_unassemBuf r') \<le> c"
proof -
  obtain r1 where r1: "sr_push_substring d (of_nat i) eof r = bindE (sr_fixCap r1) sr_finish"
    "sr_good S del r1" "sr_held r1 = sr_held r \<union> {i ..< i + length d}" "sr_neat r1"
    "sr_assemBuf r1 = sr_assemBuf r" "sr_expectIdx r1 = sr_expectIdx r" "sr_capacity r1 = sr_capacity r"
    using sr_push_first [OF good len d, of eof] neat ne by metis
  have w: "sr_size (sr_unassemBuf r1) = w"
    using sr_size_waiting [OF r1(4)] r1(3,6) by (simp add: sr_waiting_def w_def)
  have w0: "sr_unassemBuf r1 = [] \<longleftrightarrow> w = 0"
    using w r1(4) by (cases "sr_unassemBuf r1") (auto simp: sr_neat_def sr_sep_Cons)
  note fc = sr_fixCap_cases [OF sr_good_fits [OF r1(2,4)], unfolded w w0 r1(5,7), folded a_def c_def]
  have finish: "\<exists>r'. sr_finish r2 = Inr r' \<and> sr_held r' = sr_held r2 \<and>
      length (sr_assemBuf r') + sr_size (sr_unassemBuf r') \<le> length (sr_assemBuf r2) + sr_size (sr_unassemBuf r2)"
    if "sr_good S del r2" for r2 using sr_finish_spec [OF that] by blast
  have cut: "sr_good S del (r1\<lparr>sr_unassemBuf := m\<rparr>)" if "sr_cut (sr_unassemBuf r1) m" for m
    by (rule sr_good_cut(1) [OF r1(2) that])
  show "sr_push_substring d (of_nat i) eof r = Inl UB" if "w \<noteq> 0" "c \<le> a" using fc(2) that r1(1) by simp
  have ok: "\<exists>m. sr_fixCap r1 = Inr (r1\<lparr>sr_unassemBuf := m\<rparr>) \<and> sr_cut (sr_unassemBuf r1) m \<and>
      sr_size m = (if w = 0 \<or> a + w \<le> c then w else c - a)" if alive: "w = 0 \<or> a < c"
  proof (cases "w = 0 \<or> a + w < c")
    case True
    then show ?thesis using fc(1) w by (intro exI [of _ "sr_unassemBuf r1"]) (auto simp: sr_cut_def)
  next
    case False
    then obtain m where "sr_fixCap r1 = Inr (r1\<lparr>sr_unassemBuf := m\<rparr>)" "sr_cut (sr_unassemBuf r1) m" "a + sr_size m = c"
      using alive fc(3) by auto
    then show ?thesis using False by (intro exI [of _ m]) auto
  qed
  have dn: "\<exists>m r'. sr_push_substring d (of_nat i) eof r = Inr r' \<and> sr_cut (sr_unassemBuf r1) m \<and>
      sr_size m = (if w = 0 \<or> a + w \<le> c then w else c - a) \<and> sr_held r' = sr_held (r1\<lparr>sr_unassemBuf := m\<rparr>) \<and>
      length (sr_assemBuf r') + sr_size (sr_unassemBuf r') \<le> a + sr_size m" if alive: "w = 0 \<or> a < c"
  proof -
    obtain m where m: "sr_fixCap r1 = Inr (r1\<lparr>sr_unassemBuf := m\<rparr>)" "sr_cut (sr_unassemBuf r1) m"
      "sr_size m = (if w = 0 \<or> a + w \<le> c then w else c - a)" using ok [OF alive] by blast
    obtain r' where "sr_finish (r1\<lparr>sr_unassemBuf := m\<rparr>) = Inr r'" "sr_held r' = sr_held (r1\<lparr>sr_unassemBuf := m\<rparr>)"
      "length (sr_assemBuf r') + sr_size (sr_unassemBuf r') \<le> a + sr_size m"
      using finish [OF cut [OF m(2)]] r1(5) by (auto simp: a_def)
    then show ?thesis using m r1(1) by (intro exI [of _ m] exI [of _ r']) simp
  qed
  then show "\<exists>r'. sr_push_substring d (of_nat i) eof r = Inr r'" if "w = 0 \<or> a < c" using that by blast
  have live: "w = 0 \<or> a < c" if "sr_push_substring d (of_nat i) eof r = Inr r'"
    using fc(2) that r1(1) by fastforce
  show "sr_held r' = sr_held r \<union> {i ..< i + length d}"
    if fits: "w = 0 \<or> a + w \<le> c" and push: "sr_push_substring d (of_nat i) eof r = Inr r'"
  proof -
    obtain m where m: "sr_cut (sr_unassemBuf r1) m" "sr_size m = w" "sr_held r' = sr_held (r1\<lparr>sr_unassemBuf := m\<rparr>)"
      using dn [OF live [OF push]] fits push by auto
    then have "m = sr_unassemBuf r1" using sr_cut_same r1(4) w by (metis order_refl sr_neat_def)
    then show ?thesis using m(3) r1(3) by (simp add: sr_held_def)
  qed
  show "length (sr_assemBuf r') + sr_size (sr_unassemBuf r') \<le> c"
    if "a \<le> c" and push: "sr_push_substring d (of_nat i) eof r = Inr r'"
    using dn [OF live [OF push]] that by (auto split: if_splits)
qed

section \<open>Stale entries\<close>

text \<open>The first entry of the map is empty and lies before \<open>expectIdx\<close>: the assembly loop stops at it.\<close>

definition sr_stale :: "StreamReassembler \<Rightarrow> bool" where
  "sr_stale r \<longleftrightarrow> (case sr_unassemBuf r of [] \<Rightarrow> False | (k, v) # m \<Rightarrow> k < sr_expectIdx r \<and> v = [])"

lemma sr_valid_part_ge: "sr_valid_part d i e = Inr (Some (vi, vs)) \<Longrightarrow> e \<le> vi"
  by (auto simp: sr_valid_part_def Let_def bindE_Inr_iff split: if_splits)

lemma sr_merge_stale:
  assumes "k < vi" and "sr_merge vi vs rb ((k, []) # m) = Inr m'"
  shows "\<exists>m''. m' = (k, []) # m''"
  using assms by (auto simp: sr_merge_def Let_def bindE_Inr_iff split: prod.splits if_splits)

lemma sr_fixCap_loop_stale:
  "sr_fixCap_loop ov (es @ [(k, [])]) = Inr es' \<Longrightarrow> \<exists>es''. es' = es'' @ [(k, [])]"
proof (induction es arbitrary: ov)
  case (Cons e es)
  then show ?case by (cases e) (auto simp: bindE_Inr_iff split: if_splits)
qed simp

lemma sr_pushUnassem_stale:
  assumes "sr_stale r" and "sr_pushUnassem d i r = Inr r'"
  shows "sr_stale r' \<and> sr_expectIdx r' = sr_expectIdx r"
proof -
  obtain k m where m: "sr_unassemBuf r = (k, []) # m" "k < sr_expectIdx r"
    using assms(1) by (auto simp: sr_stale_def split: list.splits)
  have "sr_stale (r\<lparr>sr_unassemBuf := m'\<rparr>)"
    if "sr_valid_part d i (sr_expectIdx r) = Inr (Some (vi, vs))" "sr_insert vi vs (sr_unassemBuf r) = Some m1"
      and mrg: "sr_merge vi vs rb m1 = Inr m'" for vi vs m1 m' rb
  proof -
    have vi: "k < vi" using m(2) sr_valid_part_ge [OF that(1)] by simp
    then have "m1 = (k, []) # sm_set vi vs m"
      using that(2) by (auto simp: sr_insert_def m(1) split: option.splits if_splits)
    then obtain m'' where "m' = (k, []) # m''" using sr_merge_stale [OF vi] mrg by blast
    then show ?thesis using m(2) by (simp add: sr_stale_def)
  qed
  note step = this
  obtain valid where valid: "sr_valid_part d i (sr_expectIdx r) = Inr valid"
    using assms(2) by (auto simp: sr_pushUnassem_def bindE_Inr_iff)
  show ?thesis
  proof (cases valid)
    case (Some p)
    then show ?thesis using assms valid step
      by (cases p, cases "sr_insert (fst p) (snd p) (sr_unassemBuf r)")
         (auto simp: sr_pushUnassem_def bindE_Inr_iff)
  qed (use assms valid in \<open>simp add: sr_pushUnassem_def\<close>)
qed

lemma sr_fixCap_stale:
  assumes "sr_stale r" and "sr_fixCap r = Inr r'"
  shows "sr_stale r' \<and> sr_expectIdx r' = sr_expectIdx r"
proof -
  obtain k m where m: "sr_unassemBuf r = (k, []) # m" "k < sr_expectIdx r"
    using assms(1) by (auto simp: sr_stale_def split: list.splits)
  have "sr_stale (r\<lparr>sr_unassemBuf := rev es\<rparr>)" if "sr_fixCap_loop ov (rev (sr_unassemBuf r)) = Inr es" for ov es
    using sr_fixCap_loop_stale [of ov "rev m" k es] that m by (auto simp: sr_stale_def)
  then show ?thesis using assms by (auto simp: sr_fixCap_def Let_def bindE_Inr_iff split: if_splits)
qed

lemma sr_finish_stale:
  assumes "sr_stale r" and "sr_finish r = Inr r'"
  shows "sr_stale r' \<and> sr_expectIdx r' = sr_expectIdx r"
proof -
  obtain k m where m: "sr_unassemBuf r = (k, []) # m" "k < sr_expectIdx r"
    using assms(1) by (auto simp: sr_stale_def split: list.splits)
  then have "sr_assem r = r\<lparr>sr_unassemSize := sr_total (sr_unassemBuf r)\<rparr>" by (simp add: sr_assem_def)
  then show ?thesis using assms(2) m
    by (auto simp: sr_finish_def sr_writeStr_def bindE_Inr_iff sr_stale_def split: prod.splits)
qed

section \<open>Properties\<close>

text \<open>
  C4. Safety of reassembly. Whatever pieces of a stream \<open>S\<close> are pushed, in any order, overlapping
  or repeated, with reads in between, the bytes read so far followed by those in the output and
  in \<open>assemBuf\<close> are exactly the first \<open>expectIdx\<close> bytes of \<open>S\<close>. When \<open>eof\<close> is only set on
  pieces that end where \<open>S\<close> ends, the output stream is ended only when it has all of \<open>S\<close>.
\<close>

theorem reassembler_prefix:
  assumes "length S < 2 ^ 64 - 1" and "reach (\<lambda>s. s = (sr_new c, [])) (sr_step strict S) (r, del)"
  shows "del @ bs_buf (sr_output r) @ sr_assemBuf r = take (unat (sr_expectIdx r)) S \<and>
    (strict \<longrightarrow> bs_is_end (sr_output r) \<longrightarrow> del @ bs_buf (sr_output r) = S)"
proof -
  have "sr_run_inv strict S (r, del)" by (rule sr.inv_reach [OF assms(2)])
  then show ?thesis using assms(1) by (auto simp: sr_run_inv_def sr_good_def sr_stream_def sr_ended_def)
qed

definition sr_demo1 :: StreamReassembler where
  "sr_demo1 = projr (sr_push_substring [3, 4] (of_nat 2) True (sr_new 8))"

definition sr_demo :: StreamReassembler where
  "sr_demo = projr (sr_push_substring [1, 2] (of_nat 0) False sr_demo1)"

lemma sr_demo_push:
  "sr_push_substring [3, 4] (of_nat 2) True (sr_new 8) = Inr sr_demo1"
  "sr_push_substring [1, 2] (of_nat 0) False sr_demo1 = Inr sr_demo"
  by code_simp+

lemma sr_demo_reach: "reach (\<lambda>s. s = (sr_new 8, [])) (sr_step True [1, 2, 3, 4]) (sr_demo, [])"
proof -
  have "sr_step True [1, 2, 3, 4] (sr_new 8, []) (sr_demo1, [])"
    by (rule sr_step.push [OF _ _ _ sr_demo_push(1)]) (simp_all add: piece_def)
  moreover have "sr_step True [1, 2, 3, 4] (sr_demo1, []) (sr_demo, [])"
    by (rule sr_step.push [OF _ _ _ sr_demo_push(2)]) (simp_all add: piece_def)
  ultimately show ?thesis by (auto intro: reach_step [OF reach_step [OF reach_init]])
qed

theorem reassembler_prefix_witness:
  "bs_buf (sr_output sr_demo) = [1, 2, 3, 4] \<and> bs_is_end (sr_output sr_demo)"
proof -
  have "bs_is_end (sr_output sr_demo)" by code_simp
  then show ?thesis using reassembler_prefix [OF _ sr_demo_reach] by simp
qed

text \<open>
  C5. A push within capacity. On a state without stale entries, with room for everything held, a
  non-empty piece of \<open>S\<close> adds exactly its indices to those held, and afterwards \<open>expectIdx\<close> is the
  first index not held: nothing contiguous is left waiting.
\<close>

theorem reassembler_push_held:
  assumes "sr_good S del r" and "sr_neat r" and "i + length d \<le> length S" and "d = piece S i (length d)" and "d \<noteq> []"
    and "length (sr_assemBuf r) + sr_waiting r {i ..< i + length d} \<le> unat (sr_capacity r)"
  shows "\<exists>r'. sr_push_substring d (of_nat i) eof r = Inr r' \<and> sr_good S del r' \<and> sr_neat r' \<and>
    sr_held r' = sr_held r \<union> {i ..< i + length d} \<and> unat (sr_expectIdx r') = (LEAST n. n \<notin> sr_held r')"
proof -
  note c = sr_push_cases [OF assms(1-5), of eof]
  obtain r' where push: "sr_push_substring d (of_nat i) eof r = Inr r'"
    using c(2) assms(6) by fastforce
  have held: "sr_held r' = sr_held r \<union> {i ..< i + length d}" using c(3) push assms(6) by blast
  have good: "sr_good S del r'" and neat: "sr_neat r'" "unat (sr_expectIdx r') \<notin> sr_held r'"
    using sr_push_inv [OF assms(1,3,4) push] assms(2,5) by blast+
  have "unat (sr_expectIdx r') = (LEAST n. n \<notin> sr_held r')"
  proof (rule Least_equality [symmetric])
    show "n \<notin> sr_held r' \<Longrightarrow> unat (sr_expectIdx r') \<le> n" for n by (auto simp: sr_held_def not_less)
  qed (rule neat(2))
  then show ?thesis using push held good neat(1) by blast
qed

lemma sr_demo1_good: "sr_good [1, 2, 3, 4] [] sr_demo1" "sr_neat sr_demo1" "sr_assemBuf sr_demo1 = []"
  "sr_capacity sr_demo1 = 8" "sr_expectIdx sr_demo1 = 0" "sr_held sr_demo1 \<subseteq> {2 ..< 4}"
proof -
  have good: "sr_good [1, 2, 3, 4] [] (sr_new 8)" by (simp add: sr_good_new)
  note inv = sr_push_inv [OF good _ _ sr_demo_push(1)]
  have neat: "sr_neat (sr_new 8)" by (simp add: sr_neat_def sr_new_def)
  show "sr_good [1, 2, 3, 4] [] sr_demo1" by (rule inv(1)) (simp_all add: piece_def)
  show "sr_neat sr_demo1" using inv(3) neat by (simp add: piece_def)
  show "sr_held sr_demo1 \<subseteq> {2 ..< 4}" using inv(4) by (simp add: piece_def sr_held_def sr_new_def)
qed code_simp+

theorem reassembler_push_held_witness:
  "\<exists>r'. sr_push_substring [1, 2] 0 False sr_demo1 = Inr r' \<and> unat (sr_expectIdx r') = (LEAST n. n \<notin> sr_held r')"
proof -
  have "sr_waiting sr_demo1 {0 ..< 0 + length [1, 2 :: u8]} \<le> card ({2 ..< 4} \<union> {0 ..< 2} :: nat set)"
    unfolding sr_waiting_def by (rule card_mono) (use sr_demo1_good(6) in auto)
  also have "\<dots> \<le> 8" by (simp add: card_Un_disjoint)
  finally have "length (sr_assemBuf sr_demo1) + sr_waiting sr_demo1 {0 ..< 0 + length [1, 2 :: u8]} \<le> unat (sr_capacity sr_demo1)"
    by (simp add: sr_demo1_good)
  from reassembler_push_held [OF sr_demo1_good(1,2) _ _ _ this, of False] show ?thesis
    by (auto simp: piece_def)
qed

text \<open>
  C6. When a push is undefined. On a state without stale entries, pushing a non-empty piece of \<open>S\<close>
  has a defined result unless \<open>assemBuf\<close> alone already fills the capacity while some byte beyond
  \<open>expectIdx\<close> is held; then \<open>fixCap\<close> walks its iterator before the first entry of the map.
\<close>

theorem reassembler_push_ub_iff:
  assumes "sr_good S del r" and "sr_neat r" and "i + length d \<le> length S" and "d = piece S i (length d)" and "d \<noteq> []"
  shows "sr_push_substring d (of_nat i) eof r = Inl e \<longleftrightarrow>
    e = UB \<and> unat (sr_capacity r) \<le> length (sr_assemBuf r) \<and> sr_waiting r {i ..< i + length d} \<noteq> 0"
  using sr_push_cases(1,2) [OF assms, of eof] by (metis Inl_inject not_le sum.distinct(1))

definition sr_full :: StreamReassembler where
  "sr_full = projr (bindE (sr_push_substring [1, 2] (of_nat 0) False (sr_new 2)) (sr_push_substring [3, 4] (of_nat 2) False))"

lemma sr_full_good: "sr_good [1, 2, 3, 4, 5] [] sr_full" "sr_neat sr_full"
proof -
  obtain r where r: "sr_push_substring [1, 2] (of_nat 0) False (sr_new 2) = Inr r"
    and r': "sr_push_substring [3, 4] (of_nat 2) False r = Inr sr_full"
  proof (rule that)
    show "sr_push_substring [1, 2] (of_nat 0) False (sr_new 2) = Inr (projr (sr_push_substring [1, 2] (of_nat 0) False (sr_new 2)))"
      "sr_push_substring [3, 4] (of_nat 2) False (projr (sr_push_substring [1, 2] (of_nat 0) False (sr_new 2))) = Inr sr_full"
      by code_simp+
  qed
  have good: "sr_good [1, 2, 3, 4, 5] [] (sr_new 2)" by (simp add: sr_good_new)
  have neat: "sr_neat (sr_new 2)" by (simp add: sr_neat_def sr_new_def)
  have good1: "sr_good [1, 2, 3, 4, 5] [] r" by (rule sr_push_inv(1) [OF good _ _ r]) (simp_all add: piece_def)
  moreover have "sr_neat r" using sr_push_inv(3) [OF good _ _ r] neat by (simp add: piece_def)
  ultimately show "sr_good [1, 2, 3, 4, 5] [] sr_full" "sr_neat sr_full"
    using sr_push_inv(1,3) [OF good1 _ _ r'] by (simp_all add: piece_def)
qed

theorem reassembler_push_ub_witness:
  "sr_push_substring [5] 4 False sr_full = Inl UB"
proof -
  have s: "sr_assemBuf sr_full = [3, 4]" "sr_capacity sr_full = 2" "sr_expectIdx sr_full = 4" by code_simp+
  have "sr_waiting sr_full {4 ..< 4 + length [5 :: u8]} = card (insert 4 (sr_held sr_full - {..<4}))"
    unfolding sr_waiting_def by (rule arg_cong [of _ _ card]) (auto simp: s)
  also have "\<dots> \<noteq> 0" by (simp add: sr_held_def card_gt_0_iff)
  finally show ?thesis
    using reassembler_push_ub_iff [OF sr_full_good, of 4 "[5]" False UB] by (simp add: s piece_def)
qed

text \<open>
  C7. Memory. If \<open>assemBuf\<close> is within capacity, a push of a non-empty piece of \<open>S\<close> on a state without
  stale entries leaves at most \<open>capacity\<close> bytes in \<open>assemBuf\<close> and the map together (so the premise
  holds again), and at most \<open>capacity\<close> bytes in the output stream besides.
\<close>

theorem reassembler_memory_bound:
  assumes "sr_good S del r" and "sr_neat r" and "i + length d \<le> length S" and "d = piece S i (length d)" and "d \<noteq> []"
    and "length (sr_assemBuf r) \<le> unat (sr_capacity r)"
    and "sr_push_substring d (of_nat i) eof r = Inr r'"
  shows "length (sr_assemBuf r') + sr_size (sr_unassemBuf r') \<le> unat (sr_capacity r') \<and>
    length (bs_buf (sr_output r')) \<le> unat (bs_cap (sr_output r'))"
  using sr_push_cases(4) [OF assms(1-5) _ assms(7)] sr_push_inv(1,5) [OF assms(1,3,4,7)] assms(6)
  by (simp add: sr_good_def bs_inv_def)

theorem reassembler_memory_witness:
  "length (sr_assemBuf sr_demo) + sr_size (sr_unassemBuf sr_demo) \<le> unat (sr_capacity sr_demo)"
  using reassembler_memory_bound [OF sr_demo1_good(1,2) _ _ _ _ sr_demo_push(2)] sr_demo1_good(3)
  by (simp add: piece_def)

text \<open>
  A stale entry is never recovered from. An empty substring pushed inside a waiting block leaves
  an empty entry that the assembly loop, which only looks at the first entry, stops at once
  \<open>expectIdx\<close> has passed it: from then on no push, of any data at any index, moves
  \<open>expectIdx\<close>, and the entry stays.
\<close>

theorem reassembler_stale_stuck:
  assumes "sr_stale r" and "sr_push_substring d i eof r = Inr r'"
  shows "sr_stale r' \<and> sr_expectIdx r' = sr_expectIdx r"
proof -
  let ?r0 = "if eof then r\<lparr>sr_eofIndex := i + of_nat (length d)\<rparr> else r"
  have "sr_stale ?r0" using assms(1) by (auto simp: sr_stale_def split: list.splits prod.splits)
  moreover obtain r1 r2 where "sr_pushUnassem d i ?r0 = Inr r1" "sr_fixCap r1 = Inr r2" "sr_finish r2 = Inr r'"
    using assms(2) unfolding sr_push_substring_finish by (auto simp: bindE_Inr_iff)
  ultimately have "sr_stale r' \<and> sr_expectIdx r' = sr_expectIdx ?r0"
    using sr_pushUnassem_stale sr_fixCap_stale sr_finish_stale by metis
  then show ?thesis by (simp split: if_splits)
qed

definition sr_wedged :: StreamReassembler where
  "sr_wedged = projr (bindE (sr_push_substring [4, 5, 6, 7] 3 False (sr_new 64)) (\<lambda>r.
     bindE (sr_push_substring [] 5 False r) (sr_push_substring [1, 2, 3] 0 False)))"

theorem reassembler_stale_witness:
  "sr_expectIdx sr_wedged = 7 \<and>
   (\<exists>r'. sr_push_substring [8] 7 False sr_wedged = Inr r' \<and> sr_stale r' \<and> sr_expectIdx r' = 7)"
proof -
  have w: "sr_expectIdx sr_wedged = 7" "sr_stale sr_wedged" by code_simp+
  have "sr_push_substring [8] 7 False sr_wedged = Inr (projr (sr_push_substring [8] 7 False sr_wedged))" by code_simp
  then show ?thesis using reassembler_stale_stuck [OF w(2)] w(1) by metis
qed

end
