(* ===== verification/Tcp_Receiver.thy ===== *)
theory Tcp_Receiver
  imports Tcp_Segment Reassembler_Correct
begin

text \<open>
  Models \<^verbatim>\<open>libsponge/tcp_receiver.hh\<close> and \<^verbatim>\<open>tcp_receiver.cc\<close>. The receiver turns 32-bit sequence numbers
  into stream indices, cuts data at the right edge of its window, pushes it into the reassembler
  and tracks the acknowledgment number.
\<close>

section \<open>Model\<close>

record TCPReceiver =
  rcv_reassembler :: StreamReassembler
  rcv_capacity :: u64
  rcv_state :: u16
  rcv_window_size_field :: u64
  rcv_isn :: WrappingInt32
  rcv_ack_no_64 :: u64
  rcv_last_no :: u64
  rcv_received_syn :: bool
  rcv_received_fin :: bool

definition rcv_new :: "u64 \<Rightarrow> TCPReceiver" where
  "rcv_new capacity =
     \<lparr>rcv_reassembler = sr_new capacity, rcv_capacity = capacity, rcv_state = 0, rcv_window_size_field = capacity,
      rcv_isn = WrappingInt32 0, rcv_ack_no_64 = 0, rcv_last_no = 0, rcv_received_syn = False, rcv_received_fin = False\<rparr>"

definition rcv_stream_out :: "TCPReceiver \<Rightarrow> ByteStream" where
  "rcv_stream_out r = sr_output (rcv_reassembler r)"

definition rcv_set_stream_out :: "ByteStream \<Rightarrow> TCPReceiver \<Rightarrow> TCPReceiver" where
  "rcv_set_stream_out s r = r\<lparr>rcv_reassembler := (rcv_reassembler r)\<lparr>sr_output := s\<rparr>\<rparr>"

definition rcv_window_size :: "TCPReceiver \<Rightarrow> u64" where
  "rcv_window_size r = rcv_capacity r - bs_bytes_not_read (rcv_stream_out r)"

definition rcv_ackno :: "TCPReceiver \<Rightarrow> WrappingInt32 option" where
  "rcv_ackno r = (if rcv_received_syn r then Some (wrap (rcv_ack_no_64 r) (rcv_isn r)) else None)"

definition rcv_unassembled_bytes :: "TCPReceiver \<Rightarrow> u64" where
  "rcv_unassembled_bytes r = sr_unassembled_bytes (rcv_reassembler r)"

definition rcv_abs_ackno :: "TCPReceiver \<Rightarrow> u64" where
  "rcv_abs_ackno r = rcv_ack_no_64 r"

text \<open>The first SYN fixes the initial sequence number.\<close>

definition rcv_syn_part :: "TCPHeader \<Rightarrow> TCPReceiver \<Rightarrow> TCPReceiver" where
  "rcv_syn_part header r =
     (if \<not> rcv_received_syn r \<and> th_syn header
      then r\<lparr>rcv_isn := th_seqno header,
             rcv_ack_no_64 := unwrap (th_seqno header) (th_seqno header) 0 + 1,
             rcv_state := 1, rcv_received_syn := True\<rparr>
      else r)"

text \<open>The payload, cut at the right edge of the window.\<close>

definition rcv_cut :: "bytes \<Rightarrow> u64 \<Rightarrow> u64 \<Rightarrow> u64 \<Rightarrow> bytes res" where
  "rcv_cut data abs_seq seg_length right_bound =
     (if abs_seq + seg_length > right_bound
      then let cut_length = abs_seq + seg_length - right_bound
           in substr data 0 (seg_length - cut_length)
      else Inr data)"

definition rcv_data_part :: "TCPSegment \<Rightarrow> TCPReceiver \<Rightarrow> TCPReceiver res" where
  "rcv_data_part seg r =
     (if (rcv_state r = 1 \<or> rcv_state r = 2) \<and> ts_payload seg \<noteq> []
      then let header = ts_header seg;
               abs_seq = unwrap (th_seqno header) (rcv_isn r) (rcv_ack_no_64 r);
               right_bound = rcv_ack_no_64 r + rcv_window_size r
           in bindE (rcv_cut (ts_payload seg) abs_seq (length_in_sequence_space seg) right_bound) (\<lambda>data.
              let pre_bytes_written = bs_bytes_written (rcv_stream_out r)
              in bindE (sr_push_substring data (if th_syn header then 0 else abs_seq - 1) (th_fin header) (rcv_reassembler r))
                   (\<lambda>re. let r' = r\<lparr>rcv_reassembler := re\<rparr>;
                             after_bytes_written = bs_bytes_written (rcv_stream_out r')
                         in Inr (r'\<lparr>rcv_ack_no_64 := rcv_ack_no_64 r' + (after_bytes_written - pre_bytes_written)\<rparr>)))
      else Inr r)"

definition rcv_fin_part :: "TCPSegment \<Rightarrow> TCPReceiver \<Rightarrow> TCPReceiver" where
  "rcv_fin_part seg r =
     (let header = ts_header seg;
          r1 = (if th_fin header
                then r\<lparr>rcv_state := 2,
                       rcv_last_no := unwrap (th_seqno header) (rcv_isn r) (rcv_ack_no_64 r) + length_in_sequence_space seg,
                       rcv_received_fin := True\<rparr>
                else r);
          r2 = (if rcv_received_fin r1 \<and> rcv_ack_no_64 r1 + 1 = rcv_last_no r1
                then r1\<lparr>rcv_ack_no_64 := rcv_last_no r1\<rparr> else r1)
      in if rcv_ack_no_64 r2 = rcv_last_no r2 \<and> rcv_received_fin r2
         then rcv_set_stream_out (bs_end_input (rcv_stream_out r2)) r2 else r2)"

text \<open>
  The whole of \<open>segment_received\<close>. Its first statement calls the getter \<open>error()\<close> on a reset and
  ignores the result, so a reset has no effect of its own.
\<close>

definition rcv_segment_received :: "TCPSegment \<Rightarrow> TCPReceiver \<Rightarrow> TCPReceiver res" where
  "rcv_segment_received seg r =
     bindE (rcv_data_part seg (rcv_syn_part (ts_header seg) r)) (\<lambda>r'. Inr (rcv_fin_part seg r'))"

end
