(* ===== verification/Receiver_Correct.thy ===== *)
theory Receiver_Correct
  imports Tcp_Receiver
begin

text \<open>
  Correctness of the receiver of \<^verbatim>\<open>tcp_receiver.cc\<close> against segments of a stream \<open>S\<close>: its output is a prefix of
  \<open>S\<close>, its acknowledgment number says exactly how much of \<open>S\<close> it has written out, and a
  segment inside the window is taken completely.
\<close>

section \<open>Specification\<close>

text \<open>Segments arrive while their number is close to the acknowledgment number.\<close>

definition rcv_timely :: "nat \<Rightarrow> TCPSegment \<Rightarrow> TCPReceiver \<Rightarrow> bool" where
  "rcv_timely a seg r \<longleftrightarrow> near (of_nat a) (rcv_ack_no_64 (rcv_syn_part (ts_header seg) r)) \<and> length (ts_payload seg) < 2 ^ 16"

definition rcv_fits :: "nat \<Rightarrow> TCPSegment \<Rightarrow> TCPReceiver \<Rightarrow> bool" where
  "rcv_fits a seg r \<longleftrightarrow> of_nat a + length_in_sequence_space seg \<le>
     rcv_ack_no_64 (rcv_syn_part (ts_header seg) r) + rcv_window_size r"

inductive rcv_step :: "bool \<Rightarrow> WrappingInt32 \<Rightarrow> bytes \<Rightarrow> TCPReceiver \<times> bytes \<Rightarrow> TCPReceiver \<times> bytes \<Rightarrow> bool"
  for strict :: bool and isn :: WrappingInt32 and S :: bytes where
  arrive: "seg_of isn S a seg \<Longrightarrow> rcv_timely a seg r \<Longrightarrow>
     (th_fin (ts_header seg) \<Longrightarrow> rcv_received_syn r \<or> th_syn (ts_header seg)) \<Longrightarrow>
     (strict \<and> th_fin (ts_header seg) \<Longrightarrow> rcv_fits a seg r) \<Longrightarrow>
     rcv_segment_received seg r = Inr r' \<Longrightarrow> rcv_step strict isn S (r, del) (r', del)"
| consume: "bs_read n (rcv_stream_out r) = (out, d) \<Longrightarrow>
     rcv_step strict isn S (r, del) (rcv_set_stream_out out r, del @ d)"

inductive_cases rcv_stepE: "rcv_step strict isn S s t"

definition rcv_inv :: "WrappingInt32 \<Rightarrow> bytes \<Rightarrow> bytes \<Rightarrow> TCPReceiver \<Rightarrow> bool" where
  "rcv_inv isn S del r \<longleftrightarrow>
     sr_good S del (rcv_reassembler r) \<and> bs_total_bytes_read (rcv_stream_out r) = of_nat (length del) \<and>
     (if rcv_received_syn r
      then rcv_isn r = isn \<and> (rcv_state r = 1 \<or> rcv_state r = 2) \<and>
        (rcv_received_fin r \<longrightarrow> rcv_last_no r = of_nat (length S + 2)) \<and>
        (rcv_ack_no_64 r = of_nat (length (del @ bs_buf (rcv_stream_out r)) + 1) \<or>
         rcv_received_fin r \<and> rcv_ack_no_64 r = of_nat (length S + 2) \<and> del @ bs_buf (rcv_stream_out r) = S)
      else rcv_state r = 0 \<and> rcv_ack_no_64 r = 0 \<and> \<not> rcv_received_fin r \<and> del @ bs_buf (rcv_stream_out r) = [])"

section \<open>What a push does to the output\<close>

lemma sr_writeStr_out:
  "sr_writeStr r = Inr r' \<Longrightarrow> \<exists>w. bs_buf (sr_output r') = bs_buf (sr_output r) @ w \<and>
     bs_total_bytes_read (sr_output r') = bs_total_bytes_read (sr_output r) \<and> bs_cap (sr_output r') = bs_cap (sr_output r) \<and>
     (bs_is_end (sr_output r) \<longrightarrow> w = [] \<and> bs_is_end (sr_output r'))"
  by (auto simp: sr_writeStr_def case_prod_beta bindE_Inr_iff bs_buf_write unat_snd_bs_write)

lemma sr_pushUnassem_frame:
  assumes "sr_pushUnassem d i r = Inr r1"
  shows "\<exists>m. r1 = r\<lparr>sr_unassemBuf := m\<rparr>"
proof -
  obtain v where v: "sr_valid_part d i (sr_expectIdx r) = Inr v"
    using assms by (auto simp: sr_pushUnassem_def bindE_Inr_iff)
  have id: "\<exists>m. r = r\<lparr>sr_unassemBuf := m\<rparr>" by (rule exI [of _ "sr_unassemBuf r"]) simp
  show ?thesis
  proof (cases v)
    case (Some p)
    then show ?thesis using assms v id
      by (cases p, cases "sr_insert (fst p) (snd p) (sr_unassemBuf r)") (auto simp: sr_pushUnassem_def bindE_Inr_iff)
  qed (use assms v id in \<open>simp add: sr_pushUnassem_def\<close>)
qed

lemma sr_push_out:
  assumes "sr_push_substring d i eof r = Inr r'"
  shows "\<exists>w. bs_buf (sr_output r') = bs_buf (sr_output r) @ w \<and>
    bs_total_bytes_read (sr_output r') = bs_total_bytes_read (sr_output r) \<and> bs_cap (sr_output r') = bs_cap (sr_output r) \<and>
    (bs_is_end (sr_output r) \<longrightarrow> w = [] \<and> bs_is_end (sr_output r'))"
proof -
  let ?r0 = "if eof then r\<lparr>sr_eofIndex := i + of_nat (length d)\<rparr> else r"
  obtain r1 r2 where *: "sr_pushUnassem d i ?r0 = Inr r1" "sr_fixCap r1 = Inr r2" "sr_finish r2 = Inr r'"
    using assms unfolding sr_push_substring_finish by (auto simp: bindE_Inr_iff)
  have "sr_output (sr_assem r2) = sr_output r2" by (simp add: sr_assem_def split: prod.splits)
  also have "\<dots> = sr_output r1" using sr_fixCap_cut [OF *(2)] by auto
  also have "\<dots> = sr_output ?r0" using sr_pushUnassem_frame [OF *(1)] by auto
  also have "\<dots> = sr_output r" by simp
  finally have out: "sr_output (sr_assem r2) = sr_output r" .
  obtain r3 where r3: "sr_writeStr (sr_assem r2) = Inr r3"
    "r' = (if sr_assemBuf r3 = [] \<and> sr_expectIdx r3 = sr_eofIndex r3 then r3\<lparr>sr_output := bs_end_input (sr_output r3)\<rparr> else r3)"
    using *(3) by (auto simp: sr_finish_def bindE_Inr_iff)
  obtain w where "bs_buf (sr_output r3) = bs_buf (sr_output r) @ w"
    "bs_total_bytes_read (sr_output r3) = bs_total_bytes_read (sr_output r)" "bs_cap (sr_output r3) = bs_cap (sr_output r)"
    "bs_is_end (sr_output r) \<longrightarrow> w = [] \<and> bs_is_end (sr_output r3)"
    using sr_writeStr_out [OF r3(1)] unfolding out by blast
  then show ?thesis by (intro exI [of _ w]) (simp add: r3(2))
qed

section \<open>The parts of \<open>segment_received\<close>\<close>

lemma rcv_cut_prefix: "\<exists>n. rcv_cut d a l rb = Inr (take n d)"
  unfolding rcv_cut_def by (auto simp: substr_def Let_def intro: exI [of _ "length d"])

lemma rcv_inv_syn:
  assumes "rcv_inv isn S del r" and "seg_of isn S a seg"
  shows "rcv_inv isn S del (rcv_syn_part (ts_header seg) r)"
proof (cases "\<not> rcv_received_syn r \<and> th_syn (ts_header seg)")
  case True
  then have "th_seqno (ts_header seg) = isn"
    using assms(2) by (simp add: seg_of_def)
  then show ?thesis using assms(1) True by (auto simp: rcv_inv_def rcv_syn_part_def unwrap_self rcv_stream_out_def)
qed (use assms in \<open>auto simp: rcv_syn_part_def\<close>)

text \<open>What the data part pushes: a piece of the stream at its place.\<close>

lemma rcv_data_cases:
  assumes inv: "rcv_inv isn S del r" and seg: "seg_of isn S a seg" and near: "near (of_nat a) (rcv_ack_no_64 r)"
    and run: "rcv_data_part seg r = Inr r'"
  shows "r' = r \<or> (\<exists>n re. let d = take n (ts_payload seg); i = a - 1 in
     rcv_received_syn r \<and> ts_payload seg \<noteq> [] \<and> i + length d \<le> length S \<and> d = piece S i (length d) \<and>
     sr_push_substring d (of_nat i) (th_fin (ts_header seg)) (rcv_reassembler r) = Inr re \<and>
     r' = r\<lparr>rcv_reassembler := re, rcv_ack_no_64 := rcv_ack_no_64 r +
       (bs_total_bytes_written (sr_output re) - bs_total_bytes_written (rcv_stream_out r))\<rparr> \<and>
     (of_nat a + length_in_sequence_space seg \<le> rcv_ack_no_64 r + rcv_window_size r \<longrightarrow> d = ts_payload seg))"
proof (cases "(rcv_state r = 1 \<or> rcv_state r = 2) \<and> ts_payload seg \<noteq> []")
  case True
  have rsyn: "rcv_received_syn r" and isn: "rcv_isn r = isn"
    using inv True by (auto simp: rcv_inv_def split: if_splits)
  let ?p = "ts_payload seg"
  have a: "unwrap (th_seqno (ts_header seg)) (rcv_isn r) (rcv_ack_no_64 r) = of_nat a"
    using seg near by (simp add: seg_of_def isn sq.to_abs_to_rel)
  have p: "a - 1 + length ?p \<le> length S" "?p = piece S (a - 1) (length ?p)"
    and idx: "(if th_syn (ts_header seg) then 0 else of_nat a - 1) = (of_nat (a - 1) :: u64)"
    using seg True by (auto simp: seg_of_def)
  obtain n where cut: "rcv_cut ?p (of_nat a) (length_in_sequence_space seg) (rcv_ack_no_64 r + rcv_window_size r) = Inr (take n ?p)"
    and full: "of_nat a + length_in_sequence_space seg \<le> rcv_ack_no_64 r + rcv_window_size r \<Longrightarrow> take n ?p = ?p"
  proof (cases "of_nat a + length_in_sequence_space seg \<le> rcv_ack_no_64 r + rcv_window_size r")
    case True
    then show ?thesis using that [of "length ?p"] by (simp add: rcv_cut_def not_less [symmetric])
  next
    case False
    then show ?thesis using rcv_cut_prefix that by metis
  qed
  obtain re where re: "sr_push_substring (take n ?p) (of_nat (a - 1)) (th_fin (ts_header seg)) (rcv_reassembler r) = Inr re"
    "r' = r\<lparr>rcv_reassembler := re, rcv_ack_no_64 := rcv_ack_no_64 r +
       (bs_total_bytes_written (sr_output re) - bs_total_bytes_written (rcv_stream_out r))\<rparr>"
    using run True unfolding rcv_data_part_def Let_def a cut idx
    by (auto simp: bindE_Inr_iff bs_bytes_written_def rcv_stream_out_def)
  have "take n ?p = piece S (a - 1) (length (take n ?p))" using p(2) by (metis length_take min.commute take_piece)
  then show ?thesis using re p(1) full rsyn True by (intro disjI2 exI [of _ n] exI [of _ re]) (auto simp: Let_def)
qed (use run in \<open>auto simp: rcv_data_part_def\<close>)

lemma sr_good_len: "sr_good S del r \<Longrightarrow> length (del @ bs_buf (sr_output r)) \<le> length S"
proof -
  assume "sr_good S del r"
  then have "length (sr_stream del r) \<le> length S" by (simp add: sr_good_def)
  then show ?thesis by (simp add: sr_stream_def)
qed

lemma rcv_inv_ack:
  assumes "rcv_inv isn S del r" and "length S < 2 ^ 64 - 3"
  shows "unat (rcv_ack_no_64 r) \<le> length S + 2"
proof -
  have len: "length (del @ bs_buf (rcv_stream_out r)) \<le> length S"
    using assms(1) sr_good_len by (auto simp: rcv_inv_def rcv_stream_out_def)
  consider "rcv_ack_no_64 r = 0" | "rcv_ack_no_64 r = of_nat (length (del @ bs_buf (rcv_stream_out r)) + 1)"
    | "rcv_ack_no_64 r = of_nat (length S + 2)"
    using assms(1) unfolding rcv_inv_def by (cases "rcv_received_syn r") auto
  then show ?thesis using assms(2) len by cases (simp_all add: unat_of_nat_small del: of_nat_add of_nat_Suc)
qed

text \<open>The effect of a push on the output, in numbers.\<close>

lemma rcv_push_written:
  assumes "sr_good S del r" and "sr_good S del r'" and "sr_push_substring d i eof r = Inr r'"
  obtains w where "bs_buf (sr_output r') = bs_buf (sr_output r) @ w"
    and "bs_total_bytes_written (sr_output r') - bs_total_bytes_written (sr_output r) = of_nat (length w)"
    and "bs_total_bytes_read (sr_output r') = bs_total_bytes_read (sr_output r)"
  using sr_push_out [OF assms(3)] assms(1,2) by (auto simp: sr_good_def bs_inv_def)

lemma rcv_data_inv:
  assumes inv: "rcv_inv isn S del r" and seg: "seg_of isn S a seg" and near: "near (of_nat a) (rcv_ack_no_64 r)"
    and S: "length S < 2 ^ 64 - 3"
    and run: "rcv_data_part seg r = Inr r'"
  shows "rcv_inv isn S del r' \<and> rcv_received_syn r' = rcv_received_syn r \<and> unat (rcv_ack_no_64 r) \<le> unat (rcv_ack_no_64 r')"
proof -
  consider "r' = r" | n re where "rcv_received_syn r" "a - 1 + length (take n (ts_payload seg)) \<le> length S"
    "take n (ts_payload seg) = piece S (a - 1) (length (take n (ts_payload seg)))"
    "sr_push_substring (take n (ts_payload seg)) (of_nat (a - 1)) (th_fin (ts_header seg)) (rcv_reassembler r) = Inr re"
    "r' = r\<lparr>rcv_reassembler := re, rcv_ack_no_64 := rcv_ack_no_64 r +
       (bs_total_bytes_written (sr_output re) - bs_total_bytes_written (rcv_stream_out r))\<rparr>"
    using rcv_data_cases [OF inv seg near run] unfolding Let_def by blast
  then show ?thesis
  proof cases
    case (2 n re)
    have good: "sr_good S del (rcv_reassembler r)" using inv by (simp add: rcv_inv_def)
    have good': "sr_good S del re" by (rule sr_push_inv(1) [OF good 2(2-4)])
    obtain w where w: "bs_buf (sr_output re) = bs_buf (rcv_stream_out r) @ w"
      "bs_total_bytes_written (sr_output re) - bs_total_bytes_written (rcv_stream_out r) = of_nat (length w)"
      "bs_total_bytes_read (sr_output re) = bs_total_bytes_read (rcv_stream_out r)"
      using rcv_push_written [OF good good' 2(4)] unfolding rcv_stream_out_def by blast
    have ack: "rcv_ack_no_64 r' = rcv_ack_no_64 r + of_nat (length w)" using 2(5) w(2) by simp
    have buf: "bs_buf (rcv_stream_out r') = bs_buf (rcv_stream_out r) @ w" using 2(5) w(1) by (simp add: rcv_stream_out_def)
    have len: "length (del @ bs_buf (rcv_stream_out r) @ w) \<le> length S" using sr_good_len [OF good'] w(1) by simp
    have w0: "w = []" if "del @ bs_buf (rcv_stream_out r) = S"
    proof -
      have "length w = 0" using len arg_cong [OF that, of length] unfolding length_append by linarith
      then show ?thesis by simp
    qed
    have "rcv_inv isn S del r'"
      using inv 2(1,5) good' w(3) w0 ack buf unfolding rcv_inv_def by (auto simp: rcv_stream_out_def)
    moreover have "unat (rcv_ack_no_64 r) \<le> unat (rcv_ack_no_64 r')"
    proof (cases "rcv_ack_no_64 r = of_nat (length (del @ bs_buf (rcv_stream_out r)) + 1)")
      case True
      let ?n = "length (del @ bs_buf (rcv_stream_out r)) + 1"
      have "?n + length w < 2 ^ 64" using len S by simp
      then have "unat (of_nat ?n :: u64) = ?n" "unat (of_nat (?n + length w) :: u64) = ?n + length w"
        by (intro unat_of_nat_small; simp)+
      then show ?thesis unfolding ack True of_nat_add [symmetric] by simp
    next
      case False
      then have "del @ bs_buf (rcv_stream_out r) = S" using inv 2(1) by (simp add: rcv_inv_def)
      then show ?thesis using w0 ack by simp
    qed
    ultimately show ?thesis using 2(5) by simp
  qed (use inv in simp)
qed

lemma rcv_inv_complete:
  assumes inv: "rcv_inv isn S del r" and S: "length S < 2 ^ 64 - 3" and syn: "rcv_received_syn r"
    and ack: "rcv_ack_no_64 r = of_nat (length S + 1) \<or> rcv_ack_no_64 r = of_nat (length S + 2)"
  shows "del @ bs_buf (rcv_stream_out r) = S"
proof (cases "rcv_ack_no_64 r = of_nat (length (del @ bs_buf (rcv_stream_out r)) + 1)")
  case True
  let ?n = "length (del @ bs_buf (rcv_stream_out r))"
  have good: "sr_good S del (rcv_reassembler r)" using inv by (simp add: rcv_inv_def)
  have len: "?n \<le> length S" using sr_good_len [OF good] by (simp add: rcv_stream_out_def)
  have "unat (rcv_ack_no_64 r) = ?n + 1" unfolding True using len S by (intro unat_of_nat_small) simp
  moreover have "unat (rcv_ack_no_64 r) \<ge> length S + 1"
    using ack S by (elim disjE) (simp_all add: unat_of_nat_small del: of_nat_add of_nat_Suc)
  ultimately have n: "?n = length S" using len by simp
  have st: "del @ bs_buf (rcv_stream_out r) @ sr_assemBuf (rcv_reassembler r) = take (unat (sr_expectIdx (rcv_reassembler r))) S"
    using good by (simp add: sr_good_def sr_stream_def rcv_stream_out_def)
  then have "take ?n (take (unat (sr_expectIdx (rcv_reassembler r))) S) = del @ bs_buf (rcv_stream_out r)"
    by (metis append.assoc append_eq_conv_conj)
  moreover have "length S \<le> unat (sr_expectIdx (rcv_reassembler r))" using arg_cong [OF st, of length] n by simp
  ultimately show ?thesis by (metis n order_refl take_all)
qed (use inv syn in \<open>simp add: rcv_inv_def\<close>)

lemma rcv_fin_inv:
  assumes inv: "rcv_inv isn S del r" and seg: "seg_of isn S a seg" and S: "length S < 2 ^ 64 - 3"
    and near: "th_fin (ts_header seg) \<Longrightarrow> near (of_nat a) (rcv_ack_no_64 r)"
    and syn: "th_fin (ts_header seg) \<Longrightarrow> rcv_received_syn r"
  shows "rcv_inv isn S del (rcv_fin_part seg r)"
proof -
  define r1 where "r1 = (if th_fin (ts_header seg)
     then r\<lparr>rcv_state := 2, rcv_last_no := unwrap (th_seqno (ts_header seg)) (rcv_isn r) (rcv_ack_no_64 r) +
       length_in_sequence_space seg, rcv_received_fin := True\<rparr> else r)"
  define r2 where "r2 = (if rcv_received_fin r1 \<and> rcv_ack_no_64 r1 + 1 = rcv_last_no r1
     then r1\<lparr>rcv_ack_no_64 := rcv_last_no r1\<rparr> else r1)"
  have res: "rcv_fin_part seg r = (if rcv_ack_no_64 r2 = rcv_last_no r2 \<and> rcv_received_fin r2
     then rcv_set_stream_out (bs_end_input (rcv_stream_out r2)) r2 else r2)"
    by (simp add: rcv_fin_part_def Let_def r1_def r2_def)
  have last: "unwrap (th_seqno (ts_header seg)) (rcv_isn r) (rcv_ack_no_64 r) + length_in_sequence_space seg = of_nat (length S + 2)"
    if fin: "th_fin (ts_header seg)"
  proof -
    have "rcv_isn r = isn" "a + seg_len seg = length S + 2" using inv syn [OF fin] seg fin by (auto simp: rcv_inv_def seg_of_def)
    then show ?thesis using near [OF fin] seg
      by (simp add: seg_of_def sq.to_abs_to_rel length_in_sequence_space_eq flip: of_nat_add)
  qed
  have inv1: "rcv_inv isn S del r1"
    using inv syn last by (auto simp: r1_def rcv_inv_def rcv_stream_out_def simp del: of_nat_add)
  have inv2: "rcv_inv isn S del r2"
  proof (cases "rcv_received_fin r1 \<and> rcv_ack_no_64 r1 + 1 = rcv_last_no r1")
    case True
    have rsyn: "rcv_received_syn r1" using inv1 True by (auto simp: rcv_inv_def split: if_splits)
    then have l: "rcv_last_no r1 = of_nat (length S + 2)" using inv1 True by (simp add: rcv_inv_def)
    then have "rcv_ack_no_64 r1 = of_nat (length S + 1)" using True by (simp add: algebra_simps)
    then have "del @ bs_buf (rcv_stream_out r1) = S" using rcv_inv_complete [OF inv1 S rsyn] by blast
    then show ?thesis using inv1 rsyn l True by (simp add: r2_def rcv_inv_def rcv_stream_out_def)
  qed (use inv1 in \<open>auto simp: r2_def\<close>)
  then show ?thesis unfolding res
    by (auto simp: rcv_inv_def rcv_set_stream_out_def rcv_stream_out_def sr_good_def sr_inv_def sr_stream_def split: if_splits)
qed

lemma near_later:
  assumes "near (of_nat a) c" and "unat c \<le> unat c'" and "unat c' \<le> a + 2 ^ 17" and "a < 2 ^ 64"
  shows "near (of_nat a) c'"
  using assms unat_of_nat_small [OF assms(4)] by (simp add: near_def)

lemma rcv_inv_received:
  assumes inv: "rcv_inv isn S del r" and seg: "seg_of isn S a seg" and time: "rcv_timely a seg r" and S: "length S < 2 ^ 64 - 3"
    and syn: "th_fin (ts_header seg) \<Longrightarrow> rcv_received_syn r \<or> th_syn (ts_header seg)"
    and run: "rcv_segment_received seg r = Inr r'"
  shows "rcv_inv isn S del r'"
proof -
  let ?r1 = "rcv_syn_part (ts_header seg) r"
  obtain r2 where r2: "rcv_data_part seg ?r1 = Inr r2" "r' = rcv_fin_part seg r2"
    using run by (auto simp: rcv_segment_received_def bindE_Inr_iff)
  have syn1: "th_syn (ts_header seg) \<or> rcv_received_syn r \<Longrightarrow> rcv_received_syn ?r1" by (auto simp: rcv_syn_part_def)
  have near: "near (of_nat a) (rcv_ack_no_64 ?r1)" using time by (simp add: rcv_timely_def)
  note d = rcv_data_inv [OF rcv_inv_syn [OF inv seg] seg near S r2(1)]
  have inv2: "rcv_inv isn S del r2" using d syn1 by blast
  have "near (of_nat a) (rcv_ack_no_64 r2)" if fin: "th_fin (ts_header seg)"
  proof (rule near_later [OF near])
    have l: "a + seg_len seg = length S + 2" using seg fin by (simp add: seg_of_def)
    then show "a < 2 ^ 64" using S by simp
    have "seg_len seg \<le> 2 ^ 17" using time by (simp add: rcv_timely_def seg_len_def)
    then show "unat (rcv_ack_no_64 r2) \<le> a + 2 ^ 17" using rcv_inv_ack [OF inv2 S] l by linarith
    show "unat (rcv_ack_no_64 ?r1) \<le> unat (rcv_ack_no_64 r2)" using d syn1 by blast
  qed
  moreover have "rcv_received_syn r2" if "th_fin (ts_header seg)" using d syn syn1 that by blast
  ultimately show ?thesis unfolding r2(2) by (intro rcv_fin_inv [OF inv2 seg S])
qed

section \<open>The end of the stream\<close>

lemma sr_ended_end_input:
  assumes good: "sr_good S del r" and all: "del @ bs_buf (sr_output r) = S" and ended: "sr_ended S r"
  shows "sr_ended S (r\<lparr>sr_output := bs_end_input (sr_output r)\<rparr>)"
proof -
  have st: "S @ sr_assemBuf r = take (unat (sr_expectIdx r)) S" and le: "unat (sr_expectIdx r) \<le> length S"
    using good all by (auto simp: sr_good_def sr_inv_def sr_stream_def)
  have "length S + length (sr_assemBuf r) = unat (sr_expectIdx r)" using arg_cong [OF st, of length] le by simp
  then have "length (sr_assemBuf r) = 0 \<and> unat (sr_expectIdx r) = length S" using le by linarith
  then show ?thesis using ended by (simp add: sr_ended_def)
qed

lemma rcv_data_ended:
  assumes inv: "rcv_inv isn S del r" and seg: "seg_of isn S a seg" and near: "near (of_nat a) (rcv_ack_no_64 r)"
    and S: "length S < 2 ^ 64 - 3"
    and run: "rcv_data_part seg r = Inr r'" and ended: "sr_ended S (rcv_reassembler r)"
    and fits: "th_fin (ts_header seg) \<Longrightarrow> of_nat a + length_in_sequence_space seg \<le> rcv_ack_no_64 r + rcv_window_size r"
  shows "sr_ended S (rcv_reassembler r')"
proof -
  consider "r' = r" | n re where "ts_payload seg \<noteq> []" "a - 1 + length (take n (ts_payload seg)) \<le> length S"
    "take n (ts_payload seg) = piece S (a - 1) (length (take n (ts_payload seg)))"
    "sr_push_substring (take n (ts_payload seg)) (of_nat (a - 1)) (th_fin (ts_header seg)) (rcv_reassembler r) = Inr re"
    "rcv_reassembler r' = re" "th_fin (ts_header seg) \<Longrightarrow> take n (ts_payload seg) = ts_payload seg"
    using rcv_data_cases [OF inv seg near run] fits unfolding Let_def by (elim disjE exE conjE) simp_all
  then show ?thesis
  proof cases
    case (2 n re)
    have good: "sr_good S del (rcv_reassembler r)" using inv by (simp add: rcv_inv_def)
    have "a - 1 + length (take n (ts_payload seg)) = length S" if fin: "th_fin (ts_header seg)"
      using seg fin 2(1) unfolding 2(6) [OF fin] by (auto simp: seg_of_def seg_len_def split: if_splits)
    then show ?thesis using sr_push_inv(2) [OF good 2(2-4) _ ended] S 2(5) by auto
  qed (use ended in simp)
qed

lemma rcv_fin_ended:
  assumes inv: "rcv_inv isn S del r" and S: "length S < 2 ^ 64 - 3" and inv': "rcv_inv isn S del (rcv_fin_part seg r)"
    and ended: "sr_ended S (rcv_reassembler r)"
  shows "sr_ended S (rcv_reassembler (rcv_fin_part seg r))"
proof -
  let ?r = "rcv_fin_part seg r"
  have frame: "rcv_reassembler ?r = rcv_reassembler r \<or>
      (rcv_reassembler ?r = (rcv_reassembler r)\<lparr>sr_output := bs_end_input (rcv_stream_out r)\<rparr> \<and>
       rcv_received_fin ?r \<and> rcv_ack_no_64 ?r = rcv_last_no ?r)"
    by (auto simp: rcv_fin_part_def Let_def rcv_set_stream_out_def rcv_stream_out_def)
  then show ?thesis
  proof
    assume *: "rcv_reassembler ?r = (rcv_reassembler r)\<lparr>sr_output := bs_end_input (rcv_stream_out r)\<rparr> \<and>
       rcv_received_fin ?r \<and> rcv_ack_no_64 ?r = rcv_last_no ?r"
    then have syn: "rcv_received_syn ?r" using inv' by (auto simp: rcv_inv_def split: if_splits)
    then have "rcv_ack_no_64 ?r = of_nat (length S + 2)" using inv' * by (simp add: rcv_inv_def)
    then have "del @ bs_buf (rcv_stream_out ?r) = S" using rcv_inv_complete [OF inv' S syn] by blast
    then have "del @ bs_buf (sr_output (rcv_reassembler r)) = S" using * by (simp add: rcv_stream_out_def)
    then show ?thesis using sr_ended_end_input [OF _ _ ended] inv * by (auto simp: rcv_inv_def rcv_stream_out_def)
  qed (use ended in simp)
qed

section \<open>Reachable states\<close>

definition rcv_run_inv :: "bool \<Rightarrow> WrappingInt32 \<Rightarrow> bytes \<Rightarrow> TCPReceiver \<times> bytes \<Rightarrow> bool" where
  "rcv_run_inv strict isn S s \<longleftrightarrow> (length S < 2 ^ 64 - 3 \<longrightarrow>
     rcv_inv isn S (snd s) (fst s) \<and> (strict \<longrightarrow> sr_ended S (rcv_reassembler (fst s))))"

lemma rcv_ended_received:
  assumes inv: "rcv_inv isn S del r" and seg: "seg_of isn S a seg" and time: "rcv_timely a seg r" and S: "length S < 2 ^ 64 - 3"
    and syn: "th_fin (ts_header seg) \<Longrightarrow> rcv_received_syn r \<or> th_syn (ts_header seg)"
    and fits: "th_fin (ts_header seg) \<Longrightarrow> rcv_fits a seg r" and ended: "sr_ended S (rcv_reassembler r)"
    and run: "rcv_segment_received seg r = Inr r'"
  shows "sr_ended S (rcv_reassembler r')"
proof -
  let ?r1 = "rcv_syn_part (ts_header seg) r"
  obtain r2 where r2: "rcv_data_part seg ?r1 = Inr r2" "r' = rcv_fin_part seg r2"
    using run by (auto simp: rcv_segment_received_def bindE_Inr_iff)
  have near: "near (of_nat a) (rcv_ack_no_64 ?r1)" using time by (simp add: rcv_timely_def)
  have win: "rcv_window_size ?r1 = rcv_window_size r" by (simp add: rcv_syn_part_def rcv_window_size_def rcv_stream_out_def)
  have ended1: "sr_ended S (rcv_reassembler ?r1)" using ended by (simp add: rcv_syn_part_def)
  have inv1: "rcv_inv isn S del ?r1" by (rule rcv_inv_syn [OF inv seg])
  have ended2: "sr_ended S (rcv_reassembler r2)"
    using fits by (intro rcv_data_ended [OF inv1 seg near S r2(1) ended1]) (auto simp: rcv_fits_def win)
  have inv2: "rcv_inv isn S del r2" using rcv_data_inv [OF inv1 seg near S r2(1)] by blast
  have inv3: "rcv_inv isn S del (rcv_fin_part seg r2)"
    using rcv_inv_received [OF inv seg time S syn run] r2(2) by simp
  show ?thesis unfolding r2(2) by (rule rcv_fin_ended [OF inv2 S inv3 ended2])
qed

lemma bs_read_total: "bs_total_bytes_read (fst (bs_read n s)) = bs_total_bytes_read s + of_nat (length (snd (bs_read n s)))"
  by (simp add: bs_read_def bs_pop_output_eq bs_peek_output_eq min.commute)

lemma rcv_inv_read:
  assumes inv: "rcv_inv isn S del r" and rd: "bs_read n (rcv_stream_out r) = (out, d)"
  shows "rcv_inv isn S (del @ d) (rcv_set_stream_out out r)"
proof -
  have "sr_good S (del @ d) (rcv_reassembler (rcv_set_stream_out out r))"
    using sr_good_read [of S del "rcv_reassembler r" n out d] inv rd by (simp add: rcv_inv_def rcv_stream_out_def rcv_set_stream_out_def)
  moreover have "bs_total_bytes_read out = of_nat (length (del @ d))"
    using bs_read_total [of n "rcv_stream_out r"] inv rd by (simp add: rcv_inv_def)
  moreover have "del @ d @ bs_buf out = del @ bs_buf (rcv_stream_out r)"
    using bs_read_simps(1,2) [of n "rcv_stream_out r"] rd by (simp add: append_take_drop_id)
  ultimately show ?thesis using inv
    by (auto simp: rcv_inv_def rcv_stream_out_def rcv_set_stream_out_def simp flip: length_append)
qed

lemma rcv_run_inv_step: "rcv_run_inv strict isn S s \<Longrightarrow> rcv_step strict isn S s t \<Longrightarrow> rcv_run_inv strict isn S t"
proof (erule rcv_stepE)
  fix a seg r r' del
  assume *: "rcv_run_inv strict isn S s" "s = (r, del)" "t = (r', del)" "seg_of isn S a seg" "rcv_timely a seg r"
    "th_fin (ts_header seg) \<Longrightarrow> rcv_received_syn r \<or> th_syn (ts_header seg)"
    "strict \<and> th_fin (ts_header seg) \<Longrightarrow> rcv_fits a seg r" "rcv_segment_received seg r = Inr r'"
  show "rcv_run_inv strict isn S t" unfolding rcv_run_inv_def
  proof (intro impI conjI)
    assume S: "length S < 2 ^ 64 - 3"
    then have inv: "rcv_inv isn S del r" and ended: "strict \<Longrightarrow> sr_ended S (rcv_reassembler r)"
      using *(1,2) by (auto simp: rcv_run_inv_def)
    show "rcv_inv isn S (snd t) (fst t)" using rcv_inv_received [OF inv *(4,5) S *(6,8)] *(3) by simp
    show "sr_ended S (rcv_reassembler (fst t))" if "strict"
      using rcv_ended_received [OF inv *(4,5) S *(6) *(7) ended *(8)] that *(3) by simp
  qed
next
  fix n r out d del
  assume *: "rcv_run_inv strict isn S s" "s = (r, del)" "t = (rcv_set_stream_out out r, del @ d)"
    "bs_read n (rcv_stream_out r) = (out, d)"
  have "bs_is_end out = bs_is_end (rcv_stream_out r)" using bs_read_simps(3) [of n "rcv_stream_out r"] unfolding *(4) fst_conv .
  then have "sr_ended S (rcv_reassembler (rcv_set_stream_out out r))" if "sr_ended S (rcv_reassembler r)"
    using that by (simp add: sr_ended_def rcv_set_stream_out_def rcv_stream_out_def)
  then show "rcv_run_inv strict isn S t"
    using *(1) rcv_inv_read [OF _ *(4)] unfolding rcv_run_inv_def *(2,3) fst_conv snd_conv by blast
qed

interpretation rcv: invariant_system "\<lambda>s. s = (rcv_new c, [])" "rcv_step strict isn S" "rcv_run_inv strict isn S" for c strict isn S
proof unfold_locales
  show "s = (rcv_new c, []) \<Longrightarrow> rcv_run_inv strict isn S s" for s
    using sr_good_new [of S c]
    by (auto simp: rcv_run_inv_def rcv_inv_def rcv_new_def rcv_stream_out_def sr_ended_def) (simp_all add: sr_new_def bs_new_def)
qed (rule rcv_run_inv_step)

section \<open>Segments inside the window\<close>

text \<open>No byte is held beyond the right edge of the window, and the pieces held are tidy.\<close>

definition rcv_tidy :: "bytes \<Rightarrow> TCPReceiver \<Rightarrow> bool" where
  "rcv_tidy del r \<longleftrightarrow> sr_neat (rcv_reassembler r) \<and> \<not> bs_is_end (rcv_stream_out r) \<and>
     sr_held (rcv_reassembler r) \<subseteq> {..< length del + unat (rcv_capacity r)} \<and>
     sr_capacity (rcv_reassembler r) = rcv_capacity r \<and> bs_cap (rcv_stream_out r) = rcv_capacity r"

lemma rcv_window_nat: "rcv_inv isn S del r \<Longrightarrow> rcv_tidy del r \<Longrightarrow>
  rcv_window_size r = rcv_capacity r - of_nat (length (bs_buf (rcv_stream_out r))) \<and>
  length (bs_buf (rcv_stream_out r)) \<le> unat (rcv_capacity r)"
  by (auto simp: rcv_window_size_def rcv_tidy_def rcv_inv_def sr_good_def bs_inv_def bs_bytes_not_read_def
      bs_remaining_capacity_def rcv_stream_out_def)

lemma rcv_push_room:
  assumes good: "sr_good S del re" and held: "sr_held re \<union> I \<subseteq> {..< length del + c}" and buf: "length (bs_buf (sr_output re)) \<le> c"
  shows "length (sr_assemBuf re) + sr_waiting re I \<le> c"
proof -
  let ?e = "unat (sr_expectIdx re)"
  have len: "length del + length (bs_buf (sr_output re)) + length (sr_assemBuf re) = ?e"
  proof -
    have "length (sr_stream del re) = ?e" using good by (simp add: sr_good_def sr_inv_def)
    then show ?thesis by (simp add: sr_stream_def)
  qed
  have "sr_held re \<union> I - {..<?e} \<subseteq> {?e ..< length del + c}" using held by auto
  then have "sr_waiting re I \<le> length del + c - ?e"
    unfolding sr_waiting_def using card_mono [of "{?e ..< length del + c}"] by fastforce
  moreover have "?e \<le> length del + c"
  proof (cases "?e = 0")
    case False
    then have "?e - 1 \<in> sr_held re" by (simp add: sr_held_def)
    then show ?thesis using held by auto
  qed simp
  ultimately show ?thesis using len by linarith
qed

text \<open>The data part on a segment inside the window.\<close>

lemma rcv_data_accepts:
  assumes inv: "rcv_inv isn S del r" and tidy: "rcv_tidy del r" and syn: "rcv_received_syn r"
    and seg: "seg_of isn S a seg" and near: "near (of_nat a) (rcv_ack_no_64 r)" and p: "ts_payload seg \<noteq> []"
    and fits: "of_nat a + length_in_sequence_space seg \<le> rcv_ack_no_64 r + rcv_window_size r"
    and edge: "a - 1 + length (ts_payload seg) \<le> length del + unat (rcv_capacity r)"
  obtains re where "rcv_data_part seg r = Inr (r\<lparr>rcv_reassembler := re, rcv_ack_no_64 := rcv_ack_no_64 r +
       (bs_total_bytes_written (sr_output re) - bs_total_bytes_written (rcv_stream_out r))\<rparr>)"
    and "sr_good S del re" and "sr_neat re" and "sr_assemBuf re = []"
    and "sr_held re = sr_held (rcv_reassembler r) \<union> {a - 1 ..< a - 1 + length (ts_payload seg)}"
    and "unat (sr_expectIdx re) = (LEAST n. n \<notin> sr_held re)"
    and "sr_capacity re = sr_capacity (rcv_reassembler r)" and "bs_cap (sr_output re) = bs_cap (rcv_stream_out r)"
proof -
  let ?I = "{a - 1 ..< a - 1 + length (ts_payload seg)}" and ?re = "rcv_reassembler r" and ?p = "ts_payload seg"
  have good: "sr_good S del ?re" and isn: "rcv_isn r = isn" and st: "rcv_state r = 1 \<or> rcv_state r = 2"
    using inv syn by (auto simp: rcv_inv_def)
  have piece: "a - 1 + length ?p \<le> length S" "?p = piece S (a - 1) (length ?p)"
    and idx: "(if th_syn (ts_header seg) then 0 else of_nat a - 1) = (of_nat (a - 1) :: u64)"
    using seg p by (auto simp: seg_of_def)
  have held: "sr_held ?re \<union> ?I \<subseteq> {..< length del + unat (rcv_capacity r)}" using tidy edge by (auto simp: rcv_tidy_def)
  have neat: "sr_neat ?re" and cap: "sr_capacity ?re = rcv_capacity r" using tidy by (simp_all add: rcv_tidy_def)
  have room: "length (sr_assemBuf ?re) + sr_waiting ?re ?I \<le> unat (sr_capacity ?re)"
    using rcv_push_room [OF good held] rcv_window_nat [OF inv tidy] cap by (simp add: rcv_stream_out_def)
  note c = sr_push_cases [OF good neat piece p, of "th_fin (ts_header seg)"]
  obtain re where push: "sr_push_substring ?p (of_nat (a - 1)) (th_fin (ts_header seg)) ?re = Inr re"
    using c(2) room by fastforce
  note i = sr_push_inv [OF good piece push]
  have held': "sr_held re = sr_held ?re \<union> ?I" using c(3) push room by blast
  have e: "unat (sr_expectIdx re) \<notin> sr_held re" and neat': "sr_neat re" using i(3) neat p by auto
  have least: "unat (sr_expectIdx re) = (LEAST n. n \<notin> sr_held re)"
    by (rule Least_equality [symmetric]) (use e in \<open>auto simp: sr_held_def not_less\<close>)
  have bcap: "bs_cap (sr_output re) = bs_cap (rcv_stream_out r)" using sr_push_out [OF push] by (auto simp: rcv_stream_out_def)
  have "sr_assemBuf re = []"
  proof (rule ccontr)
    assume ne: "sr_assemBuf re \<noteq> []"
    then have full: "length (bs_buf (sr_output re)) = unat (rcv_capacity r)"
      using i(6) tidy bcap by (auto simp: rcv_tidy_def rcv_stream_out_def)
    have "length (sr_stream del re) = unat (sr_expectIdx re)" using i(1) by (simp add: sr_good_def sr_inv_def)
    moreover have "0 < length (sr_assemBuf re)" using ne by simp
    ultimately have "length del + unat (rcv_capacity r) < unat (sr_expectIdx re)"
      using full unfolding sr_stream_def length_append by linarith
    then have "length del + unat (rcv_capacity r) \<in> sr_held re" by (simp add: sr_held_def)
    then show False using held held' by auto
  qed
  moreover have "unwrap (th_seqno (ts_header seg)) (rcv_isn r) (rcv_ack_no_64 r) = of_nat a"
    using seg near by (simp add: seg_of_def isn sq.to_abs_to_rel)
  then have "rcv_data_part seg r = Inr (r\<lparr>rcv_reassembler := re, rcv_ack_no_64 := rcv_ack_no_64 r +
       (bs_total_bytes_written (sr_output re) - bs_total_bytes_written (rcv_stream_out r))\<rparr>)"
    using st p fits push idx
    by (simp add: rcv_data_part_def rcv_cut_def not_less [symmetric] bs_bytes_written_def rcv_stream_out_def)
  ultimately show ?thesis using that i(1,5) neat' held' least bcap by blast
qed

section \<open>Properties\<close>

text \<open>
  C8. Safety of the receiver. Segments of a stream \<open>S\<close> arrive in any order, any number of times,
  close enough to the acknowledgment number to be unambiguous, FIN not before SYN, with reads in
  between. Then what was read together with what is readable is a prefix of \<open>S\<close>; once SYN has
  arrived the acknowledgment number counts SYN and exactly those bytes, and it covers FIN only when
  all of \<open>S\<close> is there. If no FIN segment reaches past the window, the stream ends only when complete.
\<close>

theorem receiver_safety:
  assumes "length S < 2 ^ 64 - 3" and "reach (\<lambda>s. s = (rcv_new c, [])) (rcv_step strict isn S) (r, del)"
  defines "got \<equiv> del @ bs_buf (rcv_stream_out r)"
  shows "got = take (length got) S \<and>
    (rcv_received_syn r \<longrightarrow>
       rcv_ackno r = Some (wrap (of_nat (length got + 1)) isn) \<or>
       rcv_ackno r = Some (wrap (of_nat (length S + 2)) isn) \<and> got = S) \<and>
    (strict \<longrightarrow> bs_is_end (rcv_stream_out r) \<longrightarrow> got = S)"
proof -
  have run: "rcv_inv isn S del r" "strict \<Longrightarrow> sr_ended S (rcv_reassembler r)"
    using rcv.inv_reach [OF assms(2)] assms(1) by (auto simp: rcv_run_inv_def)
  have good: "sr_good S del (rcv_reassembler r)" using run(1) by (simp add: rcv_inv_def)
  then have st: "got @ sr_assemBuf (rcv_reassembler r) = take (unat (sr_expectIdx (rcv_reassembler r))) S"
    by (simp add: sr_good_def sr_stream_def got_def rcv_stream_out_def)
  then have "got = take (length got) S" by (metis append_eq_conv_conj append_take_drop_id append.assoc)
  moreover have "got = S" if "strict" "bs_is_end (rcv_stream_out r)"
    using run(2) [OF that(1)] that(2) st by (simp add: sr_ended_def rcv_stream_out_def)
  moreover have "rcv_ackno r = Some (wrap (of_nat (length got + 1)) isn) \<or>
      rcv_ackno r = Some (wrap (of_nat (length S + 2)) isn) \<and> got = S" if "rcv_received_syn r"
    using run(1) that unfolding rcv_inv_def rcv_ackno_def got_def by auto
  ultimately show ?thesis by blast
qed

definition rcv_demo_syn :: TCPSegment where
  "rcv_demo_syn = ts_default\<lparr>ts_header := th_default\<lparr>th_seqno := WrappingInt32 4294967295, th_syn := True\<rparr>\<rparr>"

definition rcv_demo_data :: TCPSegment where
  "rcv_demo_data = \<lparr>ts_header = th_default\<lparr>th_seqno := WrappingInt32 0, th_fin := True\<rparr>, ts_payload = [10, 20, 30]\<rparr>"

definition rcv_demo1 :: TCPReceiver where
  "rcv_demo1 = (rcv_new 8)\<lparr>rcv_state := 1, rcv_isn := WrappingInt32 4294967295, rcv_ack_no_64 := 1, rcv_received_syn := True\<rparr>"

definition rcv_demo :: TCPReceiver where
  "rcv_demo = \<lparr>rcv_reassembler = \<lparr>sr_output = \<lparr>bs_cap = 8, bs_is_end = True, bs_total_bytes_written = 3,
       bs_total_bytes_read = 0, bs_buf = [10, 20, 30], bs_err = False\<rparr>, sr_capacity = 8, sr_unassemBuf = [],
       sr_assemBuf = [], sr_expectIdx = 3, sr_unassemSize = 0, sr_eofIndex = 3\<rparr>,
     rcv_capacity = 8, rcv_state = 2, rcv_window_size_field = 8, rcv_isn = WrappingInt32 4294967295, rcv_ack_no_64 = 5,
     rcv_last_no = 5, rcv_received_syn = True, rcv_received_fin = True\<rparr>"

lemma rcv_demo_run:
  "rcv_segment_received rcv_demo_syn (rcv_new 8) = Inr rcv_demo1" "rcv_segment_received rcv_demo_data rcv_demo1 = Inr rcv_demo"
  by code_simp+

lemma rcv_demo_reach:
  "reach (\<lambda>s. s = (rcv_new 8, [])) (rcv_step True (WrappingInt32 4294967295) [10, 20, 30]) (rcv_demo, [])"
proof -
  have "rcv_step True (WrappingInt32 4294967295) [10, 20, 30] (rcv_new 8, []) (rcv_demo1, [])"
  proof (rule rcv_step.arrive [where a = 0, OF _ _ _ _ rcv_demo_run(1)])
    show "rcv_timely 0 rcv_demo_syn (rcv_new 8)"
      by (simp add: rcv_timely_def rcv_syn_part_def rcv_new_def rcv_demo_syn_def ts_default_def th_default_def unwrap_self near_def)
  qed (simp_all add: seg_of_def rcv_demo_syn_def ts_default_def th_default_def)
  moreover have "rcv_step True (WrappingInt32 4294967295) [10, 20, 30] (rcv_demo1, []) (rcv_demo, [])"
  proof (rule rcv_step.arrive [where a = 1, OF _ _ _ _ rcv_demo_run(2)])
    have "rcv_received_syn rcv_demo1" "rcv_ack_no_64 rcv_demo1 = 1" by code_simp+
    then show "rcv_timely 1 rcv_demo_data rcv_demo1"
      by (simp add: rcv_timely_def rcv_syn_part_def rcv_demo_data_def near_def)
    show "rcv_fits 1 rcv_demo_data rcv_demo1" by code_simp
    show "seg_of (WrappingInt32 4294967295) [10, 20, 30] 1 rcv_demo_data"
      by (simp add: seg_of_def rcv_demo_data_def seg_len_def piece_def) code_simp
    show "rcv_received_syn rcv_demo1 \<or> th_syn (ts_header rcv_demo_data)" by code_simp
  qed
  ultimately show ?thesis by (auto intro: reach_step [OF reach_step [OF reach_init]])
qed

theorem receiver_safety_witness:
  "bs_is_end (rcv_stream_out rcv_demo) \<and> bs_buf (rcv_stream_out rcv_demo) = [10, 20, 30]"
proof -
  have "bs_is_end (rcv_stream_out rcv_demo)" by code_simp
  moreover have "length [10, 20, 30 :: u8] < 2 ^ 64 - 3" by simp
  note receiver_safety [OF this rcv_demo_reach, THEN conjunct2, THEN conjunct2]
  ultimately show ?thesis by simp
qed

text \<open>
  C9. Acceptance. With tidy buffers, a data segment that lies inside the advertised window is taken
  completely: afterwards its bytes are held together with all that was held before, nothing beyond
  the window is held, and the acknowledgment number is the first one not held.
\<close>

theorem receiver_accepts_window:
  assumes inv: "rcv_inv isn S del r" and tidy: "rcv_tidy del r" and syn: "rcv_received_syn r" and "\<not> rcv_received_fin r"
    and seg: "seg_of isn S a seg" and near: "near (of_nat a) (rcv_ack_no_64 r)" and p: "ts_payload seg \<noteq> []"
    and flags: "\<not> th_syn (ts_header seg)" "\<not> th_fin (ts_header seg)"
    and win: "a + length (ts_payload seg) \<le> unat (rcv_ack_no_64 r) + unat (rcv_window_size r)"
    and small: "length S + unat (rcv_capacity r) < 2 ^ 64 - 3"
  shows "\<exists>r'. rcv_segment_received seg r = Inr r' \<and> rcv_inv isn S del r' \<and>
    sr_held (rcv_reassembler r') = sr_held (rcv_reassembler r) \<union> {a - 1 ..< a - 1 + length (ts_payload seg)} \<and>
    (bs_is_end (rcv_stream_out r') \<or> rcv_tidy del r') \<and>
    unat (rcv_ack_no_64 r') = Suc (LEAST n. n \<notin> sr_held (rcv_reassembler r'))"
proof -
  let ?b = "length (bs_buf (rcv_stream_out r))" and ?c = "unat (rcv_capacity r)"
  have S: "length S < 2 ^ 64 - 3" using small by simp
  have good: "sr_good S del (rcv_reassembler r)" using inv by (simp add: rcv_inv_def)
  have len: "length del + ?b \<le> length S" using sr_good_len [OF good] by (simp add: rcv_stream_out_def)
  have ack: "rcv_ack_no_64 r = of_nat (length del + ?b + 1)" using inv syn assms(4) by (simp add: rcv_inv_def)
  have ackn: "unat (rcv_ack_no_64 r) = length del + ?b + 1" unfolding ack using len S by (intro unat_of_nat_small) simp
  have w: "rcv_window_size r = rcv_capacity r - of_nat ?b" "?b \<le> ?c" using rcv_window_nat [OF inv tidy] by auto
  then have wn: "unat (rcv_window_size r) = ?c - ?b" using len S
    by (simp add: unat_sub_nowrap word_le_nat_alt unat_of_nat_small)
  have bound: "a + length (ts_payload seg) \<le> length del + ?c + 1" using win ackn wn w(2) by linarith
  have a0: "0 < a" using seg p flags by (simp add: seg_of_def)
  have "unat (of_nat a + length_in_sequence_space seg) \<le> unat (rcv_ack_no_64 r + rcv_window_size r)"
  proof -
    have "of_nat a + length_in_sequence_space seg = of_nat (a + length (ts_payload seg))"
      using flags by (simp add: length_in_sequence_space_def)
    moreover have "unat (of_nat (a + length (ts_payload seg)) :: u64) = a + length (ts_payload seg)"
      using bound len small by (intro unat_of_nat_small) linarith
    moreover have "unat (rcv_ack_no_64 r + rcv_window_size r) = unat (rcv_ack_no_64 r) + unat (rcv_window_size r)"
      using ackn wn w(2) len small by (intro unat_add_nowrap) linarith
    ultimately show ?thesis using win by simp
  qed
  then have fits: "of_nat a + length_in_sequence_space seg \<le> rcv_ack_no_64 r + rcv_window_size r" by (simp add: word_le_nat_alt)
  have edge: "a - 1 + length (ts_payload seg) \<le> length del + ?c" using bound a0 by linarith
  obtain re where re: "rcv_data_part seg r = Inr (r\<lparr>rcv_reassembler := re, rcv_ack_no_64 := rcv_ack_no_64 r +
       (bs_total_bytes_written (sr_output re) - bs_total_bytes_written (rcv_stream_out r))\<rparr>)"
    "sr_good S del re" "sr_neat re" "sr_assemBuf re = []"
    "sr_held re = sr_held (rcv_reassembler r) \<union> {a - 1 ..< a - 1 + length (ts_payload seg)}"
    "unat (sr_expectIdx re) = (LEAST n. n \<notin> sr_held re)"
    "sr_capacity re = sr_capacity (rcv_reassembler r)" "bs_cap (sr_output re) = bs_cap (rcv_stream_out r)"
    by (rule rcv_data_accepts [OF inv tidy syn seg near p fits edge])
  define r' where "r' = r\<lparr>rcv_reassembler := re, rcv_ack_no_64 := rcv_ack_no_64 r +
       (bs_total_bytes_written (sr_output re) - bs_total_bytes_written (rcv_stream_out r))\<rparr>"
  have inv': "rcv_inv isn S del r'" using rcv_data_inv [OF inv seg near S] re(1) r'_def by blast
  have "rcv_segment_received seg r = Inr r'"
    using syn assms(4) flags re(1) by (simp add: rcv_segment_received_def rcv_syn_part_def rcv_fin_part_def r'_def)
  moreover have "bs_is_end (rcv_stream_out r') \<or> rcv_tidy del r'"
    using re(3,5,7,8) tidy edge by (auto simp: rcv_tidy_def r'_def rcv_stream_out_def)
  moreover have "unat (rcv_ack_no_64 r') = Suc (LEAST n. n \<notin> sr_held (rcv_reassembler r'))"
  proof -
    have "length (sr_stream del re) = unat (sr_expectIdx re)" using re(2) by (simp add: sr_good_def sr_inv_def)
    then have e: "length (del @ bs_buf (sr_output re)) = unat (sr_expectIdx re)" using re(4) by (simp add: sr_stream_def)
    have "rcv_ack_no_64 r' = of_nat (length (del @ bs_buf (rcv_stream_out r')) + 1)"
      using inv' syn assms(4) by (simp add: rcv_inv_def r'_def)
    moreover have "bs_buf (rcv_stream_out r') = bs_buf (sr_output re)" by (simp add: r'_def rcv_stream_out_def)
    ultimately have "rcv_ack_no_64 r' = of_nat (unat (sr_expectIdx re) + 1)" by (simp only: e)
    moreover have "unat (of_nat (unat (sr_expectIdx re) + 1) :: u64) = unat (sr_expectIdx re) + 1"
      using sr_good_len [OF re(2)] e S by (intro unat_of_nat_small) linarith
    ultimately show ?thesis using re(6) by (simp add: r'_def)
  qed
  ultimately show ?thesis using inv' re(5) by (auto simp: r'_def)
qed

definition rcv_demo_data2 :: TCPSegment where
  "rcv_demo_data2 = \<lparr>ts_header = th_default\<lparr>th_seqno := WrappingInt32 1\<rparr>, ts_payload = [20]\<rparr>"

lemma rcv_demo1_inv: "rcv_inv (WrappingInt32 4294967295) [10, 20, 30] [] rcv_demo1"
  by (simp add: rcv_inv_def rcv_demo1_def rcv_new_def sr_good_new rcv_stream_out_def) (simp add: sr_new_def bs_new_def)

theorem receiver_accepts_witness:
  "\<exists>r'. rcv_segment_received rcv_demo_data2 rcv_demo1 = Inr r' \<and>
     sr_held (rcv_reassembler r') = sr_held (rcv_reassembler rcv_demo1) \<union> {1 ..< 2}"
proof -
  have s: "rcv_tidy [] rcv_demo1" "rcv_received_syn rcv_demo1" "\<not> rcv_received_fin rcv_demo1"
    "rcv_ack_no_64 rcv_demo1 = 1" "rcv_window_size rcv_demo1 = 8" "rcv_capacity rcv_demo1 = 8"
    by (auto simp: rcv_tidy_def rcv_demo1_def rcv_new_def sr_neat_def sr_held_def rcv_stream_out_def sr_new_def bs_new_def
        rcv_window_size_def bs_bytes_not_read_def bs_remaining_capacity_def)
  have "seg_of (WrappingInt32 4294967295) [10, 20, 30] 2 rcv_demo_data2"
    by (simp add: seg_of_def rcv_demo_data2_def seg_len_def piece_def th_default_def) code_simp
  from receiver_accepts_window [OF rcv_demo1_inv s(1-3) this] show ?thesis
    by (auto simp: s rcv_demo_data2_def th_default_def near_def)
qed





end
