(* ===== verification/Tcp_Sender.thy ===== *)
theory Tcp_Sender
  imports Tcp_Segment
begin

text \<open>
  Models \<^verbatim>\<open>libsponge/tcp_sender.hh\<close> and \<^verbatim>\<open>tcp_sender.cc\<close>: the retransmission timer and the sender. The loop
  of \<open>fill_window\<close> is a recursion with a termination proof; a shift of the timeout by 64 or
  more, undefined in C++, is an error value. The random initial sequence number is an
  argument of the constructor.
\<close>

section \<open>Timer\<close>

record Timer =
  tm_rto :: u64
  tm_initial_rto :: u64
  tm_time_pass :: u64
  tm_fail_count :: u16
  tm_running :: bool
  tm_retransmission_timeout_shift :: u32

definition tm_new :: "u64 \<Rightarrow> Timer" where
  "tm_new init_rto =
     \<lparr>tm_rto = init_rto, tm_initial_rto = init_rto, tm_time_pass = 0, tm_fail_count = 0, tm_running = False,
      tm_retransmission_timeout_shift = 0\<rparr>"

definition tm_pass :: "u64 \<Rightarrow> Timer \<Rightarrow> Timer" where
  "tm_pass ms t = (if \<not> tm_running t then t else t\<lparr>tm_time_pass := tm_time_pass t + ms\<rparr>)"

definition tm_reset :: "Timer \<Rightarrow> Timer" where
  "tm_reset t = t\<lparr>tm_time_pass := 0, tm_fail_count := 0, tm_retransmission_timeout_shift := 0, tm_rto := tm_initial_rto t\<rparr>"

definition tm_stop :: "Timer \<Rightarrow> Timer" where
  "tm_stop t = (tm_reset t)\<lparr>tm_running := False\<rparr>"

definition tm_start :: "Timer \<Rightarrow> Timer" where
  "tm_start t = t\<lparr>tm_running := True\<rparr>"

definition tm_is_expire :: "Timer \<Rightarrow> bool" where
  "tm_is_expire t = (tm_time_pass t \<ge> tm_rto t)"

definition tm_double_rto :: "Timer \<Rightarrow> Timer res" where
  "tm_double_rto t =
     (let shift = tm_retransmission_timeout_shift t + 1
      in if unat shift < 64
         then Inr (t\<lparr>tm_fail_count := tm_fail_count t + 1, tm_time_pass := 0, tm_retransmission_timeout_shift := shift,
                     tm_rto := push_bit (unat shift) (tm_initial_rto t)\<rparr>)
         else Inl UB)"

definition tm_reset_rto :: "Timer \<Rightarrow> Timer" where
  "tm_reset_rto t = t\<lparr>tm_retransmission_timeout_shift := 0, tm_rto := tm_initial_rto t, tm_time_pass := 0\<rparr>"

section \<open>Sender\<close>

record TCPSender =
  snd_isn :: WrappingInt32
  snd_segments_out :: "TCPSegment list"
  snd_initial_retransmission_timeout :: u32
  snd_stream :: ByteStream
  snd_next_seqno :: u64
  snd_acked_next :: u64
  snd_timer :: Timer
  snd_outstanding_buffer :: "TCPSegment list"
  snd_peer_window_size :: u16
  snd_received_window_size :: u64
  snd_syn_sent :: bool
  snd_fin_sent :: bool
  snd_bytes_in_flight :: u64

definition snd_new :: "u64 \<Rightarrow> u16 \<Rightarrow> WrappingInt32 option \<Rightarrow> u32 \<Rightarrow> TCPSender" where
  "snd_new capacity retx_timeout fixed_isn random =
     \<lparr>snd_isn = (case fixed_isn of Some i \<Rightarrow> i | None \<Rightarrow> WrappingInt32 random), snd_segments_out = [],
      snd_initial_retransmission_timeout = ucast retx_timeout, snd_stream = bs_new capacity,
      snd_next_seqno = 0, snd_acked_next = 0, snd_timer = tm_new (ucast (ucast retx_timeout :: u32)),
      snd_outstanding_buffer = [], snd_peer_window_size = 1, snd_received_window_size = 1,
      snd_syn_sent = False, snd_fin_sent = False, snd_bytes_in_flight = 0\<rparr>"

definition get_data :: "ByteStream \<Rightarrow> u64 \<Rightarrow> ByteStream \<times> bytes" where
  "get_data byteStream limit =
     (let available_str = bs_peek_output limit byteStream;
          available_length = min (of_nat (length available_str)) limit;
          real_data = take (unat available_length) available_str
      in (bs_pop_output available_length byteStream, real_data))"

text \<open>The condition of the loop, with what it takes from the stream; \<open>None\<close> leaves the loop.\<close>

definition snd_fill_cond :: "TCPSender \<Rightarrow> TCPSender \<times> bytes option" where
  "snd_fill_cond s =
     (if \<not> snd_fin_sent s \<and> bs_eof (snd_stream s) \<or> \<not> snd_syn_sent s then (s, Some [])
      else let (st, data) = get_data (snd_stream s) (ucast (min (ucast MAX_PAYLOAD_SIZE) (snd_peer_window_size s)))
           in (s\<lparr>snd_stream := st\<rparr>, if data \<noteq> [] then Some data else None))"

text \<open>The segment the body builds, before and after FIN is withdrawn because it does not fit.\<close>

definition snd_fill_seg :: "bytes \<Rightarrow> TCPSender \<Rightarrow> TCPSegment" where
  "snd_fill_seg data s =
     \<lparr>ts_header = th_default\<lparr>th_seqno := wrap (snd_next_seqno s) (snd_isn s), th_syn := \<not> snd_syn_sent s,
                             th_fin := bs_eof (snd_stream s)\<rparr>,
      ts_payload = data\<rparr>"

definition snd_fill_too_long :: "bytes \<Rightarrow> TCPSender \<Rightarrow> bool" where
  "snd_fill_too_long data s = (length_in_sequence_space (snd_fill_seg data s) > ucast (snd_peer_window_size s))"

definition snd_fill_cut :: "bytes \<Rightarrow> TCPSender \<Rightarrow> TCPSegment" where
  "snd_fill_cut data s =
     (let seg = snd_fill_seg data s
      in if snd_fill_too_long data s then seg\<lparr>ts_header := (ts_header seg)\<lparr>th_fin := False\<rparr>\<rparr> else seg)"

text \<open>A segment goes out: the counters, the window, the timer and the outstanding segments.\<close>

definition snd_fill_send :: "TCPSegment \<Rightarrow> TCPSender \<Rightarrow> TCPSender" where
  "snd_fill_send seg s =
     (let len_in_seq_space = length_in_sequence_space seg
      in s\<lparr>snd_segments_out := snd_segments_out s @ [seg],
           snd_next_seqno := snd_next_seqno s + len_in_seq_space,
           snd_bytes_in_flight := snd_bytes_in_flight s + len_in_seq_space,
           snd_peer_window_size :=
             (if ucast (snd_peer_window_size s) \<ge> len_in_seq_space
              then snd_peer_window_size s - ucast len_in_seq_space else 0),
           snd_timer := (if \<not> tm_running (snd_timer s) then tm_start (snd_timer s) else snd_timer s),
           snd_outstanding_buffer := snd_outstanding_buffer s @ [seg]\<rparr>)"

text \<open>The body of the loop; the flag says whether the loop goes on.\<close>

definition snd_fill_body :: "bytes \<Rightarrow> TCPSender \<Rightarrow> TCPSender \<times> bool" where
  "snd_fill_body data s =
     (let too_long = snd_fill_too_long data s;
          seg = snd_fill_cut data s;
          s2 = s\<lparr>snd_syn_sent := True,
                 snd_fin_sent := (if too_long then False else if bs_eof (snd_stream s) then True else snd_fin_sent s)\<rparr>
      in if length_in_sequence_space seg = 0 then (s2, False) else (snd_fill_send seg s2, \<not> too_long))"

definition snd_fill_measure :: "TCPSender \<Rightarrow> nat" where
  "snd_fill_measure s = (if snd_syn_sent s then 0 else 1) + (if snd_fin_sent s then 0 else 1) + length (bs_buf (snd_stream s))"

lemma get_data_eq: "get_data st n = (bs_pop_output n st, take (unat n) (bs_buf st))"
proof -
  define k where "k = min (length (bs_buf st)) (unat n)"
  have kn: "k \<le> unat n" by (simp add: k_def)
  then have "k < 2 ^ 64" using le_less_trans [OF kn unat_lt_64] by simp
  then have k: "unat (of_nat k :: u64) = k" by (rule unat_of_nat_small)
  have m: "min (of_nat k) n = (of_nat k :: u64)" using kn k by (simp add: min_def word_le_nat_alt)
  have "bs_pop_output (of_nat k) st = bs_pop_output n st" 
    by (simp add: bs_pop_output_eq k) (simp add: k_def min_def)
  moreover have "take k (take (unat n) (bs_buf st)) = take (unat n) (bs_buf st)" by (simp add: k_def min_def)
  ultimately show ?thesis
    by (simp add: get_data_def Let_def bs_peek_output_eq m k flip: k_def)
qed

lemma snd_fill_send_frame [simp]:
  "snd_stream (snd_fill_send seg s) = snd_stream s" "snd_syn_sent (snd_fill_send seg s) = snd_syn_sent s"
  "snd_fin_sent (snd_fill_send seg s) = snd_fin_sent s" "snd_isn (snd_fill_send seg s) = snd_isn s"
  by (simp_all add: snd_fill_send_def Let_def)

lemma snd_fill_body_frame:
  assumes "snd_fill_body data s = (s', go)"
  shows "snd_stream s' = snd_stream s" and "snd_syn_sent s'" and "snd_isn s' = snd_isn s"
    and "snd_fin_sent s' = (if snd_fill_too_long data s then False else if bs_eof (snd_stream s) then True else snd_fin_sent s)"
    and "go \<Longrightarrow> \<not> snd_fill_too_long data s"
  using assms by (auto simp: snd_fill_body_def Let_def split: if_splits)

lemma snd_fill_decreases:
  assumes cond: "snd_fill_cond s = (s1, Some data)" and body: "snd_fill_body data s1 = (s2, True)"
  shows "snd_fill_measure s2 < snd_fill_measure s"
proof (cases "\<not> snd_fin_sent s \<and> bs_eof (snd_stream s) \<or> \<not> snd_syn_sent s")
  case True
  then have "s1 = s" using cond by (simp add: snd_fill_cond_def)
  then show ?thesis using snd_fill_body_frame [OF body] True by (auto simp: snd_fill_measure_def)
next
  case False
  let ?n = "ucast (min (ucast MAX_PAYLOAD_SIZE) (snd_peer_window_size s)) :: u64"
  have d: "s1 = s\<lparr>snd_stream := bs_pop_output ?n (snd_stream s)\<rparr>" "take (unat ?n) (bs_buf (snd_stream s)) \<noteq> []"
    using cond False by (auto simp: snd_fill_cond_def get_data_eq split: if_splits)
  then have "length (bs_buf (snd_stream s1)) < length (bs_buf (snd_stream s))"
    by (auto simp: bs_pop_output_eq)
  then show ?thesis using snd_fill_body_frame [OF body] d(1) by (auto simp: snd_fill_measure_def)
qed

function snd_fill_window :: "TCPSender \<Rightarrow> TCPSender" where
  "snd_fill_window s =
     (case snd_fill_cond s of
        (s1, None) \<Rightarrow> s1
      | (s1, Some data) \<Rightarrow>
          (case snd_fill_body data s1 of (s2, go) \<Rightarrow> if go then snd_fill_window s2 else s2))"
  by pat_completeness auto
termination
  by (relation "measure snd_fill_measure") (auto intro: snd_fill_decreases dest: sym)

declare snd_fill_window.simps [simp del]

text \<open>The loop that drops acknowledged segments; the flag is \<open>new_data\<close>.\<close>

fun snd_ack_loop :: "WrappingInt32 \<Rightarrow> u64 \<Rightarrow> TCPSegment list \<Rightarrow> u64 \<Rightarrow> u64 \<Rightarrow> bool \<Rightarrow> TCPSegment list \<times> u64 \<times> u64 \<times> bool" where
  "snd_ack_loop isn abs_ackno [] acked_next bytes_in_flight new_data = ([], acked_next, bytes_in_flight, new_data)"
| "snd_ack_loop isn abs_ackno (head_seg # segs) acked_next bytes_in_flight new_data =
     (let length_in_seq = length_in_sequence_space head_seg;
          head_seg_seqno = unwrap (th_seqno (ts_header head_seg)) isn acked_next
      in if abs_ackno > head_seg_seqno
         then if abs_ackno - head_seg_seqno \<ge> length_in_seq
              then snd_ack_loop isn abs_ackno segs (acked_next + length_in_seq) (bytes_in_flight - length_in_seq) True
              else (head_seg # segs, acked_next, bytes_in_flight, True)
         else (head_seg # segs, acked_next, bytes_in_flight, new_data))"

definition snd_ack_received :: "WrappingInt32 \<Rightarrow> u16 \<Rightarrow> TCPSender \<Rightarrow> TCPSender" where
  "snd_ack_received ackno window_size s =
     (let window_size_copy = (if window_size = 0 then 1 else window_size);
          s1 = s\<lparr>snd_received_window_size := ucast window_size\<rparr>;
          abs_ackno = unwrap ackno (snd_isn s1) (snd_acked_next s1)
      in if abs_ackno > snd_next_seqno s1 then s1
         else let (out, acked, inflight, new_data) =
                    snd_ack_loop (snd_isn s1) abs_ackno (snd_outstanding_buffer s1) (snd_acked_next s1) (snd_bytes_in_flight s1) False;
                  s2 = s1\<lparr>snd_outstanding_buffer := out, snd_acked_next := acked, snd_bytes_in_flight := inflight,
                          snd_peer_window_size :=
                            (if ucast window_size_copy > inflight then ucast (ucast window_size_copy - inflight) else 0)\<rparr>;
                  t1 = (if snd_outstanding_buffer s2 = [] then tm_stop (snd_timer s2) else snd_timer s2);
                  t2 = (if new_data then tm_reset t1 else t1)
              in snd_fill_window (s2\<lparr>snd_timer := t2\<rparr>))"

definition snd_tick :: "u64 \<Rightarrow> TCPSender \<Rightarrow> TCPSender res" where
  "snd_tick ms_since_last_tick s =
     (let t = tm_pass ms_since_last_tick (snd_timer s)
      in if tm_is_expire t
         then bindE (if snd_received_window_size s \<noteq> 0 then tm_double_rto t else Inr (tm_reset_rto t))
                (\<lambda>t'. Inr (s\<lparr>snd_timer := t',
                             snd_segments_out := (case snd_outstanding_buffer s of
                                                    [] \<Rightarrow> snd_segments_out s
                                                  | seg # segs \<Rightarrow> snd_segments_out s @ [seg])\<rparr>))
         else Inr (s\<lparr>snd_timer := t\<rparr>))"

definition snd_consecutive_retransmissions :: "TCPSender \<Rightarrow> u32" where
  "snd_consecutive_retransmissions s = ucast (tm_fail_count (snd_timer s))"

definition snd_fail_count :: "TCPSender \<Rightarrow> u64" where
  "snd_fail_count s = ucast (tm_fail_count (snd_timer s))"

definition snd_send_empty_segment :: "TCPSender \<Rightarrow> TCPSender" where
  "snd_send_empty_segment s =
     s\<lparr>snd_segments_out := snd_segments_out s @
        [ts_default\<lparr>ts_header := th_default\<lparr>th_seqno := wrap (snd_next_seqno s) (snd_isn s)\<rparr>\<rparr>]\<rparr>"

definition snd_next_seqno_rel :: "TCPSender \<Rightarrow> WrappingInt32" where
  "snd_next_seqno_rel s = wrap (snd_next_seqno s) (snd_isn s)"

end
