(* ===== verification/Sender_Correct.thy ===== *)
theory Sender_Correct
  imports Tcp_Sender
begin

text \<open>
  Correctness of the sender of \<^verbatim>\<open>tcp_sender.cc\<close>. \<open>S\<close> is the stream the application has written so far. The
  invariant says that everything the sender emits is a segment of \<open>S\<close>, that the outstanding segments are a
  gapless chain from the last acknowledged number to the next one, and that the counters agree
  with it. It is kept by every operation, in any order.
\<close>

section \<open>Specification\<close>

text \<open>Segments that follow each other without gap from \<open>a\<close> to \<open>b\<close>.\<close>

fun snd_chain :: "WrappingInt32 \<Rightarrow> bytes \<Rightarrow> nat \<Rightarrow> TCPSegment list \<Rightarrow> nat \<Rightarrow> bool" where
  "snd_chain isn S a [] b \<longleftrightarrow> a = b"
| "snd_chain isn S a (seg # segs) b \<longleftrightarrow> seg_of isn S a seg \<and> 0 < seg_len seg \<and> snd_chain isn S (a + seg_len seg) segs b"

definition snd_flag :: "bool \<Rightarrow> nat" where
  "snd_flag b = (if b then 1 else 0)"

text \<open>A segment of the part of \<open>S\<close> that has been sent.\<close>

definition snd_emitted :: "WrappingInt32 \<Rightarrow> bytes \<Rightarrow> nat \<Rightarrow> TCPSegment \<Rightarrow> bool" where
  "snd_emitted isn S n seg \<longleftrightarrow> (\<exists>a. seg_of isn S a seg \<and> a + seg_len seg \<le> n) \<and> length (ts_payload seg) \<le> 1000"

text \<open>
  The invariant, with the bytes \<open>pend\<close> that have left the stream but are not yet in a segment, and
  the segments \<open>hist\<close> that have been handed on.
\<close>

definition snd_invp :: "bytes \<Rightarrow> bytes \<Rightarrow> TCPSegment list \<Rightarrow> TCPSender \<Rightarrow> bool" where
  "snd_invp pend S hist s \<longleftrightarrow>
     length S < 2 ^ 64 - 3 \<and> bs_inv (snd_stream s) \<and>
     (\<exists>sent. S = sent @ pend @ bs_buf (snd_stream s) \<and>
        unat (snd_next_seqno s) = snd_flag (snd_syn_sent s) + length sent + snd_flag (snd_fin_sent s) \<and>
        (\<not> snd_syn_sent s \<longrightarrow> sent = [] \<and> pend = [])) \<and>
     (\<not> snd_syn_sent s \<longrightarrow> \<not> snd_fin_sent s \<and> 0 < snd_peer_window_size s) \<and>
     (snd_fin_sent s \<longrightarrow> pend = [] \<and> bs_eof (snd_stream s)) \<and>
     snd_chain (snd_isn s) S (unat (snd_acked_next s)) (snd_outstanding_buffer s) (unat (snd_next_seqno s)) \<and>
     snd_bytes_in_flight s = snd_next_seqno s - snd_acked_next s \<and>
     (\<forall>seg \<in> set (hist @ snd_segments_out s @ snd_outstanding_buffer s).
        snd_emitted (snd_isn s) S (unat (snd_next_seqno s)) seg)"

abbreviation snd_inv :: "bytes \<Rightarrow> TCPSegment list \<Rightarrow> TCPSender \<Rightarrow> bool" where
  "snd_inv \<equiv> snd_invp []"

section \<open>Chains\<close>

lemma snd_chain_le: "snd_chain isn S a segs b \<Longrightarrow> a \<le> b"
  by (induction segs arbitrary: a) fastforce+

lemma snd_chain_append:
  "snd_chain isn S a (segs @ segs') c \<longleftrightarrow> (\<exists>b. snd_chain isn S a segs b \<and> snd_chain isn S b segs' c)"
  by (induction segs arbitrary: a) auto

lemma snd_chain_sum: "snd_chain isn S a segs b \<Longrightarrow> b = a + sum_list (map seg_len segs)"
  by (induction segs arbitrary: a) (fastforce simp: add.assoc)+

text \<open>The stream grows: what carries no FIN stays a segment of it.\<close>

lemma piece_grow: "i + n \<le> length S \<Longrightarrow> piece (S @ T) i n = piece S i n"
  by (simp add: piece_def)

lemma seg_of_grow: "seg_of isn S a seg \<Longrightarrow> \<not> th_fin (ts_header seg) \<Longrightarrow> seg_of isn (S @ T) a seg"
  by (auto simp: seg_of_def piece_def)

lemma snd_emitted_mono: "snd_emitted isn S n seg \<Longrightarrow> n \<le> m \<Longrightarrow> snd_emitted isn S m seg"
  by (auto simp: snd_emitted_def intro: order_trans)

lemma snd_chain_no_fin:
  "snd_chain isn S a segs b \<Longrightarrow> b < length S + 2 \<Longrightarrow> \<forall>seg \<in> set segs. \<not> th_fin (ts_header seg)"
proof (induction segs arbitrary: a)
  case (Cons seg segs)
  then have "a + seg_len seg \<le> b" using snd_chain_le by fastforce
  then show ?case using Cons by (auto simp: seg_of_def)
qed simp

lemma snd_chain_grow:
  "snd_chain isn S a segs b \<Longrightarrow> \<forall>seg \<in> set segs. \<not> th_fin (ts_header seg) \<Longrightarrow> snd_chain isn (S @ T) a segs b"
  by (induction segs arbitrary: a) (auto simp: seg_of_grow)

section \<open>The loop of \<open>fill_window\<close>\<close>

lemma snd_peer_limit: "unat (min (ucast MAX_PAYLOAD_SIZE) w :: u16) = min 1000 (unat w)"
  by (simp add: MAX_PAYLOAD_SIZE_def min_def word_le_nat_alt)

lemma snd_fill_cond_spec:
  assumes "snd_fill_cond s = (s1, d)"
  shows "(if \<not> snd_fin_sent s \<and> bs_eof (snd_stream s) \<or> \<not> snd_syn_sent s then s1 = s \<and> d = Some []
     else let data = take (min 1000 (unat (snd_peer_window_size s))) (bs_buf (snd_stream s))
       in s1 = s\<lparr>snd_stream := snd_stream s1\<rparr> \<and> bs_buf (snd_stream s) = data @ bs_buf (snd_stream s1) \<and>
          bs_is_end (snd_stream s1) = bs_is_end (snd_stream s) \<and> (bs_inv (snd_stream s) \<longrightarrow> bs_inv (snd_stream s1)) \<and>
          d = (if data = [] then None else Some data))"
proof (cases "\<not> snd_fin_sent s \<and> bs_eof (snd_stream s) \<or> \<not> snd_syn_sent s")
  case False
  define n where "n = (ucast (min (ucast MAX_PAYLOAD_SIZE) (snd_peer_window_size s)) :: u64)"
  have n: "unat n = min 1000 (unat (snd_peer_window_size s))" unfolding n_def by (simp add: snd_peer_limit)
  have "s1 = s\<lparr>snd_stream := bs_pop_output n (snd_stream s)\<rparr>"
    "d = (if take (unat n) (bs_buf (snd_stream s)) \<noteq> [] then Some (take (unat n) (bs_buf (snd_stream s))) else None)"
    using assms False unfolding snd_fill_cond_def n_def [symmetric] get_data_eq by auto
  then show ?thesis using False bs_inv_pop unfolding Let_def n [symmetric] by (auto simp: bs_pop_output_eq)
qed (use assms in \<open>simp add: snd_fill_cond_def\<close>)

lemma seg_len_fill: "seg_len (snd_fill_seg data s) = length data + snd_flag (\<not> snd_syn_sent s) + snd_flag (bs_eof (snd_stream s))"
  by (simp add: seg_len_def snd_fill_seg_def snd_flag_def th_default_def)

lemma seg_len_cut:
  "seg_len (snd_fill_cut data s) =
     length data + snd_flag (\<not> snd_syn_sent s) + snd_flag (bs_eof (snd_stream s) \<and> \<not> snd_fill_too_long data s)"
  by (simp add: seg_len_def snd_fill_cut_def snd_fill_seg_def snd_flag_def th_default_def Let_def)

lemma snd_fill_too_long_iff:
  "length data \<le> 1000 \<Longrightarrow> snd_fill_too_long data s \<longleftrightarrow> unat (snd_peer_window_size s) < seg_len (snd_fill_seg data s)"
proof -
  assume "length data \<le> 1000"
  then have "seg_len (snd_fill_seg data s) < 2 ^ 64" by (simp add: seg_len_fill snd_flag_def)
  then show ?thesis
    by (simp add: snd_fill_too_long_def word_less_nat_alt unat_length_in_sequence_space unat_ucast_16_64)
qed

text \<open>What holds when the body starts: the data fits in the window.\<close>

definition snd_ready :: "bytes \<Rightarrow> TCPSender \<Rightarrow> bool" where
  "snd_ready data s \<longleftrightarrow> length data \<le> 1000 \<and> length data \<le> unat (snd_peer_window_size s) \<and> \<not> snd_fin_sent s \<and>
     (data \<noteq> [] \<or> bs_eof (snd_stream s) \<or> \<not> snd_syn_sent s)"

lemma snd_cut_fits:
  assumes "snd_ready data s" and "\<not> snd_syn_sent s \<Longrightarrow> data = [] \<and> 0 < snd_peer_window_size s"
  shows "seg_len (snd_fill_cut data s) \<le> unat (snd_peer_window_size s)"
    and "snd_fill_too_long data s \<Longrightarrow> bs_eof (snd_stream s) \<and> seg_len (snd_fill_cut data s) = unat (snd_peer_window_size s)"
proof -
  have d: "length data \<le> 1000" "length data \<le> unat (snd_peer_window_size s)" using assms(1) by (simp_all add: snd_ready_def)
  have syn: "length data + snd_flag (\<not> snd_syn_sent s) \<le> unat (snd_peer_window_size s)"
    using assms(2) d by (cases "snd_syn_sent s") (auto simp: snd_flag_def word_less_nat_alt)
  note tl = snd_fill_too_long_iff [OF d(1), of s]
  show "seg_len (snd_fill_cut data s) \<le> unat (snd_peer_window_size s)"
    using syn tl by (cases "snd_fill_too_long data s") (auto simp: seg_len_cut seg_len_fill snd_flag_def)
  show "bs_eof (snd_stream s) \<and> seg_len (snd_fill_cut data s) = unat (snd_peer_window_size s)" if "snd_fill_too_long data s"
    using syn tl that by (auto simp: seg_len_cut seg_len_fill snd_flag_def split: if_splits)
qed

lemma snd_cut_seg_of:
  assumes inv: "snd_invp data S hist s" and ready: "snd_ready data s"
  shows "seg_of (snd_isn s) S (unat (snd_next_seqno s)) (snd_fill_cut data s)"
    and "unat (snd_next_seqno s) + seg_len (snd_fill_cut data s) \<le> length S + 2"
proof -
  obtain sent where S: "S = sent @ data @ bs_buf (snd_stream s)"
    and next_eq: "unat (snd_next_seqno s) = snd_flag (snd_syn_sent s) + length sent"
    and syn: "\<not> snd_syn_sent s \<longrightarrow> sent = [] \<and> data = []"
    using inv ready by (auto simp: snd_invp_def snd_ready_def snd_flag_def)
  have next_w: "wrap (snd_next_seqno s) (snd_isn s) = wrap (of_nat (unat (snd_next_seqno s))) (snd_isn s)" by simp
  have pl: "ts_payload (snd_fill_cut data s) = data" "th_syn (ts_header (snd_fill_cut data s)) = (\<not> snd_syn_sent s)"
    "th_seqno (ts_header (snd_fill_cut data s)) = wrap (snd_next_seqno s) (snd_isn s)"
    "th_fin (ts_header (snd_fill_cut data s)) = (bs_eof (snd_stream s) \<and> \<not> snd_fill_too_long data s)"
    by (simp_all add: snd_fill_cut_def snd_fill_seg_def th_default_def Let_def)
  have piece: "data = piece S (length sent) (length data)" by (simp add: S piece_def)
  show le: "unat (snd_next_seqno s) + seg_len (snd_fill_cut data s) \<le> length S + 2"
    using syn by (auto simp: seg_len_cut next_eq S snd_flag_def)
  show "seg_of (snd_isn s) S (unat (snd_next_seqno s)) (snd_fill_cut data s)"
    unfolding seg_of_def pl
  proof (intro conjI impI)
    show "unat (snd_next_seqno s) = 0" if "\<not> snd_syn_sent s" using that syn by (simp add: next_eq snd_flag_def)
    show "unat (snd_next_seqno s) + seg_len (snd_fill_cut data s) = length S + 2"
      if "bs_eof (snd_stream s) \<and> \<not> snd_fill_too_long data s"
      using that syn by (auto simp: seg_len_cut next_eq S snd_flag_def bs_eof_def)
    show "\<not> snd_syn_sent s \<or> 0 < unat (snd_next_seqno s)" if "data \<noteq> []" using syn by (auto simp: next_eq snd_flag_def)
    show "unat (snd_next_seqno s) - 1 + length data \<le> length S" if "data \<noteq> []"
      using that syn by (auto simp: next_eq snd_flag_def S)
    show "data = piece S (unat (snd_next_seqno s) - 1) (length data)" if "data \<noteq> []"
      using that syn piece by (auto simp: next_eq snd_flag_def)
  qed simp
qed

lemma snd_inflight:
  assumes "snd_invp pend S hist s"
  shows "unat (snd_acked_next s) \<le> unat (snd_next_seqno s)"
    and "unat (snd_bytes_in_flight s) = unat (snd_next_seqno s) - unat (snd_acked_next s)"
proof -
  show le: "unat (snd_acked_next s) \<le> unat (snd_next_seqno s)" using assms snd_chain_le unfolding snd_invp_def by blast
  have "snd_bytes_in_flight s = snd_next_seqno s - snd_acked_next s" using assms unfolding snd_invp_def by blast
  then show "unat (snd_bytes_in_flight s) = unat (snd_next_seqno s) - unat (snd_acked_next s)"
    using le by (simp add: unat_sub_nowrap word_le_nat_alt)
qed

text \<open>The effect of sending a segment on the numbers.\<close>

lemma snd_fill_send_spec:
  assumes "unat (snd_next_seqno s) + seg_len seg < 2 ^ 64" and "seg_len seg \<le> unat (snd_peer_window_size s)"
  shows "unat (snd_next_seqno (snd_fill_send seg s)) = unat (snd_next_seqno s) + seg_len seg"
    and "unat (snd_peer_window_size (snd_fill_send seg s)) = unat (snd_peer_window_size s) - seg_len seg"
    and "snd_bytes_in_flight (snd_fill_send seg s) = snd_bytes_in_flight s + of_nat (seg_len seg)"
    and "snd_acked_next (snd_fill_send seg s) = snd_acked_next s"
    and "snd_next_seqno (snd_fill_send seg s) = snd_next_seqno s + of_nat (seg_len seg)"
    and "snd_segments_out (snd_fill_send seg s) = snd_segments_out s @ [seg]"
    and "snd_outstanding_buffer (snd_fill_send seg s) = snd_outstanding_buffer s @ [seg]"
proof -
  have len: "seg_len seg < 2 ^ 16" using assms(2) le_less_trans [OF assms(2) unat_lt_16] by simp
  then have l64: "unat (length_in_sequence_space seg) = seg_len seg" by (intro unat_length_in_sequence_space) simp
  have "length_in_sequence_space seg \<le> ucast (snd_peer_window_size s)" using assms(2) l64 by (simp add: word_le_nat_alt unat_ucast_16_64)
  moreover have "unat (ucast (length_in_sequence_space seg) :: u16) = seg_len seg"
    using l64 len by (simp add: unsigned_ucast_eq take_bit_eq_mod)
  ultimately show "unat (snd_peer_window_size (snd_fill_send seg s)) = unat (snd_peer_window_size s) - seg_len seg"
    using assms(2) by (simp add: snd_fill_send_def Let_def unat_sub word_le_nat_alt)
  show "unat (snd_next_seqno (snd_fill_send seg s)) = unat (snd_next_seqno s) + seg_len seg"
    using assms(1) by (simp add: snd_fill_send_def Let_def length_in_sequence_space_eq unat_add_of_nat)
qed (simp_all add: snd_fill_send_def Let_def length_in_sequence_space_eq)

lemma snd_invp_body:
  assumes inv: "snd_invp data S hist s" and ready: "snd_ready data s" and body: "snd_fill_body data s = (s', go)"
  shows "snd_inv S hist s'"
    and "unat (snd_bytes_in_flight s') + unat (snd_peer_window_size s') = unat (snd_bytes_in_flight s) + unat (snd_peer_window_size s)"
    and "\<not> go \<Longrightarrow> unat (snd_peer_window_size s') = 0"
proof -
  let ?seg = "snd_fill_cut data s"
  define s2 where "s2 = s\<lparr>snd_syn_sent := True, snd_fin_sent := (if snd_fill_too_long data s then False
     else if bs_eof (snd_stream s) then True else snd_fin_sent s)\<rparr>"
  have syn: "\<not> snd_syn_sent s \<Longrightarrow> data = [] \<and> 0 < snd_peer_window_size s" using inv by (auto simp: snd_invp_def)
  note fits = snd_cut_fits [OF ready syn]
  note seg = snd_cut_seg_of [OF inv ready]
  have S: "length S < 2 ^ 64 - 3" using inv by (simp add: snd_invp_def)
  have "seg_len ?seg < 2 ^ 64" using fits(1) le_less_trans [OF _ unat_lt_16] by fastforce
  then have zero: "length_in_sequence_space ?seg = 0 \<longleftrightarrow> seg_len ?seg = 0"
    by (metis unat_length_in_sequence_space unat_0 unat_eq_zero)
  have res: "(s', go) = (if seg_len ?seg = 0 then (s2, False) else (snd_fill_send ?seg s2, \<not> snd_fill_too_long data s))"
    unfolding body [symmetric] snd_fill_body_def Let_def s2_def zero ..
  have bounds: "unat (snd_next_seqno s2) + seg_len ?seg < 2 ^ 64" "seg_len ?seg \<le> unat (snd_peer_window_size s2)"
    using seg(2) fits(1) S by (simp_all add: s2_def)
  note send = snd_fill_send_spec [OF bounds]
  have inv': "snd_inv S hist s'"
  proof (cases "seg_len ?seg = 0")
    case True
    then have "data = []" "snd_syn_sent s" "snd_fill_too_long data s"
      using ready by (auto simp: seg_len_cut snd_flag_def snd_ready_def split: if_splits)
    then have "s' = s" using res True ready by (simp add: s2_def snd_ready_def)
    then show ?thesis using inv \<open>data = []\<close> by simp
  next
    case False
    then have s': "s' = snd_fill_send ?seg s2" using res by simp
    have pay: "ts_payload ?seg = data" by (simp add: snd_fill_cut_def snd_fill_seg_def Let_def)
    obtain sent where sent: "S = sent @ data @ bs_buf (snd_stream s)"
      "unat (snd_next_seqno s) = snd_flag (snd_syn_sent s) + length sent" "\<not> snd_syn_sent s \<longrightarrow> sent = [] \<and> data = []"
      using inv ready by (auto simp: snd_invp_def snd_ready_def snd_flag_def)
    have fin': "snd_fin_sent s' = (bs_eof (snd_stream s) \<and> \<not> snd_fill_too_long data s)"
      using ready by (simp add: s' s2_def snd_ready_def)
    have nx: "unat (snd_next_seqno s') = unat (snd_next_seqno s) + seg_len ?seg" using send(1) by (simp add: s' s2_def)
    have "unat (snd_next_seqno s') = snd_flag (snd_syn_sent s') + length (sent @ data) + snd_flag (snd_fin_sent s')"
      unfolding nx fin' sent(2) seg_len_cut by (simp add: s' s2_def snd_flag_def)
    moreover have "snd_chain (snd_isn s') S (unat (snd_acked_next s')) (snd_outstanding_buffer s') (unat (snd_next_seqno s'))"
      using inv seg(1) False nx send(4,7) unfolding snd_invp_def by (auto simp: s' s2_def snd_chain_append)
    moreover have "snd_bytes_in_flight s' = snd_next_seqno s' - snd_acked_next s'"
      using inv send(3-5) unfolding snd_invp_def by (simp add: s' s2_def)
    moreover have "\<forall>g \<in> set (hist @ snd_segments_out s' @ snd_outstanding_buffer s'). snd_emitted (snd_isn s') S (unat (snd_next_seqno s')) g"
    proof
      fix g
      assume "g \<in> set (hist @ snd_segments_out s' @ snd_outstanding_buffer s')"
      then consider "g \<in> set (hist @ snd_segments_out s @ snd_outstanding_buffer s)" | "g = ?seg"
        using send(6,7) by (auto simp: s' s2_def)
      then show "snd_emitted (snd_isn s') S (unat (snd_next_seqno s')) g"
      proof cases
        case 1
        then have "snd_emitted (snd_isn s) S (unat (snd_next_seqno s)) g" using inv unfolding snd_invp_def by blast
        then show ?thesis using snd_emitted_mono nx by (simp add: s' s2_def)
      next
        case 2
        then show ?thesis using seg(1) nx pay ready by (auto simp: snd_emitted_def s' s2_def snd_ready_def)
      qed
    qed
    moreover have "S = (sent @ data) @ [] @ bs_buf (snd_stream s')" using sent(1) by (simp add: s' s2_def)
    moreover have "bs_inv (snd_stream s')" using inv by (simp add: s' s2_def snd_invp_def)
    ultimately show ?thesis unfolding snd_invp_def
      using S fin' by (intro conjI exI [of _ "sent @ data"]) (auto simp: s' s2_def)
  qed
  then show "snd_inv S hist s'" .
  show "unat (snd_bytes_in_flight s') + unat (snd_peer_window_size s') = unat (snd_bytes_in_flight s) + unat (snd_peer_window_size s)"
    using snd_inflight [OF inv'] snd_inflight [OF inv] send(1,2,4) bounds(2) res by (cases "seg_len ?seg = 0") (auto simp: s2_def)
  show "unat (snd_peer_window_size s') = 0" if "\<not> go"
  proof -
    have tl: "snd_fill_too_long data s"
      using res that ready by (cases "seg_len ?seg = 0") (auto simp: seg_len_cut snd_flag_def snd_ready_def split: if_splits)
    then show ?thesis using fits(2) send(2) res by (cases "seg_len ?seg = 0") (auto simp: s2_def)
  qed
qed

text \<open>The sender has used its window: no room, or nothing left to send.\<close>

definition snd_full :: "TCPSender \<Rightarrow> bool" where
  "snd_full s \<longleftrightarrow> snd_syn_sent s \<and>
     (snd_peer_window_size s = 0 \<or> bs_buf (snd_stream s) = [] \<and> (bs_is_end (snd_stream s) \<longrightarrow> snd_fin_sent s))"

lemma snd_fill_cond_frame:
  assumes "snd_fill_cond s = (s1, d)"
  obtains st where "s1 = s\<lparr>snd_stream := st\<rparr>"
  using assms that [of "snd_stream s"] by (auto simp: snd_fill_cond_def split: if_splits prod.splits)

lemma snd_cond_inv:
  assumes inv: "snd_inv S hist s" and cond: "snd_fill_cond s = (s1, d)"
  shows "d = None \<Longrightarrow> snd_inv S hist s1 \<and> snd_full s1" and "d = Some data \<Longrightarrow> snd_invp data S hist s1 \<and> snd_ready data s1"
    and "snd_bytes_in_flight s1 = snd_bytes_in_flight s \<and> snd_peer_window_size s1 = snd_peer_window_size s \<and>
      snd_acked_next s1 = snd_acked_next s \<and> snd_isn s1 = snd_isn s"
proof -
  let ?c = "\<not> snd_fin_sent s \<and> bs_eof (snd_stream s) \<or> \<not> snd_syn_sent s"
  let ?data = "take (min 1000 (unat (snd_peer_window_size s))) (bs_buf (snd_stream s))"
  obtain st where s1: "s1 = s\<lparr>snd_stream := st\<rparr>" by (rule snd_fill_cond_frame [OF cond])
  then show "snd_bytes_in_flight s1 = snd_bytes_in_flight s \<and> snd_peer_window_size s1 = snd_peer_window_size s \<and>
      snd_acked_next s1 = snd_acked_next s \<and> snd_isn s1 = snd_isn s" by simp
  note spec = snd_fill_cond_spec [OF cond, unfolded Let_def]
  have "(d = None \<longrightarrow> snd_inv S hist s1 \<and> snd_full s1) \<and> (d = Some data \<longrightarrow> snd_invp data S hist s1 \<and> snd_ready data s1)"
  proof (cases ?c)
    case True
    then have "s1 = s" "d = Some []" using spec by simp_all
    moreover have "snd_ready [] s" using True inv by (auto simp: snd_ready_def snd_invp_def)
    ultimately show ?thesis using inv by auto
  next
    case False
    then have buf: "bs_buf (snd_stream s) = ?data @ bs_buf st" and st: "bs_is_end st = bs_is_end (snd_stream s)"
      "bs_inv (snd_stream s) \<Longrightarrow> bs_inv st" and d: "d = (if ?data = [] then None else Some ?data)"
      using conjunct2 [OF spec [unfolded if_not_P [OF False]]] s1 by simp_all
    obtain sent where sent: "S = sent @ bs_buf (snd_stream s)"
      "unat (snd_next_seqno s) = snd_flag (snd_syn_sent s) + length sent + snd_flag (snd_fin_sent s)"
      using inv by (auto simp: snd_invp_def)
    have syn: "snd_syn_sent s" using False by simp
    have nfin: "?data \<noteq> [] \<Longrightarrow> \<not> snd_fin_sent s" using inv by (auto simp: snd_invp_def bs_eof_def)
    have eof: "bs_eof (snd_stream s) \<Longrightarrow> bs_eof st" using buf st(1) by (simp add: bs_eof_def)
    have invp: "snd_invp ?data S hist s1"
      unfolding snd_invp_def
    proof (intro conjI)
      show "\<exists>sent. S = sent @ ?data @ bs_buf (snd_stream s1) \<and>
        unat (snd_next_seqno s1) = snd_flag (snd_syn_sent s1) + length sent + snd_flag (snd_fin_sent s1) \<and>
        (\<not> snd_syn_sent s1 \<longrightarrow> sent = [] \<and> ?data = [])"
        using sent syn buf by (intro exI [of _ sent]) (simp add: s1)
    qed (use inv st(2) nfin eof in \<open>auto simp: s1 snd_invp_def\<close>)
    have "min 1000 (unat (snd_peer_window_size s)) = 0 \<longleftrightarrow> snd_peer_window_size s = 0"
      by (auto simp: min_def unat_eq_zero)
    then have "snd_full s1" if "?data = []"
      using that False syn buf st(1) by (auto simp: snd_full_def s1 bs_eof_def)
    moreover have "snd_ready ?data s1" if "?data \<noteq> []"
      using that nfin by (auto simp: snd_ready_def s1)
    ultimately show ?thesis using invp d by (auto split: if_splits)
  qed
  then show "d = None \<Longrightarrow> snd_inv S hist s1 \<and> snd_full s1" "d = Some data \<Longrightarrow> snd_invp data S hist s1 \<and> snd_ready data s1" by blast+
qed

lemma snd_fill_window_spec:
  assumes "snd_inv S hist s"
  shows "snd_inv S hist (snd_fill_window s) \<and> snd_full (snd_fill_window s) \<and>
    unat (snd_bytes_in_flight (snd_fill_window s)) + unat (snd_peer_window_size (snd_fill_window s)) =
      unat (snd_bytes_in_flight s) + unat (snd_peer_window_size s)"
  using assms
proof (induction s rule: measure_induct_rule [of snd_fill_measure])
  case (less s)
  obtain s1 d where cond: "snd_fill_cond s = (s1, d)" by (cases "snd_fill_cond s")
  note c = snd_cond_inv [OF less.prems cond]
  show ?case
  proof (cases d)
    case None
    then have "snd_fill_window s = s1" using cond by (subst snd_fill_window.simps) simp
    then show ?thesis using c(1,3) None by simp
  next
    case (Some data)
    obtain s2 go where body: "snd_fill_body data s1 = (s2, go)" by (cases "snd_fill_body data s1")
    have i: "snd_invp data S hist s1" "snd_ready data s1" using c(2) Some by auto
    note b = snd_invp_body [OF i body]
    have run: "snd_fill_window s = (if go then snd_fill_window s2 else s2)"
      using cond body Some by (subst snd_fill_window.simps) simp
    show ?thesis
    proof (cases go)
      case True
      then have "snd_fill_measure s2 < snd_fill_measure s" using snd_fill_decreases cond body Some by simp
      from less.IH [OF this b(1)] show ?thesis using run True b(2) c(3) by simp
    next
      case False
      then have "snd_full s2" using b(3) snd_fill_body_frame(2) [OF body] by (simp add: snd_full_def unat_eq_zero)
      then show ?thesis using run False b(1,2) c(3) by simp
    qed
  qed
qed

section \<open>Acknowledgments\<close>

lemma snd_ack_loop_spec:
  assumes "snd_ack_loop isn ack segs acked infl nd = (segs', acked', infl', nd')"
    and "snd_chain isn S (unat acked) segs b" and "b < 2 ^ 64"
  shows "snd_chain isn S (unat acked') segs' b \<and> (\<exists>dropped. segs = dropped @ segs') \<and>
    infl' + acked' = infl + acked \<and> unat acked \<le> unat acked' \<and> (acked' = acked \<or> acked' \<le> ack) \<and>
    (segs' \<noteq> [] \<longrightarrow> unat ack < unat acked' + seg_len (hd segs')) \<and> nd' = (nd \<or> segs \<noteq> [] \<and> acked < ack)"
  using assms
proof (induction isn ack segs acked infl nd rule: snd_ack_loop.induct)
  case (2 isn ack seg segs acked infl nd)
  let ?l = "length_in_sequence_space seg"
  have seg: "seg_of isn S (unat acked) seg" "0 < seg_len seg" "snd_chain isn S (unat acked + seg_len seg) segs b"
    using 2(3) by simp_all
  have le: "unat acked + seg_len seg \<le> b" by (rule snd_chain_le [OF seg(3)])
  then have l: "unat ?l = seg_len seg" and fin: "unat (acked + ?l) = unat acked + seg_len seg"
    using 2(4) by (simp_all add: unat_length_in_sequence_space unat_add_nowrap)
  have hd: "unwrap (th_seqno (ts_header seg)) isn acked = acked"
    using seg(1) by (simp add: seg_of_def sq.to_abs_to_rel)
  consider (keep) "\<not> acked < ack" | (part) "acked < ack" "\<not> ?l \<le> ack - acked" | (drop) "acked < ack" "?l \<le> ack - acked" by blast
  then show ?case
  proof cases
    case keep
    then show ?thesis using 2(2,3) hd seg(2) by (auto simp: Let_def word_less_nat_alt)
  next
    case part
    then have "unat (ack - acked) = unat ack - unat acked" by (simp add: unat_sub_nowrap less_imp_le)
    then show ?thesis using 2(2,3) hd part l by (auto simp: Let_def word_less_nat_alt word_le_nat_alt)
  next
    case drop
    then have sub: "unat (ack - acked) = unat ack - unat acked" by (simp add: unat_sub_nowrap less_imp_le)
    have run: "snd_ack_loop isn ack segs (acked + ?l) (infl - ?l) True = (segs', acked', infl', nd')"
      using 2(2) hd drop by (simp add: Let_def)
    have ch: "snd_chain isn S (unat (acked + ?l)) segs b" using seg(3) fin by simp
    have "acked + ?l \<le> ack" using drop sub fin l by (simp add: word_less_nat_alt word_le_nat_alt)
    moreover note 2(1) [OF refl refl _ _ run ch 2(4)]
    ultimately show ?thesis using hd drop fin
      by (auto simp: algebra_simps intro: order_trans [of _ "unat acked + seg_len seg"])
  qed
qed auto

lemma snd_inv_timer [simp]: "snd_invp pend S hist (s\<lparr>snd_timer := t\<rparr>) = snd_invp pend S hist s"
  by (simp add: snd_invp_def)

lemma snd_inv_next:
  assumes "snd_inv S hist s"
  shows "unat (snd_next_seqno s) \<le> length S + 2" and "\<not> snd_fin_sent s \<Longrightarrow> unat (snd_next_seqno s) < length S + 2"
proof -
  obtain sent where "S = sent @ bs_buf (snd_stream s)"
    and "unat (snd_next_seqno s) = snd_flag (snd_syn_sent s) + length sent + snd_flag (snd_fin_sent s)"
    using assms by (auto simp: snd_invp_def)
  then show "unat (snd_next_seqno s) \<le> length S + 2" "\<not> snd_fin_sent s \<Longrightarrow> unat (snd_next_seqno s) < length S + 2"
    by (simp_all add: snd_flag_def)
qed

text \<open>The state of the sender when \<open>ack_received\<close> calls \<open>fill_window\<close>.\<close>

lemma snd_ack_state:
  assumes inv: "snd_inv S hist s"
    and ack: "unwrap ackno (snd_isn s) (snd_acked_next s) \<le> snd_next_seqno s"
  obtains s2 where "snd_ack_received ackno w s = snd_fill_window s2" and "snd_inv S hist s2"
    and "unat (snd_bytes_in_flight s2) + unat (snd_peer_window_size s2) = max (unat (snd_bytes_in_flight s2)) (max 1 (unat w))"
    and "unat (snd_bytes_in_flight s2) \<le> unat (snd_bytes_in_flight s)" and "snd_next_seqno s2 = snd_next_seqno s"
    and "snd_outstanding_buffer s2 \<noteq> [] \<longrightarrow>
      unat (unwrap ackno (snd_isn s) (snd_acked_next s)) < unat (snd_acked_next s2) + seg_len (hd (snd_outstanding_buffer s2))"
proof -
  let ?a = "unwrap ackno (snd_isn s) (snd_acked_next s)" and ?w = "if w = 0 then 1 else w"
  obtain out acked infl nd where loop:
    "snd_ack_loop (snd_isn s) ?a (snd_outstanding_buffer s) (snd_acked_next s) (snd_bytes_in_flight s) False = (out, acked, infl, nd)"
    by (metis prod_cases4)
  have ch: "snd_chain (snd_isn s) S (unat (snd_acked_next s)) (snd_outstanding_buffer s) (unat (snd_next_seqno s))"
    and fl: "snd_bytes_in_flight s = snd_next_seqno s - snd_acked_next s"
    using inv by (auto simp: snd_invp_def)
  have lt: "unat (snd_next_seqno s) < 2 ^ 64" using snd_inv_next(1) [OF inv] inv by (simp add: snd_invp_def)
  note l = snd_ack_loop_spec [OF loop ch lt]
  have infl: "infl = snd_next_seqno s - acked" using l fl by (metis add_diff_cancel_right' diff_add_cancel)
  define s2 where "s2 = s\<lparr>snd_received_window_size := ucast w, snd_outstanding_buffer := out, snd_acked_next := acked,
    snd_bytes_in_flight := infl, snd_peer_window_size := (if ucast ?w > infl then ucast (ucast ?w - infl) else 0)\<rparr>"
  define t where "t = (let t1 = if out = [] then tm_stop (snd_timer s) else snd_timer s in if nd then tm_reset t1 else t1)"
  have run: "snd_ack_received ackno w s = snd_fill_window (s2\<lparr>snd_timer := t\<rparr>)"
    using ack loop by (simp add: snd_ack_received_def Let_def s2_def t_def not_less)
  have le: "unat acked \<le> unat (snd_next_seqno s)" using l snd_chain_le by blast
  have un: "unat infl = unat (snd_next_seqno s) - unat acked" using le by (simp add: infl unat_sub_nowrap word_le_nat_alt)
  have w1: "unat ?w = max 1 (unat w)" by (simp add: max_def Suc_le_eq unat_gt_0)
  have peer: "unat (snd_peer_window_size s2) = unat ?w - unat infl"
  proof (cases "infl < ucast ?w")
    case True
    then have "unat (ucast ?w - infl) = unat ?w - unat infl" by (simp add: unat_sub_nowrap less_imp_le)
    then show ?thesis using True by (simp add: s2_def unsigned_ucast_eq take_bit_nat_eq_self le_less_trans [OF diff_le_self unat_lt_16])
  qed (simp add: s2_def word_less_nat_alt)
  have "0 < snd_peer_window_size s2" if "\<not> snd_syn_sent s"
  proof -
    have "unat (snd_next_seqno s) = 0" using inv that by (auto simp: snd_invp_def snd_flag_def)
    then have "0 < unat (snd_peer_window_size s2)" using peer un w1 by simp
    then show ?thesis by (simp add: word_less_nat_alt)
  qed
  moreover have "set out \<subseteq> set (snd_outstanding_buffer s)" using l by auto
  ultimately have inv2: "snd_inv S hist s2"
    using inv l infl unfolding snd_invp_def by (auto simp: s2_def)
  have fl2: "snd_bytes_in_flight s2 = infl" by (simp add: s2_def)
  have acked: "unat (snd_acked_next s) \<le> unat acked" using l by blast
  show ?thesis
  proof (rule that [OF run])
    show "unat (snd_bytes_in_flight (s2\<lparr>snd_timer := t\<rparr>)) + unat (snd_peer_window_size (s2\<lparr>snd_timer := t\<rparr>)) =
        max (unat (snd_bytes_in_flight (s2\<lparr>snd_timer := t\<rparr>))) (max 1 (unat w))"
      using peer w1 fl2 by simp
    show "unat (snd_bytes_in_flight (s2\<lparr>snd_timer := t\<rparr>)) \<le> unat (snd_bytes_in_flight s)"
      using un snd_inflight [OF inv] acked fl2 by simp
    show "snd_outstanding_buffer (s2\<lparr>snd_timer := t\<rparr>) \<noteq> [] \<longrightarrow>
        unat ?a < unat (snd_acked_next (s2\<lparr>snd_timer := t\<rparr>)) + seg_len (hd (snd_outstanding_buffer (s2\<lparr>snd_timer := t\<rparr>)))"
      using l by (simp add: s2_def)
  qed (use inv2 in \<open>simp_all add: s2_def\<close>)
qed

section \<open>Every operation keeps the invariant\<close>

lemma snd_inv_ack: "snd_inv S hist s \<Longrightarrow> snd_inv S hist (snd_ack_received ackno w s)"
proof (cases "unwrap ackno (snd_isn s) (snd_acked_next s) \<le> snd_next_seqno s")
  case True
  moreover assume "snd_inv S hist s"
  ultimately show ?thesis using snd_ack_state snd_fill_window_spec by metis
next
  case False
  moreover assume "snd_inv S hist s"
  ultimately show ?thesis by (simp add: snd_ack_received_def Let_def not_le snd_invp_def)
qed

lemma snd_inv_tick:
  assumes inv: "snd_inv S hist s" and tick: "snd_tick ms s = Inr s'"
  shows "snd_inv S hist s'"
proof -
  let ?t = "tm_pass ms (snd_timer s)"
  have "\<exists>t segs. s' = s\<lparr>snd_timer := t, snd_segments_out := snd_segments_out s @ segs\<rparr> \<and> set segs \<subseteq> set (snd_outstanding_buffer s)"
  proof (cases "tm_is_expire ?t")
    case True
    then obtain t where "s' = s\<lparr>snd_timer := t, snd_segments_out := snd_segments_out s @ take 1 (snd_outstanding_buffer s)\<rparr>"
      using tick by (cases "snd_outstanding_buffer s") (auto simp: snd_tick_def Let_def bindE_Inr_iff)
    then show ?thesis
      by (intro exI [of _ t] exI [of _ "take 1 (snd_outstanding_buffer s)"]) (simp add: set_take_subset)
  next
    case False
    then show ?thesis using tick by (intro exI [of _ ?t] exI [of _ "[]"]) (auto simp: snd_tick_def Let_def)
  qed
  then obtain t segs where s': "s' = s\<lparr>snd_timer := t, snd_segments_out := snd_segments_out s @ segs\<rparr>"
    and segs: "set segs \<subseteq> set (snd_outstanding_buffer s)" by blast
  show ?thesis using inv segs unfolding snd_invp_def by (auto simp: s')
qed

lemma snd_inv_empty: "snd_inv S hist s \<Longrightarrow> snd_inv S hist (snd_send_empty_segment s)"
proof -
  assume inv: "snd_inv S hist s"
  let ?seg = "ts_default\<lparr>ts_header := th_default\<lparr>th_seqno := wrap (snd_next_seqno s) (snd_isn s)\<rparr>\<rparr>"
  have "seg_of (snd_isn s) S (unat (snd_next_seqno s)) ?seg" "seg_len ?seg = 0" "ts_payload ?seg = []"
    by (simp_all add: seg_of_def seg_len_def ts_default_def th_default_def)
  then have "snd_emitted (snd_isn s) S (unat (snd_next_seqno s)) ?seg" by (auto simp: snd_emitted_def)
  then show ?thesis using inv unfolding snd_invp_def by (auto simp: snd_send_empty_segment_def)
qed

lemma snd_inv_end: "snd_inv S hist s \<Longrightarrow> snd_inv S hist (s\<lparr>snd_stream := bs_end_input (snd_stream s)\<rparr>)"
  by (auto simp: snd_invp_def bs_eof_def)

lemma snd_inv_write:
  assumes inv: "snd_inv S hist s" and w: "bs_write d (snd_stream s) = (st, n)" and fit: "length S + unat n < 2 ^ 64 - 3"
  shows "snd_inv (S @ take (unat n) d) hist (s\<lparr>snd_stream := st\<rparr>)"
proof (cases "bs_is_end (snd_stream s)")
  case True
  then have "st = snd_stream s" "unat n = 0" using w by (auto simp: bs_write_eq)
  then show ?thesis using inv by simp
next
  case False
  let ?T = "take (unat n) d"
  have st: "bs_buf st = bs_buf (snd_stream s) @ ?T" "bs_inv (snd_stream s) \<Longrightarrow> bs_inv st"
    using bs_buf_write [of d "snd_stream s"] bs_inv_write [of "snd_stream s" d] w by simp_all
  have nfin: "\<not> snd_fin_sent s" using inv False by (auto simp: snd_invp_def bs_eof_def)
  then have nx: "unat (snd_next_seqno s) < length S + 2" by (rule snd_inv_next(2) [OF inv])
  have ch: "snd_chain (snd_isn s) S (unat (snd_acked_next s)) (snd_outstanding_buffer s) (unat (snd_next_seqno s))"
    using inv by (simp add: snd_invp_def)
  have ch': "snd_chain (snd_isn s) (S @ ?T) (unat (snd_acked_next s)) (snd_outstanding_buffer s) (unat (snd_next_seqno s))"
    by (rule snd_chain_grow [OF ch snd_chain_no_fin [OF ch nx]])
  have em: "snd_emitted (snd_isn s) (S @ ?T) (unat (snd_next_seqno s)) seg"
    if old: "snd_emitted (snd_isn s) S (unat (snd_next_seqno s)) seg" for seg
  proof -
    obtain a where a: "seg_of (snd_isn s) S a seg" "a + seg_len seg \<le> unat (snd_next_seqno s)" "length (ts_payload seg) \<le> 1000"
      using old by (auto simp: snd_emitted_def)
    then have "\<not> th_fin (ts_header seg)" using nx by (auto simp: seg_of_def)
    then have "seg_of (snd_isn s) (S @ ?T) a seg" by (rule seg_of_grow [OF a(1)])
    then show ?thesis using a(2,3) by (auto simp: snd_emitted_def)
  qed
  obtain sent where sent: "S = sent @ bs_buf (snd_stream s)"
    "unat (snd_next_seqno s) = snd_flag (snd_syn_sent s) + length sent + snd_flag (snd_fin_sent s)" "\<not> snd_syn_sent s \<longrightarrow> sent = []"
    using inv by (auto simp: snd_invp_def)
  show ?thesis unfolding snd_invp_def
  proof (intro conjI)
    show "length (S @ ?T) < 2 ^ 64 - 3" using fit by simp
    show "\<exists>sent. S @ ?T = sent @ [] @ bs_buf (snd_stream (s\<lparr>snd_stream := st\<rparr>)) \<and>
      unat (snd_next_seqno (s\<lparr>snd_stream := st\<rparr>)) = snd_flag (snd_syn_sent (s\<lparr>snd_stream := st\<rparr>)) + length sent +
        snd_flag (snd_fin_sent (s\<lparr>snd_stream := st\<rparr>)) \<and>
      (\<not> snd_syn_sent (s\<lparr>snd_stream := st\<rparr>) \<longrightarrow> sent = [] \<and> [] = [])"
      using sent st(1) by (intro exI [of _ sent]) simp
  qed (use inv st(2) ch' em nfin in \<open>auto simp: snd_invp_def\<close>)
qed

lemma snd_inv_take: "snd_inv S hist s \<Longrightarrow> snd_inv S (hist @ snd_segments_out s) (s\<lparr>snd_segments_out := []\<rparr>)"
  by (simp add: snd_invp_def)

text \<open>
  A sender in use: the application writes and closes, segments are acknowledged, time passes, and
  what is in \<open>segments_out\<close> is handed on to the history \<open>hist\<close>.
\<close>

inductive snd_step :: "TCPSender \<times> bytes \<times> TCPSegment list \<Rightarrow> TCPSender \<times> bytes \<times> TCPSegment list \<Rightarrow> bool" where
  app_write: "bs_write d (snd_stream s) = (st, n) \<Longrightarrow> length S + unat n < 2 ^ 64 - 3 \<Longrightarrow>
     snd_step (s, S, hist) (s\<lparr>snd_stream := st\<rparr>, S @ take (unat n) d, hist)"
| app_close: "snd_step (s, S, hist) (s\<lparr>snd_stream := bs_end_input (snd_stream s)\<rparr>, S, hist)"
| fill: "snd_step (s, S, hist) (snd_fill_window s, S, hist)"
| ack: "snd_step (s, S, hist) (snd_ack_received ackno w s, S, hist)"
| tick: "snd_tick ms s = Inr s' \<Longrightarrow> snd_step (s, S, hist) (s', S, hist)"
| empty: "snd_step (s, S, hist) (snd_send_empty_segment s, S, hist)"
| hand_on: "snd_step (s, S, hist) (s\<lparr>snd_segments_out := []\<rparr>, S, hist @ snd_segments_out s)"

definition snd_run_inv :: "WrappingInt32 \<Rightarrow> TCPSender \<times> bytes \<times> TCPSegment list \<Rightarrow> bool" where
  "snd_run_inv isn c \<longleftrightarrow> snd_isn (fst c) = isn \<and> snd_inv (fst (snd c)) (snd (snd c)) (fst c)"

text \<open>What one round of the loop keeps, \<open>fill_window\<close> keeps.\<close>

lemma snd_fill_window_keeps:
  assumes "\<And>s s1 d. snd_fill_cond s = (s1, d) \<Longrightarrow> f s1 = f s" and "\<And>data s s2 go. snd_fill_body data s = (s2, go) \<Longrightarrow> f s2 = f s"
  shows "f (snd_fill_window s) = f s"
proof (induction s rule: measure_induct_rule [of snd_fill_measure])
  case (less s)
  obtain s1 d where cond: "snd_fill_cond s = (s1, d)" by (cases "snd_fill_cond s")
  show ?case
  proof (cases d)
    case None
    then show ?thesis using cond assms(1) [OF cond] by (subst snd_fill_window.simps) simp
  next
    case (Some data)
    obtain s2 go where body: "snd_fill_body data s1 = (s2, go)" by (cases "snd_fill_body data s1")
    have "go \<Longrightarrow> f (snd_fill_window s2) = f s2" using less snd_fill_decreases cond body Some by simp
    then show ?thesis using cond body Some assms(1) [OF cond] assms(2) [OF body] by (subst snd_fill_window.simps) simp
  qed
qed

lemma snd_isn_fill [simp]: "snd_isn (snd_fill_window s) = snd_isn s"
  by (rule snd_fill_window_keeps)
     (auto elim: snd_fill_cond_frame simp: snd_fill_body_frame)

lemma snd_end_fill [simp]: "bs_is_end (snd_stream (snd_fill_window s)) = bs_is_end (snd_stream s)"
  by (rule snd_fill_window_keeps [of "\<lambda>s. bs_is_end (snd_stream s)"])
     (auto simp: snd_fill_cond_def get_data_eq snd_fill_body_frame split: if_splits)

lemma snd_isn_ack [simp]: "snd_isn (snd_ack_received ackno w s) = snd_isn s"
  by (simp add: snd_ack_received_def Let_def split: prod.splits)

lemma snd_end_ack [simp]: "bs_is_end (snd_stream (snd_ack_received ackno w s)) = bs_is_end (snd_stream s)"
  by (simp add: snd_ack_received_def Let_def split: prod.splits)

lemma snd_isn_tick: "snd_tick ms s = Inr s' \<Longrightarrow> snd_isn s' = snd_isn s"
  by (auto simp: snd_tick_def Let_def bindE_Inr_iff split: if_splits)

lemma snd_run_inv_step: "snd_run_inv isn c \<Longrightarrow> snd_step c c' \<Longrightarrow> snd_run_inv isn c'"
  by (erule snd_step.cases)
     (auto simp: snd_run_inv_def snd_inv_write snd_inv_end snd_inv_ack snd_inv_tick snd_isn_tick snd_inv_empty snd_inv_take
       snd_fill_window_spec, simp add: snd_send_empty_segment_def)

lemma snd_inv_new: "snd_inv [] [] (snd_new cap rto isn rnd)"
  by (simp add: snd_invp_def snd_new_def snd_flag_def) (simp add: bs_new_def)

interpretation sender: invariant_system "\<lambda>c. c = (snd_new cap rto (Some isn) rnd, [], [])" snd_step "snd_run_inv isn" for cap rto isn rnd
proof unfold_locales
  show "c = (snd_new cap rto (Some isn) rnd, [], []) \<Longrightarrow> snd_run_inv isn c" for c
    by (simp add: snd_run_inv_def snd_inv_new) (simp add: snd_new_def)
qed (rule snd_run_inv_step)

section \<open>Timeouts\<close>

text \<open>Time passes until the timer expires, \<open>n\<close> times in a row.\<close>

fun snd_timeouts :: "nat \<Rightarrow> TCPSender \<Rightarrow> TCPSender res" where
  "snd_timeouts 0 s = Inr s"
| "snd_timeouts (Suc n) s = bindE (snd_tick (tm_rto (snd_timer s)) s) (snd_timeouts n)"

definition tm_at :: "nat \<Rightarrow> Timer \<Rightarrow> bool" where
  "tm_at k t \<longleftrightarrow> tm_running t \<and> tm_time_pass t = 0 \<and> tm_fail_count t = of_nat k \<and> tm_retransmission_timeout_shift t = of_nat k \<and>
     tm_rto t = push_bit k (tm_initial_rto t)"

lemma tm_double_at:
  assumes "tm_at k t" and "k < 63"
  shows "\<exists>t'. tm_double_rto (tm_pass (tm_rto t) t) = Inr t' \<and> tm_at (Suc k) t' \<and> tm_initial_rto t' = tm_initial_rto t"
proof -
  have "unat (of_nat (Suc k) :: u32) = Suc k"
    using assms(2) by (simp add: unat_of_nat take_bit_nat_eq_self del: of_nat_Suc)
  then have "unat (of_nat k + 1 :: u32) = Suc k" by (simp add: add.commute)
  then show ?thesis using assms by (simp add: tm_double_rto_def tm_pass_def tm_at_def Let_def)
qed

lemma snd_tick_at:
  assumes "tm_at k (snd_timer s)" and "k < 63" and "snd_received_window_size s \<noteq> 0" and "snd_outstanding_buffer s = seg # segs"
  shows "\<exists>t. snd_tick (tm_rto (snd_timer s)) s = Inr (s\<lparr>snd_timer := t, snd_segments_out := snd_segments_out s @ [seg]\<rparr>) \<and>
    tm_at (Suc k) t \<and> tm_initial_rto t = tm_initial_rto (snd_timer s)"
proof -
  have "tm_is_expire (tm_pass (tm_rto (snd_timer s)) (snd_timer s))"
    using assms(1) by (simp add: tm_is_expire_def tm_pass_def tm_at_def)
  then show ?thesis using tm_double_at [OF assms(1,2)] assms(3,4) by (auto simp: snd_tick_def Let_def)
qed

section \<open>Properties\<close>

text \<open>
  C11. What the sender sends. Whatever the application writes and whatever acknowledgments and
  ticks come, in any order: every segment that goes out is a segment of the stream written so far
  with at most 1000 bytes of payload; the outstanding segments follow each other without gap from the
  acknowledged number to the next sequence number; and \<open>bytes_in_flight\<close> is the sum of their lengths.
\<close>

theorem sender_segments_of_stream:
  assumes "reach (\<lambda>c. c = (snd_new cap rto (Some isn) rnd, [], [])) snd_step (s, S, hist)"
  shows "(\<forall>seg \<in> set (hist @ snd_segments_out s). (\<exists>a. seg_of isn S a seg) \<and> length (ts_payload seg) \<le> 1000) \<and>
    snd_chain isn S (unat (snd_acked_next s)) (snd_outstanding_buffer s) (unat (snd_next_seqno s)) \<and>
    unat (snd_bytes_in_flight s) = sum_list (map seg_len (snd_outstanding_buffer s)) \<and>
    unat (snd_next_seqno s) = unat (snd_acked_next s) + unat (snd_bytes_in_flight s)"
proof -
  have "snd_run_inv isn (s, S, hist)" by (rule sender.inv_reach [OF assms])
  then have inv: "snd_inv S hist s" and isn: "snd_isn s = isn" by (simp_all add: snd_run_inv_def)
  have ch: "snd_chain isn S (unat (snd_acked_next s)) (snd_outstanding_buffer s) (unat (snd_next_seqno s))"
    using inv isn by (simp add: snd_invp_def)
  moreover have "\<forall>seg \<in> set (hist @ snd_segments_out s). (\<exists>a. seg_of isn S a seg) \<and> length (ts_payload seg) \<le> 1000"
    using inv isn by (auto simp: snd_invp_def snd_emitted_def)
  ultimately show ?thesis using snd_chain_sum [OF ch] snd_inflight [OF inv] by simp
qed


text \<open>
  C13. Exponential backoff. While the peer's window is open and nothing is acknowledged, each
  expiry of the timer sends the oldest outstanding segment again, counts a failure and doubles the
  timeout: after \<open>n\<close> expiries it is the initial timeout shifted by \<open>n\<close>. Up to 63 doublings the shift is defined.
\<close>

theorem sender_backoff:
  assumes "tm_at 0 (snd_timer s)" and "snd_received_window_size s \<noteq> 0" and "snd_outstanding_buffer s = seg # segs" and "n < 64"
  shows "\<exists>s'. snd_timeouts n s = Inr s' \<and> snd_segments_out s' = snd_segments_out s @ replicate n seg \<and>
    tm_rto (snd_timer s') = push_bit n (tm_initial_rto (snd_timer s)) \<and> snd_consecutive_retransmissions s' = of_nat n"
proof -
  have "\<exists>s'. snd_timeouts n s = Inr s' \<and> snd_segments_out s' = snd_segments_out s @ replicate n seg \<and>
      tm_at (k + n) (snd_timer s') \<and> tm_initial_rto (snd_timer s') = tm_initial_rto (snd_timer s)"
    if "tm_at k (snd_timer s)" "k + n < 64" for k
    using that assms(2,3)
  proof (induction n arbitrary: s k)
    case (Suc n)
    obtain t where t: "snd_tick (tm_rto (snd_timer s)) s = Inr (s\<lparr>snd_timer := t, snd_segments_out := snd_segments_out s @ [seg]\<rparr>)"
      "tm_at (Suc k) t" "tm_initial_rto t = tm_initial_rto (snd_timer s)"
      using snd_tick_at [of k s] Suc.prems by fastforce
    let ?s = "s\<lparr>snd_timer := t, snd_segments_out := snd_segments_out s @ [seg]\<rparr>"
    have "\<exists>s'. snd_timeouts n ?s = Inr s' \<and> snd_segments_out s' = snd_segments_out ?s @ replicate n seg \<and>
        tm_at (Suc k + n) (snd_timer s') \<and> tm_initial_rto (snd_timer s') = tm_initial_rto (snd_timer ?s)"
      using Suc.prems t(2) by (intro Suc.IH) simp_all
    then show ?case using t(1,3) by simp
  qed simp
  from this [of 0] obtain s' where "snd_timeouts n s = Inr s'" "snd_segments_out s' = snd_segments_out s @ replicate n seg"
    "tm_at n (snd_timer s')" "tm_initial_rto (snd_timer s') = tm_initial_rto (snd_timer s)"
    using assms(1,4) by auto
  moreover have "(ucast (of_nat n :: u16) :: u32) = of_nat n"
    using assms(4) by (intro word_unat_eq_iff [THEN iffD2]) (simp add: unsigned_ucast_eq unat_of_nat take_bit_nat_eq_self)
  ultimately show ?thesis by (auto simp: tm_at_def snd_consecutive_retransmissions_def)
qed

definition snd_demo0 :: TCPSender where
  "snd_demo0 = snd_new 16 1000 (Some (WrappingInt32 7)) 0"

definition snd_demo_syn :: TCPSegment where
  "snd_demo_syn = \<lparr>ts_header = th_default\<lparr>th_seqno := WrappingInt32 7, th_syn := True\<rparr>, ts_payload = []\<rparr>"

definition snd_demo :: TCPSender where
  "snd_demo = snd_demo0\<lparr>snd_segments_out := [snd_demo_syn], snd_next_seqno := 1, snd_timer := tm_start (snd_timer snd_demo0),
     snd_outstanding_buffer := [snd_demo_syn], snd_peer_window_size := 0, snd_syn_sent := True, snd_bytes_in_flight := 1\<rparr>"

lemma snd_demo_run: "snd_fill_window snd_demo0 = snd_demo"
  by code_simp

lemma snd_demo_reach: "reach (\<lambda>c. c = (snd_new 16 1000 (Some (WrappingInt32 7)) 0, [], [])) snd_step (snd_demo, [], [])"
proof -
  have "snd_step (snd_demo0, [], []) (snd_demo, [], [])"
    using snd_step.fill [of snd_demo0 "[]" "[]"] unfolding snd_demo_run .
  then show ?thesis unfolding snd_demo0_def by (rule reach_step [OF reach_init, rotated]) simp
qed

theorem sender_segments_witness:
  "snd_chain (WrappingInt32 7) [] 0 [snd_demo_syn] 1 \<and> unat (snd_bytes_in_flight snd_demo) = 1"
  using sender_segments_of_stream [OF snd_demo_reach]
  by (simp add: snd_demo_def snd_demo0_def snd_new_def seg_len_def snd_demo_syn_def th_default_def)



theorem sender_backoff_witness:
  "\<exists>s'. snd_timeouts 3 snd_demo = Inr s' \<and> tm_rto (snd_timer s') = 8000"
proof -
  have "tm_at 0 (snd_timer snd_demo)" "snd_received_window_size snd_demo \<noteq> 0" "snd_outstanding_buffer snd_demo = snd_demo_syn # []"
    by (simp_all add: snd_demo_def snd_demo0_def snd_new_def tm_at_def tm_start_def tm_new_def)
  from sender_backoff [OF this, of 3] show ?thesis
    by (auto simp: snd_demo_def snd_demo0_def snd_new_def tm_start_def tm_new_def)
qed

end
