(* ===== verification/Tcp_Link.thy ===== *)
theory Tcp_Link
  imports Receiver_Correct Sender_Correct
begin

text \<open>
  A sender and a receiver joined by an unreliable network. The network keeps every segment ever handed to
  it and may deliver any of them at any time, any number of times or never, so that loss,
  duplication and reordering are all runs of the system; the fields that the sending connection
  fills in (acknowledgment, window) are arbitrary. The two invariants meet here.
\<close>

section \<open>The system\<close>

record link =
  lk_snd :: TCPSender
  lk_stream :: bytes
  lk_net :: "TCPSegment list"
  lk_rcv :: TCPReceiver
  lk_read :: bytes

definition lk_init :: "u64 \<Rightarrow> u16 \<Rightarrow> WrappingInt32 \<Rightarrow> u32 \<Rightarrow> u64 \<Rightarrow> link" where
  "lk_init scap rto isn rnd rcap =
     \<lparr>lk_snd = snd_new scap rto (Some isn) rnd, lk_stream = [], lk_net = [], lk_rcv = rcv_new rcap, lk_read = []\<rparr>"

definition seg_fill :: "bool \<Rightarrow> WrappingInt32 \<Rightarrow> u16 \<Rightarrow> TCPSegment \<Rightarrow> TCPSegment" where
  "seg_fill ack ackno win seg = seg\<lparr>ts_header := (ts_header seg)\<lparr>th_ack := ack, th_ackno := ackno, th_win := win\<rparr>\<rparr>"

inductive lk_step :: "WrappingInt32 \<Rightarrow> link \<Rightarrow> link \<Rightarrow> bool" for isn :: WrappingInt32 where
  sender: "snd_step (lk_snd l, lk_stream l, lk_net l) (s', S', net') \<Longrightarrow>
     lk_step isn l (l\<lparr>lk_snd := s', lk_stream := S', lk_net := net'\<rparr>)"
| deliver: "seg \<in> set (lk_net l) \<Longrightarrow> seg_of isn (lk_stream l) a seg \<Longrightarrow> rcv_timely a seg (lk_rcv l) \<Longrightarrow>
     (th_fin (ts_header seg) \<Longrightarrow> rcv_received_syn (lk_rcv l) \<or> th_syn (ts_header seg)) \<Longrightarrow>
     rcv_segment_received (seg_fill ack ackno win seg) (lk_rcv l) = Inr r' \<Longrightarrow>
     lk_step isn l (l\<lparr>lk_rcv := r'\<rparr>)"
| consume: "bs_read n (rcv_stream_out (lk_rcv l)) = (out, d) \<Longrightarrow>
     lk_step isn l (l\<lparr>lk_rcv := rcv_set_stream_out out (lk_rcv l), lk_read := lk_read l @ d\<rparr>)"

definition lk_inv :: "WrappingInt32 \<Rightarrow> link \<Rightarrow> bool" where
  "lk_inv isn l \<longleftrightarrow> snd_run_inv isn (lk_snd l, lk_stream l, lk_net l) \<and> rcv_inv isn (lk_stream l) (lk_read l) (lk_rcv l) \<and>
     (rcv_received_fin (lk_rcv l) \<longrightarrow> bs_is_end (snd_stream (lk_snd l)))"

section \<open>The stream grows under the receiver\<close>

lemma sr_ok_grow: "sr_ok S e \<Longrightarrow> sr_ok (S @ T) e"
  using piece_grow [of "unat (fst e)" "length (snd e)" S T] by (auto simp: sr_ok_def sr_end_def)

lemma sr_good_grow: "sr_good S del r \<Longrightarrow> length (S @ T) < 2 ^ 64 \<Longrightarrow> sr_good (S @ T) del r"
  by (auto simp: sr_good_def sr_inv_def sr_ok_grow)

lemma rcv_inv_grow:
  assumes "rcv_inv isn S del r" and "length (S @ T) < 2 ^ 64" and "rcv_received_fin r \<Longrightarrow> T = []"
  shows "rcv_inv isn (S @ T) del r"
proof (cases "T = []")
  case False
  then have "\<not> rcv_received_fin r" using assms(3) by blast
  then show ?thesis using assms(1,2) sr_good_grow unfolding rcv_inv_def by auto
qed (use assms in simp)

text \<open>What the sending side may do to the stream: it only grows, and not after its end.\<close>

lemma snd_step_stream:
  assumes "snd_step (s, S, net) (s', S', net')"
  shows "\<exists>T. S' = S @ T \<and> (bs_is_end (snd_stream s) \<longrightarrow> T = [] \<and> bs_is_end (snd_stream s'))"
  using assms
proof (cases rule: snd_step.cases)
  case (app_write d st n)
  then show ?thesis by (auto simp: bs_write_eq Let_def)
next
  case (tick ms)
  then show ?thesis by (auto simp: snd_tick_def Let_def bindE_Inr_iff split: if_splits)
qed (auto simp: snd_send_empty_segment_def)

lemma rcv_inv_fin_mono:
  assumes "rcv_segment_received seg r = Inr r'" and "rcv_received_fin r'"
  shows "rcv_received_fin r \<or> th_fin (ts_header seg)"
proof -
  let ?r1 = "rcv_syn_part (ts_header seg) r"
  obtain r2 where r2: "rcv_data_part seg ?r1 = Inr r2" "r' = rcv_fin_part seg r2"
    using assms(1) by (auto simp: rcv_segment_received_def bindE_Inr_iff)
  have "rcv_received_fin r2 = rcv_received_fin ?r1"
    using r2(1) by (auto simp: rcv_data_part_def Let_def bindE_Inr_iff split: if_splits)
  then have "rcv_received_fin r2 = rcv_received_fin r" by (simp add: rcv_syn_part_def)
  then show ?thesis using assms(2) r2(2)
    by (auto simp: rcv_fin_part_def Let_def rcv_set_stream_out_def split: if_splits)
qed

text \<open>A FIN in the network means that the application has closed the stream.\<close>

lemma snd_inv_fin_net:
  assumes inv: "snd_inv S net s" and seg: "seg \<in> set net" and fin: "th_fin (ts_header seg)"
  shows "bs_is_end (snd_stream s)"
proof -
  obtain a where "seg_of (snd_isn s) S a seg" "a + seg_len seg \<le> unat (snd_next_seqno s)"
    using inv seg by (auto simp: snd_invp_def snd_emitted_def)
  then have "length S + 2 \<le> unat (snd_next_seqno s)" using fin by (simp add: seg_of_def)
  then have "snd_fin_sent s" using snd_inv_next(2) [OF inv] by fastforce
  then show ?thesis using inv by (simp add: snd_invp_def bs_eof_def)
qed

lemma seg_fill_same:
  "seg_of isn S a (seg_fill ack ackno win seg) = seg_of isn S a seg" "rcv_timely a (seg_fill ack ackno win seg) r = rcv_timely a seg r"
  "th_fin (ts_header (seg_fill ack ackno win seg)) = th_fin (ts_header seg)"
  "th_syn (ts_header (seg_fill ack ackno win seg)) = th_syn (ts_header seg)"
  by (simp_all add: seg_fill_def seg_of_def seg_len_def rcv_timely_def rcv_syn_part_def)

lemma lk_inv_step:
  assumes inv: "lk_inv isn l" and step: "lk_step isn l l'"
  shows "lk_inv isn l'"
proof -
  have run: "snd_run_inv isn (lk_snd l, lk_stream l, lk_net l)" and rcv: "rcv_inv isn (lk_stream l) (lk_read l) (lk_rcv l)"
    and fin: "rcv_received_fin (lk_rcv l) \<Longrightarrow> bs_is_end (snd_stream (lk_snd l))"
    using inv by (auto simp: lk_inv_def)
  have snd: "snd_inv (lk_stream l) (lk_net l) (lk_snd l)" using run by (simp add: snd_run_inv_def)
  then have S: "length (lk_stream l) < 2 ^ 64 - 3" by (simp add: snd_invp_def)
  from step show ?thesis
  proof cases
    case (sender s' S' net')
    have run': "snd_run_inv isn (s', S', net')" by (rule snd_run_inv_step [OF run sender(2)])
    obtain T where T: "S' = lk_stream l @ T" "bs_is_end (snd_stream (lk_snd l)) \<longrightarrow> T = [] \<and> bs_is_end (snd_stream s')"
      using snd_step_stream [OF sender(2)] by blast
    have "length S' < 2 ^ 64" using run' by (simp add: snd_run_inv_def snd_invp_def)
    then have "rcv_inv isn S' (lk_read l) (lk_rcv l)" using rcv_inv_grow [OF rcv, of T] T fin by simp
    then show ?thesis using run' T fin by (auto simp: lk_inv_def sender(1))
  next
    case (deliver seg a ack ackno win r')
    let ?seg = "seg_fill ack ackno win seg"
    have "rcv_inv isn (lk_stream l) (lk_read l) r'"
      by (rule rcv_inv_received [of _ _ _ "lk_rcv l" a ?seg]) (use rcv S deliver in \<open>simp_all add: seg_fill_same\<close>)
    moreover have "bs_is_end (snd_stream (lk_snd l))" if "rcv_received_fin r'"
      using rcv_inv_fin_mono [OF deliver(6) that] fin snd_inv_fin_net [OF snd deliver(2)] by (auto simp: seg_fill_same)
    ultimately show ?thesis using run by (simp add: lk_inv_def deliver(1))
  next
    case (consume n out d)
    have "rcv_received_fin (rcv_set_stream_out out (lk_rcv l)) = rcv_received_fin (lk_rcv l)" by (simp add: rcv_set_stream_out_def)
    then show ?thesis using run rcv_inv_read [OF rcv consume(2)] fin by (simp add: lk_inv_def consume(1))
  qed
qed

lemma rcv_inv_new: "length S < 2 ^ 64 \<Longrightarrow> rcv_inv isn S [] (rcv_new c)"
  using sr_good_new [of S c] by (simp add: rcv_inv_def rcv_new_def rcv_stream_out_def) (simp add: sr_new_def bs_new_def)

interpretation lk: invariant_system "\<lambda>l. l = lk_init scap rto isn rnd rcap" "lk_step isn" "lk_inv isn" for scap rto isn rnd rcap
proof unfold_locales
  show "l = lk_init scap rto isn rnd rcap \<Longrightarrow> lk_inv isn l" for l
    using snd_inv_new [of scap rto "Some isn" rnd] rcv_inv_new [of "[]" isn rcap]
    by (simp add: lk_inv_def lk_init_def snd_run_inv_def) (simp add: snd_new_def rcv_new_def)
qed (rule lk_inv_step)

section \<open>Properties\<close>

text \<open>
  C14. The connection carries the stream. A sender, driven by any writes, acknowledgments (of any kind) and
  ticks, and a receiver, joined by a network that loses, repeats and reorders segments: what the
  reading application has got, together with what it could get, is a prefix of what the writing
  application has written; and when the receiver has acknowledged FIN, it is all of it and
  the writer has closed the stream.
\<close>

theorem tcp_delivers_stream:
  assumes "reach (\<lambda>l. l = lk_init scap rto isn rnd rcap) (lk_step isn) l"
  defines "got \<equiv> lk_read l @ bs_buf (rcv_stream_out (lk_rcv l))"
  shows "got = take (length got) (lk_stream l) \<and>
    (rcv_received_fin (lk_rcv l) \<and> rcv_ack_no_64 (lk_rcv l) = rcv_last_no (lk_rcv l) \<longrightarrow>
       got = lk_stream l \<and> bs_is_end (snd_stream (lk_snd l)))"
proof -
  have "lk_inv isn l" by (rule lk.inv_reach [OF assms(1)])
  then have rcv: "rcv_inv isn (lk_stream l) (lk_read l) (lk_rcv l)" and S: "length (lk_stream l) < 2 ^ 64 - 3"
    and fin: "rcv_received_fin (lk_rcv l) \<Longrightarrow> bs_is_end (snd_stream (lk_snd l))"
    by (auto simp: lk_inv_def snd_run_inv_def snd_invp_def)
  have "sr_good (lk_stream l) (lk_read l) (rcv_reassembler (lk_rcv l))" using rcv by (simp add: rcv_inv_def)
  then have "got @ sr_assemBuf (rcv_reassembler (lk_rcv l)) = take (unat (sr_expectIdx (rcv_reassembler (lk_rcv l)))) (lk_stream l)"
    by (simp add: sr_good_def sr_stream_def got_def rcv_stream_out_def)
  then have "got = take (length got) (lk_stream l)" by (metis append_eq_conv_conj append_take_drop_id append.assoc)
  moreover have "got = lk_stream l" if f: "rcv_received_fin (lk_rcv l)" and "rcv_ack_no_64 (lk_rcv l) = rcv_last_no (lk_rcv l)"
  proof -
    have syn: "rcv_received_syn (lk_rcv l)" using rcv f by (auto simp: rcv_inv_def split: if_splits)
    then have "rcv_ack_no_64 (lk_rcv l) = of_nat (length (lk_stream l) + 2)" using rcv that by (simp add: rcv_inv_def)
    then show ?thesis using rcv_inv_complete [OF rcv S syn] unfolding got_def by blast
  qed
  ultimately show ?thesis using fin by blast
qed

text \<open>A short run: two bytes are written, the handshake and the data go through the network.\<close>

definition lk_demo_s1 :: TCPSender where
  "lk_demo_s1 = snd_demo0\<lparr>snd_stream := fst (bs_write [1, 2] (snd_stream snd_demo0))\<rparr>"

definition lk_demo_s2 :: TCPSender where
  "lk_demo_s2 = snd_ack_received (WrappingInt32 8) 4 (snd_fill_window lk_demo_s1)"

definition lk_demo_data :: TCPSegment where
  "lk_demo_data = \<lparr>ts_header = th_default\<lparr>th_seqno := WrappingInt32 8\<rparr>, ts_payload = [1, 2]\<rparr>"

definition lk_demo_r1 :: TCPReceiver where
  "lk_demo_r1 = (rcv_new 8)\<lparr>rcv_state := 1, rcv_isn := WrappingInt32 7, rcv_ack_no_64 := 1, rcv_received_syn := True\<rparr>"

definition lk_demo_r2 :: TCPReceiver where
  "lk_demo_r2 = projr (rcv_segment_received lk_demo_data lk_demo_r1)"

lemma lk_demo_runs:
  "snd_segments_out lk_demo_s2 = [snd_demo_syn, lk_demo_data]"
  "rcv_segment_received snd_demo_syn (rcv_new 8) = Inr lk_demo_r1"
  "rcv_segment_received lk_demo_data lk_demo_r1 = Inr lk_demo_r2"
  "bs_buf (rcv_stream_out lk_demo_r2) = [1, 2]"
  by code_simp+

definition lk_demo :: link where
  "lk_demo = \<lparr>lk_snd = lk_demo_s2\<lparr>snd_segments_out := []\<rparr>, lk_stream = [1, 2], lk_net = [snd_demo_syn, lk_demo_data],
     lk_rcv = lk_demo_r2, lk_read = []\<rparr>"

lemma lk_demo_reach: "reach (\<lambda>l. l = lk_init 16 1000 (WrappingInt32 7) 0 8) (lk_step (WrappingInt32 7)) lk_demo"
proof -
  let ?R = "reach (\<lambda>l. l = lk_init 16 1000 (WrappingInt32 7) 0 8) (lk_step (WrappingInt32 7))"
  let ?l = "\<lambda>s S net r. \<lparr>lk_snd = s, lk_stream = S, lk_net = net, lk_rcv = r, lk_read = []\<rparr>"
  have snd: "?R (?l s' S' net' r)" if "?R (?l s S net r)" "snd_step (s, S, net) (s', S', net')" for s S net s' S' net' r
    using reach_step [OF that(1) lk_step.sender [of "?l s S net r" s' S' net']] that(2) by simp
  have "?R (?l snd_demo0 [] [] (rcv_new 8))" by (rule reach_init) (simp add: lk_init_def snd_demo0_def)
  then have "?R (?l lk_demo_s1 [1, 2] [] (rcv_new 8))"
  proof (rule snd)
    have "bs_write [1, 2] (snd_stream snd_demo0) = (snd_stream lk_demo_s1, 2)" by code_simp
    from snd_step.app_write [OF this, of "[]" "[]"] show "snd_step (snd_demo0, [], []) (lk_demo_s1, [1, 2], [])"
      by (simp add: lk_demo_s1_def)
  qed
  then have "?R (?l (snd_fill_window lk_demo_s1) [1, 2] [] (rcv_new 8))" by (rule snd) (rule snd_step.fill)
  then have "?R (?l lk_demo_s2 [1, 2] [] (rcv_new 8))" unfolding lk_demo_s2_def by (rule snd) (rule snd_step.ack)
  then have "?R (?l (lk_demo_s2\<lparr>snd_segments_out := []\<rparr>) [1, 2] ([] @ snd_segments_out lk_demo_s2) (rcv_new 8))"
    by (rule snd) (rule snd_step.hand_on)
  then have 1: "?R (?l (lk_demo_s2\<lparr>snd_segments_out := []\<rparr>) [1, 2] [snd_demo_syn, lk_demo_data] (rcv_new 8))"
    by (simp add: lk_demo_runs)
  have fill: "seg_fill (th_ack (ts_header g)) (th_ackno (ts_header g)) (th_win (ts_header g)) g = g" for g by (simp add: seg_fill_def)
  have del: "?R (?l s S net r')" if "?R (?l s S net r)" and "g \<in> set net" "seg_of (WrappingInt32 7) S a g" "rcv_timely a g r"
      "\<not> th_fin (ts_header g)" "rcv_segment_received g r = Inr r'" for s S net r r' g a
    using reach_step [OF that(1) lk_step.deliver [of g "?l s S net r" "WrappingInt32 7" a "th_ack (ts_header g)"
        "th_ackno (ts_header g)" "th_win (ts_header g)" r']] that(2-) by (simp add: fill)
  have "?R (?l (lk_demo_s2\<lparr>snd_segments_out := []\<rparr>) [1, 2] [snd_demo_syn, lk_demo_data] lk_demo_r1)"
  proof (rule del [OF 1 _ _ _ _ lk_demo_runs(2), of 0])
    show "rcv_timely 0 snd_demo_syn (rcv_new 8)"
      by (simp add: rcv_timely_def rcv_syn_part_def rcv_new_def snd_demo_syn_def th_default_def unwrap_self near_def)
  qed (simp_all add: seg_of_def snd_demo_syn_def th_default_def)
  then have "?R (?l (lk_demo_s2\<lparr>snd_segments_out := []\<rparr>) [1, 2] [snd_demo_syn, lk_demo_data] lk_demo_r2)"
  proof (rule del [OF _ _ _ _ _ lk_demo_runs(3), of _ _ _ 1])
    show "rcv_timely 1 lk_demo_data lk_demo_r1"
      by (simp add: rcv_timely_def rcv_syn_part_def lk_demo_r1_def lk_demo_data_def near_def)
    have "wrap 1 (WrappingInt32 7) = WrappingInt32 8" by code_simp
    then show "seg_of (WrappingInt32 7) [1, 2] 1 lk_demo_data"
      by (simp add: seg_of_def lk_demo_data_def th_default_def piece_def)
  qed (simp_all add: lk_demo_data_def th_default_def)
  then show ?thesis by (simp add: lk_demo_def)
qed

theorem tcp_delivers_stream_witness:
  "lk_stream lk_demo = [1, 2] \<and> bs_buf (rcv_stream_out (lk_rcv lk_demo)) = take 2 (lk_stream lk_demo)"
proof -
  have "lk_read lk_demo @ bs_buf (rcv_stream_out (lk_rcv lk_demo)) = [1, 2]" by (simp add: lk_demo_def lk_demo_runs)
  then show ?thesis using tcp_delivers_stream [OF lk_demo_reach] by (simp add: lk_demo_def)
qed

end
