(* ===== verification/Buffers.thy ===== *)
theory Buffers
  imports Sponge_Prelude
begin

text \<open>
  Models \<^verbatim>\<open>libsponge/util/buffer.hh\<close> and \<^verbatim>\<open>buffer.cc\<close>. A \<open>Buffer\<close> is a shared string with an offset; the
  string is read-only, so that sharing is not visible and the storage is a value. A \<open>BufferList\<close> is a queue of
  them, a \<open>BufferViewList\<close> a queue of plain views. Positions and sizes inside a string are natural numbers: the
  invariant \<open>bf_wf\<close> keeps the offset within the string. The locale \<open>discardable\<close> is the contract the three share:
  what is seen, and what is seen after bytes are discarded from the front.
\<close>

section \<open>Buffer\<close>

record Buffer =
  bf_storage :: "bytes option"
  bf_starting_offset :: nat

definition bf_empty :: Buffer where
  "bf_empty = \<lparr>bf_storage = None, bf_starting_offset = 0\<rparr>"

definition bf_new :: "bytes \<Rightarrow> Buffer" where
  "bf_new str = \<lparr>bf_storage = Some str, bf_starting_offset = 0\<rparr>"

definition bf_str :: "Buffer \<Rightarrow> bytes" where
  "bf_str b = (case bf_storage b of None \<Rightarrow> [] | Some s \<Rightarrow> drop (bf_starting_offset b) s)"

definition bf_at :: "nat \<Rightarrow> Buffer \<Rightarrow> u8 res" where
  "bf_at n b = (if n < length (bf_str b) then Inr (bf_str b ! n) else Inl OutOfRange)"

definition bf_size :: "Buffer \<Rightarrow> nat" where
  "bf_size b = length (bf_str b)"

definition bf_copy :: "Buffer \<Rightarrow> bytes" where
  "bf_copy b = bf_str b"

definition bf_remove_prefix :: "nat \<Rightarrow> Buffer \<Rightarrow> Buffer res" where
  "bf_remove_prefix n b =
     (if n > length (bf_str b) then Inl OutOfRange
      else let b1 = b\<lparr>bf_starting_offset := bf_starting_offset b + n\<rparr>
           in Inr (case bf_storage b1 of
                     Some s \<Rightarrow> if bf_starting_offset b1 = length s then b1\<lparr>bf_storage := None\<rparr> else b1
                   | None \<Rightarrow> b1))"

section \<open>BufferList\<close>

type_synonym BufferList = "Buffer list"

definition bl_of_buffer :: "Buffer \<Rightarrow> BufferList" where
  "bl_of_buffer buffer = [buffer]"

primrec bl_append_loop :: "BufferList \<Rightarrow> BufferList \<Rightarrow> BufferList" where
  "bl_append_loop [] buffers = buffers"
| "bl_append_loop (buf # other) buffers = bl_append_loop other (buffers @ [buf])"

definition bl_append :: "BufferList \<Rightarrow> BufferList \<Rightarrow> BufferList" where
  "bl_append other buffers = bl_append_loop other buffers"

definition bl_of_string :: "bytes \<Rightarrow> BufferList" where
  "bl_of_string str = bl_append (bl_of_buffer (bf_new str)) []"

definition bl_to_buffer :: "BufferList \<Rightarrow> Buffer res" where
  "bl_to_buffer buffers =
     (case buffers of [] \<Rightarrow> Inr bf_empty | [b] \<Rightarrow> Inr b | _ \<Rightarrow> Inl RuntimeError)"

primrec bl_concatenate_loop :: "BufferList \<Rightarrow> bytes \<Rightarrow> bytes" where
  "bl_concatenate_loop [] ret = ret"
| "bl_concatenate_loop (buf # bufs) ret = bl_concatenate_loop bufs (ret @ bf_str buf)"

definition bl_concatenate :: "BufferList \<Rightarrow> bytes" where
  "bl_concatenate buffers = bl_concatenate_loop buffers []"

primrec bl_size_loop :: "BufferList \<Rightarrow> nat \<Rightarrow> nat" where
  "bl_size_loop [] ret = ret"
| "bl_size_loop (buf # bufs) ret = bl_size_loop bufs (ret + bf_size buf)"

definition bl_size :: "BufferList \<Rightarrow> nat" where
  "bl_size buffers = bl_size_loop buffers 0"

fun bl_remove_prefix :: "nat \<Rightarrow> BufferList \<Rightarrow> BufferList res" where
  "bl_remove_prefix n buffers =
     (if n > 0
      then case buffers of
             [] \<Rightarrow> Inl OutOfRange
           | front # rest \<Rightarrow>
               if n < length (bf_str front)
               then bindE (bf_remove_prefix n front) (\<lambda>front'. Inr (front' # rest))
               else bl_remove_prefix (n - length (bf_str front)) rest
      else Inr buffers)"

section \<open>BufferViewList\<close>

type_synonym BufferViewList = "bytes list"

definition bv_of_view :: "bytes \<Rightarrow> BufferViewList" where
  "bv_of_view str = [str]"

primrec bv_of_list_loop :: "BufferList \<Rightarrow> BufferViewList \<Rightarrow> BufferViewList" where
  "bv_of_list_loop [] views = views"
| "bv_of_list_loop (x # xs) views = bv_of_list_loop xs (views @ [bf_str x])"

definition bv_of_list :: "BufferList \<Rightarrow> BufferViewList" where
  "bv_of_list buffers = bv_of_list_loop buffers []"

fun bv_remove_prefix :: "nat \<Rightarrow> BufferViewList \<Rightarrow> BufferViewList res" where
  "bv_remove_prefix n views =
     (if n > 0
      then case views of
             [] \<Rightarrow> Inl OutOfRange
           | front # rest \<Rightarrow>
               if n < length front then Inr (drop n front # rest) else bv_remove_prefix (n - length front) rest
      else Inr views)"

primrec bv_size_loop :: "BufferViewList \<Rightarrow> nat \<Rightarrow> nat" where
  "bv_size_loop [] ret = ret"
| "bv_size_loop (buf # bufs) ret = bv_size_loop bufs (ret + length buf)"

definition bv_size :: "BufferViewList \<Rightarrow> nat" where
  "bv_size views = bv_size_loop views 0"

text \<open>An \<open>iovec\<close> is the bytes it points to and their number.\<close>

primrec bv_iovecs_loop :: "BufferViewList \<Rightarrow> (bytes \<times> nat) list \<Rightarrow> (bytes \<times> nat) list" where
  "bv_iovecs_loop [] ret = ret"
| "bv_iovecs_loop (x # xs) ret = bv_iovecs_loop xs (ret @ [(x, length x)])"

definition bv_as_iovecs :: "BufferViewList \<Rightarrow> (bytes \<times> nat) list" where
  "bv_as_iovecs views = bv_iovecs_loop views []"

section \<open>The contract\<close>

locale discardable =
  fixes wf :: "'s \<Rightarrow> bool" and view :: "'s \<Rightarrow> bytes" and size_of :: "'s \<Rightarrow> nat" and discard :: "nat \<Rightarrow> 's \<Rightarrow> 's res"
  assumes size_view: "size_of s = length (view s)"
    and discard_ok: "wf s \<Longrightarrow> n \<le> length (view s) \<Longrightarrow> \<exists>s'. discard n s = Inr s' \<and> wf s' \<and> view s' = drop n (view s)"
    and discard_fail: "wf s \<Longrightarrow> length (view s) < n \<Longrightarrow> discard n s = Inl OutOfRange"
begin

lemma discard_Inr_iff: "wf s \<Longrightarrow> (\<exists>s'. discard n s = Inr s') \<longleftrightarrow> n \<le> size_of s"
  using discard_ok [of s n] discard_fail [of s n] by (cases "n \<le> length (view s)") (auto simp: size_view)

lemma discard_view: "wf s \<Longrightarrow> discard n s = Inr s' \<Longrightarrow> wf s' \<and> view s' = drop n (view s) \<and> n \<le> size_of s"
  using discard_ok [of s n] discard_fail [of s n] by (cases "n \<le> length (view s)") (auto simp: size_view)

text \<open>Discarding in two steps shows what discarding at once shows, and fails when it fails.\<close>

lemma discard_twice:
  assumes "wf s"
  shows "map_sum id view (bindE (discard m s) (discard n)) = map_sum id view (discard (m + n) s)"
proof (cases "m \<le> length (view s)")
  case m: True
  then obtain s1 where s1: "discard m s = Inr s1" "wf s1" "view s1 = drop m (view s)" using discard_ok assms by blast
  show ?thesis
  proof (cases "m + n \<le> length (view s)")
    case True
    then have "n \<le> length (view s1)" using s1 by simp
    then show ?thesis using discard_ok [OF s1(2), of n] discard_ok [OF assms True] s1 by (auto simp: add.commute)
  next
    case False
    then have "length (view s1) < n" using s1 m by simp
    then show ?thesis using discard_fail [OF s1(2)] discard_fail [OF assms, of "m + n"] False s1(1) by simp
  qed
next
  case False
  then show ?thesis using discard_fail assms by simp
qed

end

section \<open>The three strings meet it\<close>

definition bf_wf :: "Buffer \<Rightarrow> bool" where
  "bf_wf b \<longleftrightarrow> (\<forall>s. bf_storage b = Some s \<longrightarrow> bf_starting_offset b \<le> length s)"

lemma bf_simps [simp]:
  "bf_str bf_empty = []" "bf_str (bf_new s) = s" "bf_wf bf_empty" "bf_wf (bf_new s)"
  by (simp_all add: bf_str_def bf_empty_def bf_new_def bf_wf_def)

lemma bf_remove_prefix_ok:
  assumes "bf_wf b" and "n \<le> length (bf_str b)"
  shows "\<exists>b'. bf_remove_prefix n b = Inr b' \<and> bf_wf b' \<and> bf_str b' = drop n (bf_str b)"
  using assms by (cases "bf_storage b") (auto simp: bf_remove_prefix_def bf_str_def bf_wf_def Let_def add.commute)

interpretation bf: discardable bf_wf bf_str bf_size bf_remove_prefix
  by unfold_locales (simp_all add: bf_size_def bf_remove_prefix_ok, simp add: bf_remove_prefix_def)

lemma bl_append_eq [simp]: "bl_append other buffers = buffers @ other"
proof -
  have "bl_append_loop other buffers = buffers @ other" for buffers by (induction other arbitrary: buffers) simp_all
  then show ?thesis by (simp add: bl_append_def)
qed

lemma bl_concatenate_eq [simp]: "bl_concatenate buffers = concat (map bf_str buffers)"
proof -
  have "bl_concatenate_loop buffers ret = ret @ concat (map bf_str buffers)" for ret by (induction buffers arbitrary: ret) simp_all
  then show ?thesis by (simp add: bl_concatenate_def)
qed

lemma bl_size_eq [simp]: "bl_size buffers = length (concat (map bf_str buffers))"
proof -
  have "bl_size_loop buffers ret = ret + length (concat (map bf_str buffers))" for ret
    by (induction buffers arbitrary: ret) (simp_all add: bf_size_def)
  then show ?thesis by (simp add: bl_size_def)
qed

lemma bl_of_string_eq [simp]: "bl_of_string str = [bf_new str]"
  by (simp add: bl_of_string_def bl_of_buffer_def)

lemma bv_of_list_eq [simp]: "bv_of_list buffers = map bf_str buffers"
proof -
  have "bv_of_list_loop buffers vs = vs @ map bf_str buffers" for vs by (induction buffers arbitrary: vs) simp_all
  then show ?thesis by (simp add: bv_of_list_def)
qed

lemma bv_size_eq [simp]: "bv_size views = length (concat views)"
proof -
  have "bv_size_loop views ret = ret + length (concat views)" for ret by (induction views arbitrary: ret) simp_all
  then show ?thesis by (simp add: bv_size_def)
qed

lemma bv_as_iovecs_eq [simp]: "bv_as_iovecs views = map (\<lambda>v. (v, length v)) views"
proof -
  have "bv_iovecs_loop views ret = ret @ map (\<lambda>v. (v, length v)) views" for ret by (induction views arbitrary: ret) simp_all
  then show ?thesis by (simp add: bv_as_iovecs_def)
qed

declare bl_remove_prefix.simps [simp del] bv_remove_prefix.simps [simp del]

lemma bl_remove_prefix_0 [simp]: "bl_remove_prefix 0 bs = Inr bs" "bv_remove_prefix 0 vs = Inr vs"
  by (simp_all add: bl_remove_prefix.simps bv_remove_prefix.simps)

definition bl_wf :: "BufferList \<Rightarrow> bool" where
  "bl_wf bs \<longleftrightarrow> list_all bf_wf bs"

lemma bl_remove_prefix_ok:
  assumes "bl_wf bs" and "n \<le> length (concat (map bf_str bs))"
  shows "\<exists>bs'. bl_remove_prefix n bs = Inr bs' \<and> bl_wf bs' \<and> concat (map bf_str bs') = drop n (concat (map bf_str bs))"
  using assms
proof (induction bs arbitrary: n)
  case (Cons b bs)
  consider "n = 0" | "0 < n" "n < length (bf_str b)" | "0 < n" "length (bf_str b) \<le> n" by linarith
  then show ?case
  proof cases
    case 2
    then obtain b' where "bf_remove_prefix n b = Inr b'" "bf_wf b'" "bf_str b' = drop n (bf_str b)"
      using bf_remove_prefix_ok [of b n] Cons.prems by (auto simp: bl_wf_def)
    then show ?thesis using 2 Cons.prems by (simp add: bl_remove_prefix.simps [of n] bl_wf_def)
  next
    case 3
    then show ?thesis using Cons by (simp add: bl_remove_prefix.simps [of n "b # bs"] bl_wf_def)
  qed (use Cons.prems in simp)
qed simp

lemma bl_remove_prefix_fail: "length (concat (map bf_str bs)) < n \<Longrightarrow> bl_remove_prefix n bs = Inl OutOfRange"
proof (induction bs arbitrary: n)
  case (Cons b bs)
  then show ?case by (simp add: bl_remove_prefix.simps [of n "b # bs"])
qed (simp add: bl_remove_prefix.simps)

interpretation bl: discardable bl_wf "\<lambda>bs. concat (map bf_str bs)" bl_size bl_remove_prefix
  by unfold_locales (simp_all add: bl_remove_prefix_ok bl_remove_prefix_fail)

lemma bv_remove_prefix_ok:
  "n \<le> length (concat vs) \<Longrightarrow> \<exists>vs'. bv_remove_prefix n vs = Inr vs' \<and> concat vs' = drop n (concat vs)"
proof (induction vs arbitrary: n)
  case (Cons v vs)
  then show ?case
    by (cases "n = 0"; cases "n < length v") (simp_all add: bv_remove_prefix.simps [of n "v # vs"])
qed simp

lemma bv_remove_prefix_fail: "length (concat vs) < n \<Longrightarrow> bv_remove_prefix n vs = Inl OutOfRange"
proof (induction vs arbitrary: n)
  case (Cons v vs)
  then show ?case by (simp add: bv_remove_prefix.simps [of n "v # vs"])
qed (simp add: bv_remove_prefix.simps)

interpretation bv: discardable "\<lambda>_. True" concat bv_size bv_remove_prefix
  by unfold_locales (simp_all add: bv_remove_prefix_ok bv_remove_prefix_fail)

section \<open>Properties\<close>

text \<open>
  A discontiguous string behaves as the concatenation of its parts: \<open>concatenate\<close>, \<open>size\<close> and \<open>append\<close> agree with
  it, \<open>remove_prefix\<close> throws exactly when asked for more bytes than there are and otherwise drops that
  many bytes across the parts, and removing in two steps is removing at once; the view list made from a
  buffer list shows the same bytes and discards the same way.
\<close>

theorem buffer_list_is_string:
  assumes "bl_wf bs"
  shows "bl_concatenate (bl_append bs' bs) = bl_concatenate bs @ bl_concatenate bs' \<and> bl_size bs = length (bl_concatenate bs) \<and>
    ((\<exists>r. bl_remove_prefix n bs = Inr r) \<longleftrightarrow> n \<le> bl_size bs) \<and>
    (\<forall>r. bl_remove_prefix n bs = Inr r \<longrightarrow> bl_wf r \<and> bl_concatenate r = drop n (bl_concatenate bs)) \<and>
    map_sum id bl_concatenate (bindE (bl_remove_prefix m bs) (bl_remove_prefix n)) = map_sum id bl_concatenate (bl_remove_prefix (m + n) bs) \<and>
    map_sum id concat (bv_remove_prefix n (bv_of_list bs)) = map_sum id bl_concatenate (bl_remove_prefix n bs)"
proof -
  have fn: "bl_concatenate = (\<lambda>bs. concat (map bf_str bs))" by (simp add: fun_eq_iff)
  have "map_sum id concat (bv_remove_prefix n (bv_of_list bs)) = map_sum id (\<lambda>bs. concat (map bf_str bs)) (bl_remove_prefix n bs)"
    using bl_remove_prefix_ok [OF assms, of n] bl_remove_prefix_fail [of bs n] bv_remove_prefix_ok [of n "map bf_str bs"]
      bv_remove_prefix_fail [of "map bf_str bs" n]
    by (cases "n \<le> length (concat (map bf_str bs))") auto
  then show ?thesis unfolding fn
    using bl.discard_Inr_iff [OF assms, of n] bl.discard_view [OF assms, of n] bl.discard_twice [OF assms, of m n] by simp
qed

theorem buffer_list_witness:
  "bl_concatenate (projr (bl_remove_prefix 3 [bf_new [1, 2], bf_new [3, 4, 5]])) = [4, 5]"
proof -
  have "bl_wf [bf_new [1, 2], bf_new [3, 4, 5]]" by (simp add: bl_wf_def)
  from buffer_list_is_string [OF this, of "[]" 3] obtain r where
    "bl_remove_prefix 3 [bf_new [1, 2], bf_new [3, 4, 5]] = Inr r" "bl_concatenate r = [4, 5]" by auto
  then show ?thesis by simp
qed

end
