(* ===== verification/Net_Parser.thy ===== *)
theory Net_Parser
  imports Buffers
begin

text \<open>
  Models \<^verbatim>\<open>libsponge/util/parser.hh\<close> and \<^verbatim>\<open>parser.cc\<close>: integers in network byte order. The parser keeps its error
  as state and answers 0 once it is set; the operations return \<open>res\<close> because the buffer can throw, and are
  shown never to. The locale \<open>field_codec\<close> is the contract between a field's serializer and its parser, used
  by the header theories.
\<close>

unbundle bit_operations_syntax

section \<open>Model\<close>

datatype ParseResult =
    NoError | BadChecksum | PacketTooShort | WrongIPVersion | HeaderTooShort | TruncatedPacket | Unsupported

fun pr_index :: "ParseResult \<Rightarrow> nat" where
  "pr_index NoError = 0"
| "pr_index BadChecksum = 1"
| "pr_index PacketTooShort = 2"
| "pr_index WrongIPVersion = 3"
| "pr_index HeaderTooShort = 4"
| "pr_index TruncatedPacket = 5"
| "pr_index Unsupported = 6"

definition pr_names :: "string list" where
  "pr_names = [''NoError'', ''BadChecksum'', ''PacketTooShort'', ''WrongIPVersion'', ''HeaderTooShort'', ''TruncatedPacket'']"

text \<open>Reading the array past its end is undefined.\<close>

definition as_string :: "ParseResult \<Rightarrow> string res" where
  "as_string r = (if pr_index r < length pr_names then Inr (pr_names ! pr_index r) else Inl UB)"

record NetParser =
  np_buffer :: Buffer
  np_error :: ParseResult

definition np_new :: "Buffer \<Rightarrow> NetParser" where
  "np_new buffer = \<lparr>np_buffer = buffer, np_error = NoError\<rparr>"

definition np_has_error :: "NetParser \<Rightarrow> bool" where
  "np_has_error p \<longleftrightarrow> np_error p \<noteq> NoError"

definition np_check_size :: "nat \<Rightarrow> NetParser \<Rightarrow> NetParser" where
  "np_check_size n p = (if n > bf_size (np_buffer p) then p\<lparr>np_error := PacketTooShort\<rparr> else p)"

text \<open>The loop: \<open>i\<close> bytes have been read, \<open>k\<close> are left.\<close>

fun np_int_loop :: "nat \<Rightarrow> nat \<Rightarrow> Buffer \<Rightarrow> 'a::len word \<Rightarrow> 'a word res" where
  "np_int_loop i 0 b ret = Inr ret"
| "np_int_loop i (Suc k) b ret = bindE (bf_at i b) (\<lambda>c. np_int_loop (i + 1) k b (push_bit 8 ret + ucast c))"

definition np_parse_int :: "nat \<Rightarrow> NetParser \<Rightarrow> (NetParser \<times> 'a::len word) res" where
  "np_parse_int len p0 =
     (let p = np_check_size len p0
      in if np_has_error p then Inr (p, 0)
         else bindE (np_int_loop 0 len (np_buffer p) 0) (\<lambda>ret.
              bindE (bf_remove_prefix len (np_buffer p)) (\<lambda>b. Inr (p\<lparr>np_buffer := b\<rparr>, ret))))"

definition np_u32 :: "NetParser \<Rightarrow> (NetParser \<times> u32) res" where
  "np_u32 p = np_parse_int 4 p"

definition np_u16 :: "NetParser \<Rightarrow> (NetParser \<times> u16) res" where
  "np_u16 p = np_parse_int 2 p"

definition np_u8 :: "NetParser \<Rightarrow> (NetParser \<times> u8) res" where
  "np_u8 p = np_parse_int 1 p"

definition np_remove_prefix :: "nat \<Rightarrow> NetParser \<Rightarrow> NetParser res" where
  "np_remove_prefix n p0 =
     (let p = np_check_size n p0
      in if np_has_error p then Inr p
         else bindE (bf_remove_prefix n (np_buffer p)) (\<lambda>b. Inr (p\<lparr>np_buffer := b\<rparr>)))"

fun up_int_loop :: "nat \<Rightarrow> nat \<Rightarrow> 'a::len word \<Rightarrow> bytes \<Rightarrow> bytes" where
  "up_int_loop len 0 val s = s"
| "up_int_loop len (Suc k) val s = up_int_loop len k val (s @ [ucast (drop_bit (k * 8) val AND 0xff)])"

text \<open>The counter \<open>i\<close> of the code is \<open>len - k - 1\<close>, so that the shift is by \<open>(len - i - 1) * 8 = k * 8\<close>.\<close>

definition up_int :: "nat \<Rightarrow> bytes \<Rightarrow> 'a::len word \<Rightarrow> bytes" where
  "up_int len s val = up_int_loop len len val s"

definition up_u32 :: "bytes \<Rightarrow> u32 \<Rightarrow> bytes" where
  "up_u32 s val = up_int 4 s val"

definition up_u16 :: "bytes \<Rightarrow> u16 \<Rightarrow> bytes" where
  "up_u16 s val = up_int 2 s val"

definition up_u8 :: "bytes \<Rightarrow> u8 \<Rightarrow> bytes" where
  "up_u8 s val = up_int 1 s val"

section \<open>Big-endian numbers\<close>

primrec be_bytes :: "nat \<Rightarrow> 'a::len word \<Rightarrow> bytes" where
  "be_bytes 0 v = []"
| "be_bytes (Suc n) v = ucast (drop_bit (8 * n) v) # be_bytes n v"

definition be_step :: "'a::len word \<Rightarrow> u8 \<Rightarrow> 'a word" where
  "be_step r b = push_bit 8 r + ucast b"

lemma length_be_bytes [simp]: "length (be_bytes n v) = n"
  by (induction n) simp_all

lemma up_int_eq: "up_int n s v = s @ be_bytes n v"
proof -
  have "ucast (x AND 255) = (ucast x :: u8)" for x :: "'a word"
  proof (rule bit_word_eqI)
    fix n assume "n < LENGTH(8)"
    then have "n < 8" by simp
    then have "bit (255 :: 'a word) n = (n < LENGTH('a))"
      using bit_mask_iff [where 'a = "'a word", of 8 n] by (simp add: mask_eq_exp_minus_1 possible_bit_word)
    then show "bit (ucast (x AND 255) :: u8) n = bit (ucast x :: u8) n" by (auto simp: bit_simps dest: bit_imp_le_length)
  qed
  then have "up_int_loop len k v s = s @ be_bytes k v" for len k s
    by (induction len k v s rule: up_int_loop.induct) (simp_all add: mult.commute)
  then show ?thesis by (simp add: up_int_def)
qed

lemma ucast_byte: "ucast (ucast (x :: 'a::len word) :: u8) = take_bit 8 x"
  by (rule bit_word_eqI) (auto simp: bit_simps)

lemma be_fold: "foldl be_step acc (be_bytes n v) = push_bit (8 * n) acc + take_bit (8 * n) v"
proof (induction n arbitrary: acc)
  case (Suc n)
  have "push_bit (8 * n) (take_bit 8 (drop_bit (8 * n) v)) + take_bit (8 * n) v = take_bit (8 * Suc n) v"
    using bits_ident [of "8 * n" "take_bit (8 * Suc n) v"] by (simp add: drop_bit_take_bit min_def)
  moreover have "be_step acc (ucast (drop_bit (8 * n) v)) = push_bit 8 acc + take_bit 8 (drop_bit (8 * n) v)"
    by (simp add: be_step_def ucast_byte)
  ultimately show ?case by (simp add: Suc push_bit_add add.assoc add.commute [of "8 * n"])
qed simp

lemma be_roundtrip: "8 * n = LENGTH('a::len) \<Longrightarrow> foldl be_step 0 (be_bytes n v) = (v :: 'a word)"
  by (simp add: be_fold)

section \<open>The parser\<close>

definition np_wf :: "NetParser \<Rightarrow> bool" where
  "np_wf p \<longleftrightarrow> bf_wf (np_buffer p)"

abbreviation np_str :: "NetParser \<Rightarrow> bytes" where
  "np_str p \<equiv> bf_str (np_buffer p)"

definition np_ready :: "NetParser \<Rightarrow> bytes \<Rightarrow> bool" where
  "np_ready p bs \<longleftrightarrow> np_wf p \<and> np_str p = bs \<and> np_error p = NoError"

lemma np_ready_new: "bf_wf b \<Longrightarrow> np_ready (np_new b) (bf_str b)"
  by (simp add: np_ready_def np_wf_def np_new_def)

lemma np_int_loop_eq:
  "i + k \<le> length (bf_str b) \<Longrightarrow> np_int_loop i k b ret = Inr (foldl be_step ret (take k (drop i (bf_str b))))"
proof (induction i k b ret rule: np_int_loop.induct)
  case (2 i k b ret)
  then have "take (Suc k) (drop i (bf_str b)) = bf_str b ! i # take k (drop (i + 1) (bf_str b))"
    by (metis Cons_nth_drop_Suc Suc_eq_plus1 Suc_le_lessD add_Suc_right le_add1 le_trans not_less_eq_eq take_Suc_Cons)
  then show ?case using 2 by (simp add: bf_at_def be_step_def)
qed simp

lemma np_parse_int_cases:
  assumes "np_wf p"
  shows "\<exists>p'. np_parse_int n p = Inr (p', if np_error p = NoError \<and> n \<le> length (np_str p) then foldl be_step 0 (take n (np_str p)) else 0) \<and>
    np_wf p' \<and> np_str p' = (if np_error p = NoError \<and> n \<le> length (np_str p) then drop n (np_str p) else np_str p) \<and>
    np_error p' = (if n \<le> length (np_str p) then np_error p else PacketTooShort)"
proof (cases "np_error p = NoError \<and> n \<le> length (np_str p)")
  case True
  then obtain b where "bf_remove_prefix n (np_buffer p) = Inr b" "bf_wf b" "bf_str b = drop n (np_str p)"
    using bf_remove_prefix_ok assms by (auto simp: np_wf_def)
  then show ?thesis using True
    by (auto simp: np_parse_int_def np_check_size_def bf_size_def np_has_error_def np_int_loop_eq np_wf_def)
qed (use assms in \<open>auto simp: np_parse_int_def np_check_size_def bf_size_def np_has_error_def np_wf_def\<close>)

lemma np_remove_prefix_cases:
  assumes "np_wf p"
  shows "\<exists>p'. np_remove_prefix n p = Inr p' \<and> np_wf p' \<and>
    np_str p' = (if np_error p = NoError \<and> n \<le> length (np_str p) then drop n (np_str p) else np_str p) \<and>
    np_error p' = (if n \<le> length (np_str p) then np_error p else PacketTooShort)"
proof (cases "np_error p = NoError \<and> n \<le> length (np_str p)")
  case True
  then obtain b where "bf_remove_prefix n (np_buffer p) = Inr b" "bf_wf b" "bf_str b = drop n (np_str p)"
    using bf_remove_prefix_ok assms by (auto simp: np_wf_def)
  then show ?thesis using True
    by (auto simp: np_remove_prefix_def np_check_size_def bf_size_def np_has_error_def np_wf_def)
qed (use assms in \<open>auto simp: np_remove_prefix_def np_check_size_def bf_size_def np_has_error_def np_wf_def\<close>)

text \<open>The parser has moved on by \<open>k\<close> bytes, or the error is set because they were not there.\<close>

definition np_reads :: "nat \<Rightarrow> NetParser \<Rightarrow> NetParser \<Rightarrow> bool" where
  "np_reads k p q \<longleftrightarrow> np_wf q \<and> (np_error q = NoError \<longleftrightarrow> np_error p = NoError \<and> k \<le> length (np_str p)) \<and>
     (np_error q = NoError \<longrightarrow> np_str q = drop k (np_str p))"

lemma np_reads_trans [trans]: "np_reads j p q \<Longrightarrow> np_reads k q r \<Longrightarrow> np_reads (j + k) p r"
  by (auto simp: np_reads_def add.commute)

lemma np_reads_ready: "np_ready p bs \<Longrightarrow> np_reads k p q \<Longrightarrow> k \<le> length bs \<Longrightarrow> np_ready q (drop k bs)"
  by (auto simp: np_ready_def np_reads_def)

lemma np_reads_wf [dest]: "np_reads k p q \<Longrightarrow> np_wf q"
  by (simp add: np_reads_def)

lemma np_remove_prefix_any: "np_wf p \<Longrightarrow> \<exists>p'. np_remove_prefix n p = Inr p' \<and> np_reads n p p'"
  using np_remove_prefix_cases [of p n] by (auto simp: np_reads_def split: if_splits)

section \<open>Fields\<close>

locale field_codec =
  fixes ok :: "'a \<Rightarrow> bool" and enc :: "'a \<Rightarrow> bytes" and dec :: "NetParser \<Rightarrow> (NetParser \<times> 'a) res" and width :: nat
  assumes enc_length: "ok x \<Longrightarrow> length (enc x) = width"
    and dec_enc: "ok x \<Longrightarrow> np_ready p (enc x @ rest) \<Longrightarrow> \<exists>p'. dec p = Inr (p', x) \<and> np_ready p' rest"
    and dec_any: "np_wf p \<Longrightarrow> \<exists>p' y. dec p = Inr (p', y) \<and> np_reads width p p' \<and> (np_error p' = NoError \<longrightarrow> ok y)"
begin

text \<open>A serialized field is never a proper prefix of another, so that fields can follow each other without separators.\<close>

lemma enc_unique:
  assumes "ok x" "ok y" "enc x @ r = enc y @ s"
  shows "x = y \<and> r = s"
proof -
  have "length (enc x) = length (enc y)" using assms enc_length by simp
  then have "enc x = enc y" "r = s" using assms(3) by simp_all
  have r: "np_ready (np_new (bf_new (enc x @ r))) (enc x @ r)" using np_ready_new [of "bf_new (enc x @ r)"] by simp
  obtain p1 where 1: "dec (np_new (bf_new (enc x @ r))) = Inr (p1, x)" using dec_enc [OF assms(1) r] by blast
  obtain p2 where "dec (np_new (bf_new (enc x @ r))) = Inr (p2, y)" using dec_enc [OF assms(2) r [unfolded assms(3)]] assms(3) by auto
  then show ?thesis using 1 \<open>r = s\<close> by simp
qed

text \<open>A parser that has read a field without error had the field in front of it.\<close>

lemma dec_consumes:
  assumes "np_wf p" "dec p = Inr (p', y)" "np_error p' = NoError"
  shows "np_ready p (np_str p)" and "length (np_str p) = width + length (np_str p')" and "np_ready p' (np_str p')"
  using dec_any [OF assms(1)] assms by (auto simp: np_ready_def np_reads_def)

end

lemma field_codec_int:
  assumes "8 * n = LENGTH('a::len)"
  shows "field_codec (\<lambda>_. True) (be_bytes n :: 'a word \<Rightarrow> bytes) (np_parse_int n) n"
proof unfold_locales
  fix p rest and x :: "'a word"
  show "length (be_bytes n x) = n" by simp
  show "\<exists>p'. np_parse_int n p = Inr (p', x) \<and> np_ready p' rest" if "np_ready p (be_bytes n x @ rest)"
    using np_parse_int_cases [of p n, where 'a = 'a] that be_roundtrip [OF assms] by (auto simp: np_ready_def)
  show "\<exists>p' y. np_parse_int n p = Inr (p', y :: 'a word) \<and> np_reads n p p' \<and> (np_error p' = NoError \<longrightarrow> True)" if "np_wf p"
    using np_parse_int_cases [OF that, of n, where 'a = 'a] by (auto simp: np_reads_def split: if_splits)
qed

interpretation u8: field_codec "\<lambda>_. True" "be_bytes 1 :: u8 \<Rightarrow> bytes" np_u8 1
  using field_codec_int [of 1, where 'a = 8] by (simp add: np_u8_def [abs_def])

interpretation u16: field_codec "\<lambda>_. True" "be_bytes 2 :: u16 \<Rightarrow> bytes" np_u16 2
  using field_codec_int [of 2, where 'a = 16] by (simp add: np_u16_def [abs_def])

interpretation u32: field_codec "\<lambda>_. True" "be_bytes 4 :: u32 \<Rightarrow> bytes" np_u32 4
  using field_codec_int [of 4, where 'a = 32] by (simp add: np_u32_def [abs_def])

lemma up_eqs: "up_u8 s v = s @ be_bytes 1 v" "up_u16 s w = s @ be_bytes 2 w" "up_u32 s x = s @ be_bytes 4 x"
  by (simp_all add: up_u8_def up_u16_def up_u32_def up_int_eq)

end
