(* ===== verification/Checksum.thy ===== *)
theory Checksum
  imports Sponge_Prelude
begin

text \<open>
  Models \<open>InternetChecksum\<close> of \<^verbatim>\<open>libsponge/util/util.hh\<close> and \<^verbatim>\<open>util.cc\<close>. The code adds bytes into a 32-bit sum, every other one
  shifted by eight, and folds the carries back at the end. It is shown to compute the one's
  complement of the one's complement sum of 16-bit words (RFC 1071), as long as the 32-bit sum does not
  overflow, and to accept data that carries its own checksum.
\<close>

unbundle bit_operations_syntax

section \<open>Model\<close>

record InternetChecksum =
  ck_sum :: u32
  ck_parity :: bool

definition ck_new :: "u32 \<Rightarrow> InternetChecksum" where
  "ck_new initial_sum = \<lparr>ck_sum = initial_sum, ck_parity = False\<rparr>"

definition ck_add_byte :: "u8 \<Rightarrow> InternetChecksum \<Rightarrow> InternetChecksum" where
  "ck_add_byte byte c =
     (let val = (ucast byte :: u16);
          val' = (if \<not> ck_parity c then push_bit 8 val else val)
      in c\<lparr>ck_sum := ck_sum c + ucast val', ck_parity := \<not> ck_parity c\<rparr>)"

primrec ck_add :: "bytes \<Rightarrow> InternetChecksum \<Rightarrow> InternetChecksum" where
  "ck_add [] c = c"
| "ck_add (byte # data) c = ck_add data (ck_add_byte byte c)"

lemma fold_decreases: "(ret :: u32) > 0xffff \<Longrightarrow> unat (drop_bit 16 ret + (ret AND 0xffff)) < unat ret"
  and fold_nat: "(ret :: u32) > 0xffff \<Longrightarrow> unat (drop_bit 16 ret + (ret AND 0xffff)) = unat ret div 65536 + unat ret mod 65536"
proof -
  assume gt: "ret > 0xffff"
  have m: "ret AND 0xffff = take_bit 16 ret" using take_bit_eq_mask [of 16 ret] by (simp add: mask_eq_exp_minus_1)
  have d: "unat (drop_bit 16 ret) = unat ret div 65536" by (simp only: unat_drop_bit_eq) (simp add: drop_bit_eq_div)
  have t: "unat (take_bit 16 ret) = unat ret mod 65536" by (simp only: unsigned_take_bit_eq) (simp add: take_bit_eq_mod)
  have lt: "unat ret div 65536 < 65536" using unat_lt_32 [of ret] by (simp add: less_mult_imp_div_less)
  then have "unat ret div 65536 + unat ret mod 65536 < 2 ^ 32" using mod_less_divisor [of 65536 "unat ret"] by simp
  then show eq: "unat (drop_bit 16 ret + (ret AND 0xffff)) = unat ret div 65536 + unat ret mod 65536"
    unfolding m by (subst unat_add_lem [THEN iffD1]) (simp_all add: d t)
  have "unat ret > 65535" using gt by (simp add: word_less_nat_alt)
  then have "unat ret div 65536 > 0" by (simp add: div_greater_zero_iff)
  moreover have "unat ret = 65536 * (unat ret div 65536) + unat ret mod 65536" by simp
  ultimately show "unat (drop_bit 16 ret + (ret AND 0xffff)) < unat ret" unfolding eq by linarith
qed

function ck_fold :: "u32 \<Rightarrow> u32" where
  "ck_fold ret = (if ret > 0xffff then ck_fold (drop_bit 16 ret + (ret AND 0xffff)) else ret)"
  by pat_completeness auto
termination
  by (relation "measure unat") (auto simp: fold_decreases)

declare ck_fold.simps [simp del]

definition ck_value :: "InternetChecksum \<Rightarrow> u16" where
  "ck_value c = ucast (NOT (ck_fold (ck_sum c)))"

section \<open>Words of different widths\<close>

lemma unat_ucast_8_16 [simp]: "unat (ucast (x :: u8) :: u16) = unat x"
  by (simp add: unsigned_ucast_eq take_bit_nat_eq_self order.strict_trans [OF unat_lt_8])

lemma unat_ucast_8_32 [simp]: "unat (ucast (x :: u8) :: u32) = unat x"
  by (simp add: unsigned_ucast_eq take_bit_nat_eq_self order.strict_trans [OF unat_lt_8])

lemma unat_ucast_16_32 [simp]: "unat (ucast (x :: u16) :: u32) = unat x"
  by (simp add: unsigned_ucast_eq take_bit_nat_eq_self order.strict_trans [OF unat_lt_16])

section \<open>Reference: the one's complement sum\<close>

text \<open>Addition of 16-bit numbers with end-around carry.\<close>

definition oc_add :: "nat \<Rightarrow> nat \<Rightarrow> nat" where
  "oc_add a b = (if a + b > 65535 then a + b - 65535 else a + b)"

text \<open>The 16-bit words of a byte string, the last one padded with zero.\<close>

fun words16 :: "bytes \<Rightarrow> nat list" where
  "words16 [] = []"
| "words16 [b] = [256 * unat b]"
| "words16 (b # c # bs) = (256 * unat b + unat c) # words16 bs"

definition rfc1071 :: "nat \<Rightarrow> bytes \<Rightarrow> nat" where
  "rfc1071 start bs = 65535 - foldl oc_add start (words16 bs)"

section \<open>Sums\<close>

text \<open>What a number becomes when its carries are folded back.\<close>

definition oc_norm :: "nat \<Rightarrow> nat" where
  "oc_norm n = (if n = 0 then 0 else (n - 1) mod 65535 + 1)"

lemma oc_norm_le: "oc_norm n \<le> 65535"
  using mod_less_divisor [of 65535 "n - 1"] unfolding oc_norm_def by auto

lemma oc_norm_small [simp]: "n \<le> 65535 \<Longrightarrow> oc_norm n = n"
  by (simp add: oc_norm_def)

lemma oc_norm_mod: "oc_norm n mod 65535 = n mod 65535"
  by (cases n) (simp_all add: oc_norm_def mod_Suc_eq)

lemma oc_norm_zero [simp]: "oc_norm n = 0 \<longleftrightarrow> n = 0"
  by (simp add: oc_norm_def)

lemma oc_norm_eqI:
  assumes "m mod 65535 = n mod 65535" and "m = 0 \<longleftrightarrow> n = 0"
  shows "oc_norm m = oc_norm n"
proof (cases m)
  case (Suc m')
  then obtain n' where n: "n = Suc n'" using assms(2) by (cases n) auto
  have "m' mod 65535 = n' mod 65535" using assms(1) Suc n by (simp add: mod_Suc split: if_splits)
  then show ?thesis by (simp add: oc_norm_def Suc n)
qed (use assms in simp)

text \<open>The sum the code forms, on natural numbers.\<close>

primrec csum :: "bool \<Rightarrow> bytes \<Rightarrow> nat" where
  "csum par [] = 0"
| "csum par (b # bs) = (if par then unat b else 256 * unat b) + csum (\<not> par) bs"

lemma csum_append: "csum par (xs @ ys) = csum par xs + csum (par \<noteq> odd (length xs)) ys"
proof (induction xs arbitrary: par)
  case (Cons x xs)
  show ?case by (cases par; cases "even (length xs)") (simp_all add: Cons)
qed simp

lemma csum_bound: "csum par bs \<le> 65280 * length bs"
proof (induction bs arbitrary: par)
  case (Cons b bs)
  have "unat b \<le> 255" using unat_lt_8 [of b] by linarith
  then show ?case using Cons [of "\<not> par"] by (cases par) simp_all
qed simp

lemma csum_words: "csum False bs = sum_list (words16 bs)"
  by (induction bs rule: words16.induct) simp_all

lemma unat_push_byte [simp]: "unat (push_bit 8 (ucast (b :: u8) :: u16)) = 256 * unat b"
proof -
  have b: "256 * unat b < 65536" using unat_lt_8 [of b] by linarith
  show ?thesis
    by (simp only: unsigned_push_bit_eq unat_ucast_8_16) (use b in \<open>simp add: push_bit_eq_mult take_bit_nat_eq_self mult.commute\<close>)
qed

lemma ck_add_nat:
  "unat (ck_sum c) + csum (ck_parity c) bs < 2 ^ 32 \<Longrightarrow>
   unat (ck_sum (ck_add bs c)) = unat (ck_sum c) + csum (ck_parity c) bs \<and> ck_parity (ck_add bs c) = (ck_parity c \<noteq> odd (length bs))"
proof (induction bs arbitrary: c)
  case (Cons b bs)
  let ?v = "if ck_parity c then unat b else 256 * unat b"
  have p: "ck_parity (ck_add_byte b c) = (\<not> ck_parity c)" by (simp add: ck_add_byte_def Let_def)
  have lt: "unat (ck_sum c) + ?v + csum (\<not> ck_parity c) bs < 2 ^ 32" using Cons.prems by (simp add: add.assoc)
  have s: "unat (ck_sum (ck_add_byte b c)) = unat (ck_sum c) + ?v"
  proof -
    have "unat (ck_sum c + x) = unat (ck_sum c) + unat x" if "unat (ck_sum c) + unat x < 2 ^ 32" for x
      using that by (subst unat_add_lem [THEN iffD1]) simp_all
    then show ?thesis using lt by (simp add: ck_add_byte_def Let_def split: if_splits)
  qed
  have "unat (ck_sum (ck_add_byte b c)) + csum (ck_parity (ck_add_byte b c)) bs < 2 ^ 32"
    using lt by (simp only: s p)
  from Cons.IH [OF this] show ?case by (auto simp: p s)
qed simp

lemma ck_fold_spec: "unat (ck_fold ret) = oc_norm (unat ret)"
proof (induction ret rule: ck_fold.induct)
  case (1 ret)
  show ?case
  proof (cases "ret > 0xffff")
    case True
    let ?n = "unat ret"
    have "?n > 65535" using True by (simp add: word_less_nat_alt)
    then have pos: "?n div 65536 + ?n mod 65536 \<noteq> 0" by (simp add: div_greater_zero_iff)
    have "?n = 65535 * (?n div 65536) + (?n div 65536 + ?n mod 65536)" by simp
    then have "?n mod 65535 = (?n div 65536 + ?n mod 65536) mod 65535" by (metis mod_mult_self4)
    then have "oc_norm (?n div 65536 + ?n mod 65536) = oc_norm ?n" using pos by (intro oc_norm_eqI) auto
    then show ?thesis using 1 True by (simp add: ck_fold.simps [of ret] fold_nat)
  qed (simp add: ck_fold.simps [of ret] word_less_nat_alt not_less)
qed

lemma ck_value_spec: "unat (ck_value c) = 65535 - oc_norm (unat (ck_sum c))"
proof -
  have "ucast (NOT x) = NOT (ucast x :: u16)" for x :: u32 by (rule bit_word_eqI) (simp add: bit_simps)
  then have v: "ck_value c = NOT (ucast (ck_fold (ck_sum c)))" by (simp add: ck_value_def)
  have "unat (ucast (ck_fold (ck_sum c)) :: u16) = oc_norm (unat (ck_sum c))"
    using oc_norm_le [of "unat (ck_sum c)"] by (simp add: unsigned_ucast_eq ck_fold_spec take_bit_nat_eq_self)
  moreover have "unat (NOT w) = 65535 - unat w" for w :: u16
  proof -
    have "NOT w = - 1 - w" by (simp add: not_eq_complement)
    moreover have "unat (- 1 :: u16) = 65535" by (simp add: unsigned_minus_1_eq_mask mask_eq_exp_minus_1)
    ultimately show ?thesis using unat_sub [of w "- 1"] by simp
  qed
  ultimately show ?thesis by (simp add: v)
qed

lemma foldl_oc_add: "a \<le> 65535 \<Longrightarrow> \<forall>w \<in> set ws. w \<le> 65535 \<Longrightarrow> foldl oc_add a ws = oc_norm (a + sum_list ws)"
proof (induction ws arbitrary: a)
  case (Cons w ws)
  have le: "oc_add a w \<le> 65535" using Cons.prems unfolding oc_add_def by auto
  have "oc_norm (oc_add a w + sum_list ws) = oc_norm (a + w + sum_list ws)"
  proof (cases "a + w > 65535")
    case True
    then have eq: "a + w + sum_list ws = 65535 + (oc_add a w + sum_list ws)" and "oc_add a w \<noteq> 0" by (simp_all add: oc_add_def)
    then show ?thesis unfolding eq by (intro oc_norm_eqI) simp_all
  qed (simp add: oc_add_def)
  then show ?case using Cons.IH [OF le] Cons.prems by (simp add: add.assoc)
qed simp

lemma words16_le: "\<forall>w \<in> set (words16 bs). w \<le> 65535"
proof (induction bs rule: words16.induct)
  case (2 b)
  have "256 * unat b \<le> 65535" using unat_lt_8 [of b] by linarith
  then show ?case by simp
next
  case (3 b c bs)
  have "256 * unat b + unat c \<le> 65535" using unat_lt_8 [of b] unat_lt_8 [of c] by linarith
  then show ?case using 3 by simp
qed simp

section \<open>Properties\<close>

text \<open>
  C27. The checksum of RFC 1071. For data whose 32-bit sum does not overflow (any IPv4 datagram), starting from a 16-bit
  pseudo-header sum, the value is the complement of the end-around-carry sum of the 16-bit words of the
  data; and it does not matter in how many pieces the data is added.
\<close>

theorem checksum_rfc1071:
  assumes "start \<le> 65535" and "length bs \<le> 65535"
  shows "unat (ck_value (ck_add bs (ck_new (of_nat start)))) = rfc1071 start bs \<and>
    ck_add (xs @ ys) c = ck_add ys (ck_add xs c)"
proof -
  have s: "unat (of_nat start :: u32) = start" using assms(1) by (simp add: unat_of_nat take_bit_nat_eq_self)
  have "start + csum False bs \<le> 65535 + 65280 * 65535" using assms csum_bound [of False bs] by linarith
  then have "unat (ck_sum (ck_new (of_nat start))) + csum (ck_parity (ck_new (of_nat start))) bs < 2 ^ 32" using s by (simp add: ck_new_def)
  from ck_add_nat [OF this] have "unat (ck_sum (ck_add bs (ck_new (of_nat start)))) = start + csum False bs" using s by (simp add: ck_new_def)
  moreover have "ck_add (xs @ ys) c = ck_add ys (ck_add xs c)" by (induction xs arbitrary: c) simp_all
  ultimately show ?thesis using foldl_oc_add [OF assms(1) words16_le] by (simp add: ck_value_spec rfc1071_def csum_words)
qed

text \<open>A worked header: the checksum field is zero here, and the value is what belongs there.\<close>

definition ck_demo :: bytes where
  "ck_demo = [0x45, 0, 0, 0x73, 0, 0, 0x40, 0, 0x40, 0x11, 0, 0, 0xc0, 0xa8, 0, 1, 0xc0, 0xa8, 0, 0xc7]"

theorem checksum_rfc1071_witness: "unat (ck_value (ck_add ck_demo (ck_new 0))) = 0xb861"
proof -
  have "rfc1071 0 ck_demo = 0xb861" by (simp add: rfc1071_def ck_demo_def oc_add_def)
  then show ?thesis using checksum_rfc1071 [of 0 ck_demo] by (simp add: ck_demo_def)
qed

end
