(* ===== verification/Text_Format.thy ===== *)
theory Text_Format
  imports Checksum
begin

text \<open>
  How the sources print numbers: \<open>operator<<\<close> on an output stream with the manipulators \<open>hex\<close>, \<open>dec\<close>,
  \<open>setw\<close>, \<open>setfill\<close> and \<open>boolalpha\<close>, and \<open>hexdump\<close> of \<^verbatim>\<open>libsponge/util/util.cc\<close>. What is written to the
  stream is a string.
\<close>

section \<open>Numbers as text\<close>

definition digits :: string where
  "digits = ''0123456789abcdef''"

definition digit_char :: "nat \<Rightarrow> char" where
  "digit_char d = digits ! d"

fun show_base :: "nat \<Rightarrow> nat \<Rightarrow> string" where
  "show_base b n = (if b \<le> 1 \<or> n < b then [digit_char n] else show_base b (n div b) @ [digit_char (n mod b)])"

declare show_base.simps [simp del]

definition show_dec :: "nat \<Rightarrow> string" where
  "show_dec n = show_base 10 n"

definition show_hex :: "nat \<Rightarrow> string" where
  "show_hex n = show_base 16 n"

text \<open>\<open>setw (w)\<close> with \<open>setfill ('0')\<close>; \<open>setw\<close> holds for the next output only.\<close>

definition setw0 :: "nat \<Rightarrow> string \<Rightarrow> string" where
  "setw0 w s = replicate (w - length s) (CHR ''0'') @ s"

definition show_boolalpha :: "bool \<Rightarrow> string" where
  "show_boolalpha b = (if b then ''true'' else ''false'')"

definition newline :: string where
  "newline = [char_of (10 :: nat)]"

section \<open>hexdump\<close>

text \<open>
  \<open>isprint\<close> in the C locale. The stream \<open>pchars\<close> is created from \<open>" "\<close> with its write position at the start, so that the
  first character written replaces the space.
\<close>

definition is_print :: "u8 \<Rightarrow> bool" where
  "is_print b \<longleftrightarrow> 32 \<le> b \<and> b \<le> 126"

definition pchars_str :: "string \<Rightarrow> string" where
  "pchars_str cs = (if cs = [] then '' '' else cs)"

definition hexdump_byte :: "nat \<Rightarrow> u8 \<Rightarrow> nat \<Rightarrow> string \<Rightarrow> string \<times> string" where
  "hexdump_byte indent byte printed pchars =
     (let (pre, pchars1) =
            (if printed mod 16 = 0
             then ((if printed \<noteq> 0 then ''    '' @ pchars_str pchars @ newline else []) @
                     replicate indent (CHR '' '') @ setw0 8 (show_hex printed) @ '':    '',
                   if printed \<noteq> 0 then [] else pchars)
             else if printed mod 2 = 0 then ('' '', pchars) else ([], pchars))
      in (pre @ setw0 2 (show_hex (unat byte)), pchars1 @ [if is_print byte then char_of (unat byte) else CHR ''.'']))"

primrec hexdump_loop :: "nat \<Rightarrow> bytes \<Rightarrow> nat \<Rightarrow> string \<Rightarrow> string" where
  "hexdump_loop indent [] printed pchars =
     (let print_rem = (16 - printed mod 16) mod 16
      in replicate (2 * print_rem + print_rem div 2 + 4) (CHR '' '') @ pchars_str pchars @ newline @ newline)"
| "hexdump_loop indent (byte # data) printed pchars =
     (let (out, pchars1) = hexdump_byte indent byte printed pchars
      in out @ hexdump_loop indent data (printed + 1) pchars1)"

definition hexdump :: "bytes \<Rightarrow> nat \<Rightarrow> string" where
  "hexdump data indent = hexdump_loop indent data 0 []"

section \<open>Lemmas\<close>

lemma digit_char_inj: "d < 16 \<Longrightarrow> e < 16 \<Longrightarrow> digit_char d = digit_char e \<longleftrightarrow> d = e"
proof -
  have "distinct digits" "length digits = 16" by (simp_all add: digits_def)
  then show "d < 16 \<Longrightarrow> e < 16 \<Longrightarrow> digit_char d = digit_char e \<longleftrightarrow> d = e" by (simp add: digit_char_def nth_eq_iff_index_eq)
qed

lemma show_base_small: "n < b \<Longrightarrow> show_base b n = [digit_char n]"
  by (simp add: show_base.simps)

text \<open>Two hexadecimal digits for a byte.\<close>

lemma hex_byte: "setw0 2 (show_hex (unat (x :: u8))) = [digit_char (unat x div 16), digit_char (unat x mod 16)]"
proof (cases "unat x < 16")
  case True
  then show ?thesis by (simp add: setw0_def show_hex_def show_base_small digit_char_def digits_def)
next
  case False
  then have "unat x div 16 < 16" using unat_lt_8 [of x] by (simp add: less_mult_imp_div_less)
  then show ?thesis using False by (simp add: setw0_def show_hex_def show_base.simps [of 16 "unat x"] show_base_small)
qed

lemma hex_byte_inj: "setw0 2 (show_hex (unat (x :: u8))) = setw0 2 (show_hex (unat y)) \<longleftrightarrow> x = y"
proof
  have lt: "unat z div 16 < 16" for z :: u8 using unat_lt_8 [of z] by (simp add: less_mult_imp_div_less)
  assume "setw0 2 (show_hex (unat x)) = setw0 2 (show_hex (unat y))"
  then have "unat x div 16 = unat y div 16" "unat x mod 16 = unat y mod 16"
    using lt [of x] lt [of y] by (simp_all add: hex_byte digit_char_inj)
  then have "unat x = unat y" by (metis div_mult_mod_eq)
  then show "x = y" by (rule unat_eqI)
qed simp

end
