(* ===== verification/Codec_Lib.thy ===== *)
theory Codec_Lib
  imports Net_Parser Text_Format
begin

text \<open>
  What the header codecs share: \<open>std::string::resize\<close>, and the checksum field of a header, which is zero while the sum is formed
  and then holds its complement.
\<close>

unbundle bit_operations_syntax

text \<open>\<open>std::string::resize\<close>: cut, or extend with zero bytes.\<close>

definition resize :: "nat \<Rightarrow> bytes \<Rightarrow> bytes" where
  "resize n s = take n s @ replicate (n - length s) 0"

lemma resize_ge: "length s \<le> n \<Longrightarrow> resize n s = s @ replicate (n - length s) 0"
  by (simp add: resize_def)

lemma unat_byte_of_word: "unat (ucast (x :: 'a::len word) :: u8) = unat x mod 256"
  by (simp add: unsigned_ucast_eq take_bit_eq_mod)

lemma csum_be16 [simp]: "csum False (be_bytes 2 (v :: u16)) = unat v"
proof -
  have "unat (drop_bit 8 v) = unat v div 256" by (simp only: unat_drop_bit_eq) (simp add: drop_bit_eq_div)
  moreover have "unat v div 256 < 256" using unat_lt_16 [of v] by (simp add: less_mult_imp_div_less)
  ultimately show ?thesis by (simp add: numeral_2_eq_2 unat_byte_of_word)
qed

lemma csum_replicate_0 [simp]: "csum par (replicate n 0) = 0"
  by (induction n arbitrary: par) simp_all

text \<open>What a field that is there is read as.\<close>

lemma np_parse_int_value:
  "np_ready p bs \<Longrightarrow> n \<le> length bs \<Longrightarrow> \<exists>p'. np_parse_int n p = Inr (p', foldl be_step 0 (take n bs)) \<and> np_ready p' (drop n bs)"
  using np_parse_int_cases [of p n] by (auto simp: np_ready_def)

lemma np_u8_ready: "np_ready p bs \<Longrightarrow> 1 \<le> length bs \<Longrightarrow> \<exists>p'. np_u8 p = Inr (p', bs ! 0) \<and> np_ready p' (drop 1 bs)"
  using np_parse_int_value [of p bs 1, where 'a = 8] by (cases bs) (auto simp: np_u8_def be_step_def)

lemma np_u16_ready: "np_ready p bs \<Longrightarrow> 2 \<le> length bs \<Longrightarrow>
   \<exists>p'. np_u16 p = Inr (p', be_step (be_step 0 (bs ! 0)) (bs ! 1)) \<and> np_ready p' (drop 2 bs)"
  using np_parse_int_value [of p bs 2, where 'a = 16] by (cases bs; cases "tl bs") (auto simp: np_u16_def)

lemma np_u32_ready: "np_ready p bs \<Longrightarrow> 4 \<le> length bs \<Longrightarrow> \<exists>p' v. np_u32 p = Inr (p', v) \<and> np_ready p' (drop 4 bs)"
  using np_parse_int_value [of p bs 4, where 'a = 32] by (auto simp: np_u32_def)

text \<open>The same at position \<open>i\<close> of a string.\<close>

lemma np_u8_at: "np_ready p (drop i bs) \<Longrightarrow> j = i + 1 \<Longrightarrow> j \<le> length bs \<Longrightarrow>
   \<exists>p'. np_u8 p = Inr (p', bs ! i) \<and> np_ready p' (drop j bs)"
  using np_u8_ready [of p "drop i bs"] by (simp add: add.commute)

lemma np_u16_at: "np_ready p (drop i bs) \<Longrightarrow> j = i + 2 \<Longrightarrow> j \<le> length bs \<Longrightarrow>
   \<exists>p'. np_u16 p = Inr (p', be_step (be_step 0 (bs ! i)) (bs ! (i + 1))) \<and> np_ready p' (drop j bs)"
  using np_u16_ready [of p "drop i bs"] by (simp add: add.commute)

lemma np_u32_at: "np_ready p (drop i bs) \<Longrightarrow> j = i + 4 \<Longrightarrow> j \<le> length bs \<Longrightarrow>
   \<exists>p' v. np_u32 p = Inr (p', v) \<and> np_ready p' (drop j bs)"
  using np_u32_ready [of p "drop i bs"] by (simp add: add.commute)

lemma np_u8_value: "np_wf p \<Longrightarrow> np_error p = NoError \<Longrightarrow> np_u8 p = Inr (p', v) \<Longrightarrow> np_str p \<noteq> [] \<Longrightarrow> v = np_str p ! 0"
  using np_u8_ready [of p "np_str p"] by (cases "np_str p") (auto simp: np_ready_def)

text \<open>Data that carries its own checksum in a field at an even position sums up to zero.\<close>

lemma ck_verifies:
  fixes a b :: bytes and start :: u32
  defines "v \<equiv> ck_value (ck_add (a @ be_bytes 2 (0 :: u16) @ b) (ck_new start))"
  assumes "even (length a)" and "unat start + csum False a + csum False b + 65535 < 2 ^ 32"
  shows "ck_value (ck_add (a @ be_bytes 2 v @ b) (ck_new start)) = 0"
proof -
  let ?T = "unat start + csum False a + csum False b"
  have sum: "csum False (a @ be_bytes 2 (w :: u16) @ b) = csum False a + unat w + csum False b" for w
    using assms(2) by (simp add: csum_append)
  have run: "unat (ck_sum (ck_add (a @ be_bytes 2 (w :: u16) @ b) (ck_new start))) = ?T + unat w" for w
  proof -
    have "unat w \<le> 65535" using unat_lt_16 [of w] by linarith
    then have "unat start + csum False (a @ be_bytes 2 w @ b) < 2 ^ 32" using assms(3) unfolding sum by linarith
    then show ?thesis using ck_add_nat [of "ck_new start" "a @ be_bytes 2 w @ b"] by (simp add: ck_new_def sum)
  qed
  have v: "unat v = 65535 - oc_norm ?T" using run [of 0] by (simp add: v_def ck_value_spec)
  have "(oc_norm ?T + unat v) mod 65535 = 0" using v oc_norm_le [of ?T] by simp
  then have "(?T + unat v) mod 65535 = 65535 mod 65535" using oc_norm_mod [of ?T] by (metis mod_add_left_eq mod_self)
  moreover have "?T + unat v \<noteq> 0" using v by (cases "?T = 0") auto
  ultimately have "oc_norm (?T + unat v) = oc_norm 65535" by (intro oc_norm_eqI) simp_all
  then have "unat (ck_value (ck_add (a @ be_bytes 2 v @ b) (ck_new start))) = 0" by (simp add: ck_value_spec run)
  then show ?thesis by (simp add: unat_eq_0)
qed

end
