(* ===== verification/Ethernet.thy ===== *)
theory Ethernet
  imports Codec_Lib
begin

text \<open>
  Models \<^verbatim>\<open>libsponge/tcp_helpers/ethernet_header.hh\<close>, \<^verbatim>\<open>ethernet_header.cc\<close>, \<^verbatim>\<open>ethernet_frame.hh\<close>, \<^verbatim>\<open>ethernet_frame.cc\<close>,
  \<^verbatim>\<open>arp_message.hh\<close> and \<^verbatim>\<open>arp_message.cc\<close>. An \<open>EthernetAddress\<close> is an array of six bytes: a list, of length
  six in well-formed headers and messages. \<open>inet_ntoa\<close> is an argument of the printing function.
\<close>

section \<open>Addresses\<close>

type_synonym EthernetAddress = bytes

definition ETHERNET_BROADCAST :: EthernetAddress where
  "ETHERNET_BROADCAST = [0xff, 0xff, 0xff, 0xff, 0xff, 0xff]"

definition mac_zero :: EthernetAddress where
  "mac_zero = [0, 0, 0, 0, 0, 0]"

text \<open>The loops over the bytes of an address in \<open>parse\<close> and \<open>serialize\<close>.\<close>

primrec mac_read :: "EthernetAddress \<Rightarrow> NetParser \<Rightarrow> (NetParser \<times> EthernetAddress) res" where
  "mac_read [] p = Inr (p, [])"
| "mac_read (_ # a) p = bindE (np_u8 p) (\<lambda>(p, byte). bindE (mac_read a p) (\<lambda>(p, a'). Inr (p, byte # a')))"

primrec mac_write :: "EthernetAddress \<Rightarrow> bytes \<Rightarrow> bytes" where
  "mac_write [] ret = ret"
| "mac_write (byte # a) ret = mac_write a (up_u8 ret byte)"

fun mac_to_string :: "EthernetAddress \<Rightarrow> string" where
  "mac_to_string [] = []"
| "mac_to_string (b # a) = setw0 2 (show_hex (unat b)) @ (if a \<noteq> [] then '':'' else []) @ mac_to_string a"

section \<open>Header and frame\<close>

definition EthernetHeader_LENGTH :: nat where
  "EthernetHeader_LENGTH = 14"

definition TYPE_IPv4 :: u16 where
  "TYPE_IPv4 = 0x800"

definition TYPE_ARP :: u16 where
  "TYPE_ARP = 0x806"

record EthernetHeader =
  eh_dst :: EthernetAddress
  eh_src :: EthernetAddress
  eh_type :: u16

definition eh_parse :: "EthernetHeader \<Rightarrow> NetParser \<Rightarrow> (NetParser \<times> EthernetHeader \<times> ParseResult) res" where
  "eh_parse h p =
     (if bf_size (np_buffer p) < EthernetHeader_LENGTH then Inr (p, h, PacketTooShort)
      else bindE (mac_read (eh_dst h) p) (\<lambda>(p, dst).
           bindE (mac_read (eh_src h) p) (\<lambda>(p, src).
           bindE (np_u16 p) (\<lambda>(p, type).
             Inr (p, \<lparr>eh_dst = dst, eh_src = src, eh_type = type\<rparr>, np_error p)))))"

definition eh_serialize :: "EthernetHeader \<Rightarrow> bytes" where
  "eh_serialize h = up_u16 (mac_write (eh_src h) (mac_write (eh_dst h) [])) (eh_type h)"

definition eh_to_string :: "EthernetHeader \<Rightarrow> string" where
  "eh_to_string h =
     ''dst='' @ mac_to_string (eh_dst h) @ '', src='' @ mac_to_string (eh_src h) @ '', type='' @
     (if eh_type h = TYPE_IPv4 then ''IPv4''
      else if eh_type h = TYPE_ARP then ''ARP''
      else ''[unknown type '' @ show_hex (unat (eh_type h)) @ ''!]'')"

record EthernetFrame =
  ef_header :: EthernetHeader
  ef_payload :: BufferList

definition ef_default :: EthernetFrame where
  "ef_default = \<lparr>ef_header = \<lparr>eh_dst = mac_zero, eh_src = mac_zero, eh_type = 0\<rparr>, ef_payload = []\<rparr>"

definition ef_parse :: "Buffer \<Rightarrow> EthernetFrame \<Rightarrow> (EthernetFrame \<times> ParseResult) res" where
  "ef_parse buffer f =
     bindE (eh_parse (ef_header f) (np_new buffer)) (\<lambda>(p, header, _).
       Inr (\<lparr>ef_header = header, ef_payload = bl_of_buffer (np_buffer p)\<rparr>, np_error p))"

definition ef_serialize :: "EthernetFrame \<Rightarrow> BufferList" where
  "ef_serialize f = bl_append (ef_payload f) (bl_append (bl_of_string (eh_serialize (ef_header f))) [])"

section \<open>ARP messages\<close>

definition ARPMessage_LENGTH :: nat where
  "ARPMessage_LENGTH = 28"

definition TYPE_ETHERNET :: u16 where
  "TYPE_ETHERNET = 1"

definition OPCODE_REQUEST :: u16 where
  "OPCODE_REQUEST = 1"

definition OPCODE_REPLY :: u16 where
  "OPCODE_REPLY = 2"

record ARPMessage =
  am_hardware_type :: u16
  am_protocol_type :: u16
  am_hardware_address_size :: u8
  am_protocol_address_size :: u8
  am_opcode :: u16
  am_sender_ethernet_address :: EthernetAddress
  am_sender_ip_address :: u32
  am_target_ethernet_address :: EthernetAddress
  am_target_ip_address :: u32

definition am_default :: ARPMessage where
  "am_default =
     \<lparr>am_hardware_type = TYPE_ETHERNET, am_protocol_type = TYPE_IPv4, am_hardware_address_size = 6, am_protocol_address_size = 4,
      am_opcode = 0, am_sender_ethernet_address = mac_zero, am_sender_ip_address = 0, am_target_ethernet_address = mac_zero,
      am_target_ip_address = 0\<rparr>"

definition am_supported :: "ARPMessage \<Rightarrow> bool" where
  "am_supported m \<longleftrightarrow> am_hardware_type m = TYPE_ETHERNET \<and> am_protocol_type m = TYPE_IPv4 \<and> am_hardware_address_size m = 6 \<and>
     am_protocol_address_size m = 4 \<and> (am_opcode m = OPCODE_REQUEST \<or> am_opcode m = OPCODE_REPLY)"

definition am_parse :: "Buffer \<Rightarrow> ARPMessage \<Rightarrow> (ARPMessage \<times> ParseResult) res" where
  "am_parse buffer m =
     (let p = np_new buffer
      in if bf_size (np_buffer p) < ARPMessage_LENGTH then Inr (m, PacketTooShort)
         else
           bindE (np_u16 p) (\<lambda>(p, hardware_type).
           bindE (np_u16 p) (\<lambda>(p, protocol_type).
           bindE (np_u8 p) (\<lambda>(p, hardware_address_size).
           bindE (np_u8 p) (\<lambda>(p, protocol_address_size).
           bindE (np_u16 p) (\<lambda>(p, opcode).
             let m1 = m\<lparr>am_hardware_type := hardware_type, am_protocol_type := protocol_type,
                        am_hardware_address_size := hardware_address_size, am_protocol_address_size := protocol_address_size,
                        am_opcode := opcode\<rparr>
             in if \<not> am_supported m1 then Inr (m1, Unsupported)
                else
                  bindE (mac_read (am_sender_ethernet_address m1) p) (\<lambda>(p, sender_ethernet_address).
                  bindE (np_u32 p) (\<lambda>(p, sender_ip_address).
                  bindE (mac_read (am_target_ethernet_address m1) p) (\<lambda>(p, target_ethernet_address).
                  bindE (np_u32 p) (\<lambda>(p, target_ip_address).
                    Inr (m1\<lparr>am_sender_ethernet_address := sender_ethernet_address, am_sender_ip_address := sender_ip_address,
                            am_target_ethernet_address := target_ethernet_address, am_target_ip_address := target_ip_address\<rparr>,
                         np_error p)))))))))))"

definition am_serialize :: "ARPMessage \<Rightarrow> bytes res" where
  "am_serialize m =
     (if \<not> am_supported m then Inl RuntimeError
      else let ret = up_u16 [] (am_hardware_type m);
               ret = up_u16 ret (am_protocol_type m);
               ret = up_u8 ret (am_hardware_address_size m);
               ret = up_u8 ret (am_protocol_address_size m);
               ret = up_u16 ret (am_opcode m);
               ret = mac_write (am_sender_ethernet_address m) ret;
               ret = up_u32 ret (am_sender_ip_address m);
               ret = mac_write (am_target_ethernet_address m) ret;
               ret = up_u32 ret (am_target_ip_address m)
           in Inr ret)"

definition am_to_string :: "(u32 \<Rightarrow> string) \<Rightarrow> ARPMessage \<Rightarrow> string" where
  "am_to_string inet_ntoa m =
     (let opcode_str = ''(unknown type)'';
          opcode_str = (if am_opcode m = OPCODE_REQUEST then ''REQUEST'' else opcode_str);
          opcode_str = (if am_opcode m = OPCODE_REPLY then ''REPLY'' else opcode_str)
      in ''opcode='' @ opcode_str @ '', sender='' @ mac_to_string (am_sender_ethernet_address m) @ ''/'' @
         inet_ntoa (am_sender_ip_address m) @ '', target='' @ mac_to_string (am_target_ethernet_address m) @ ''/'' @
         inet_ntoa (am_target_ip_address m))"

section \<open>Addresses on the wire\<close>

lemma length_mac_zero [simp]: "length mac_zero = 6"
  by (simp add: mac_zero_def)

lemma be_bytes_1 [simp]: "be_bytes (Suc 0) (b :: u8) = [b]"
  by simp

lemma mac_write_eq [simp]: "mac_write a ret = ret @ a"
  by (induction a arbitrary: ret) (simp_all add: up_eqs)

lemma mac_read_length_only: "length a = length b \<Longrightarrow> mac_read a p = mac_read b p"
  by (induction a b arbitrary: p rule: list_induct2) simp_all

lemma mac_read_enc: "length a0 = length a \<Longrightarrow> np_ready p (a @ rest) \<Longrightarrow> \<exists>p'. mac_read a0 p = Inr (p', a) \<and> np_ready p' rest"
proof (induction a0 a arbitrary: p rule: list_induct2)
  case (Cons x xs y ys)
  have "np_ready p (be_bytes 1 y @ ys @ rest)" using Cons.prems by simp
  from u8.dec_enc [OF TrueI this] obtain p1 where 1: "np_u8 p = Inr (p1, y)" "np_ready p1 (ys @ rest)" by blast
  then show ?case using Cons.IH [OF 1(2)] by auto
qed simp

lemma mac_read_any: "np_wf p \<Longrightarrow> \<exists>p' a. mac_read a0 p = Inr (p', a) \<and> np_reads (length a0) p p' \<and> length a = length a0"
proof (induction a0 arbitrary: p)
  case Nil
  then show ?case by (simp add: np_reads_def)
next
  case (Cons x xs)
  obtain p1 v where 1: "np_u8 p = Inr (p1, v)" "np_reads 1 p p1" using u8.dec_any [OF Cons.prems] by blast
  obtain p2 a where 2: "mac_read xs p1 = Inr (p2, a)" "np_reads (length xs) p1 p2" "length a = length xs" using Cons.IH 1(2) by blast
  then have "np_reads (length (x # xs)) p p2" using np_reads_trans [OF 1(2) 2(2)] by simp
  then show ?case using 1 2 by simp
qed

interpretation mac: field_codec "\<lambda>a. length a = 6" "\<lambda>a. a" "mac_read mac_zero" 6
proof unfold_locales
  show "\<exists>p'. mac_read mac_zero p = Inr (p', a) \<and> np_ready p' rest" if "length a = 6" "np_ready p (a @ rest)" for a p rest
    using mac_read_enc [of mac_zero a p rest] that by simp
  show "\<exists>p' y. mac_read mac_zero p = Inr (p', y) \<and> np_reads 6 p p' \<and> (np_error p' = NoError \<longrightarrow> length y = 6)" if "np_wf p" for p
    using mac_read_any [OF that, of mac_zero] by auto
qed

lemma mac_read_zero: "length a = 6 \<Longrightarrow> mac_read a = mac_read mac_zero"
  by (intro ext mac_read_length_only) simp

section \<open>Frames and messages on the wire\<close>

definition eh_wf :: "EthernetHeader \<Rightarrow> bool" where
  "eh_wf h \<longleftrightarrow> length (eh_dst h) = 6 \<and> length (eh_src h) = 6"

definition am_wf :: "ARPMessage \<Rightarrow> bool" where
  "am_wf m \<longleftrightarrow> length (am_sender_ethernet_address m) = 6 \<and> length (am_target_ethernet_address m) = 6"

lemma eh_serialize_eq: "eh_serialize h = eh_dst h @ eh_src h @ be_bytes 2 (eh_type h)"
  by (simp add: eh_serialize_def up_eqs)

lemma eh_parse_serialized:
  assumes "eh_wf h" "eh_wf h0" and p: "np_ready p (eh_dst h @ eh_src h @ be_bytes 2 (eh_type h) @ rest)"
  shows "\<exists>q. eh_parse h0 p = Inr (q, h, NoError) \<and> np_ready q rest"
proof -
  have wf: "length (eh_dst h) = 6" "length (eh_src h) = 6" "mac_read (eh_dst h0) = mac_read mac_zero" "mac_read (eh_src h0) = mac_read mac_zero"
    using assms(1,2) by (auto simp: eh_wf_def intro: mac_read_zero)
  from mac.dec_enc [OF wf(1) p] obtain p1 where 1: "mac_read mac_zero p = Inr (p1, eh_dst h)" "np_ready p1 (eh_src h @ be_bytes 2 (eh_type h) @ rest)" by blast
  from mac.dec_enc [OF wf(2) 1(2)] obtain p2 where 2: "mac_read mac_zero p1 = Inr (p2, eh_src h)" "np_ready p2 (be_bytes 2 (eh_type h) @ rest)" by blast
  from u16.dec_enc [OF TrueI 2(2)] obtain p3 where 3: "np_u16 p2 = Inr (p3, eh_type h)" "np_ready p3 rest" by blast
  have "\<not> bf_size (np_buffer p) < EthernetHeader_LENGTH" using p wf(1,2) by (simp add: bf_size_def np_ready_def EthernetHeader_LENGTH_def)
  then have "eh_parse h0 p = Inr (p3, h, NoError)" using 1(1) 2(1) 3 wf(3,4) by (simp add: eh_parse_def np_ready_def)
  then show ?thesis using 3(2) by blast
qed

lemma ef_roundtrip:
  assumes "eh_wf (ef_header f)" "eh_wf (ef_header f0)" "bl_concatenate bl = bl_concatenate (ef_serialize f)"
  shows "\<exists>b. ef_parse (bf_new (bl_concatenate bl)) f0 = Inr (\<lparr>ef_header = ef_header f, ef_payload = [b]\<rparr>, NoError) \<and>
    bf_wf b \<and> bf_str b = bl_concatenate (ef_payload f)"
proof -
  let ?h = "ef_header f" let ?w = "bl_concatenate bl"
  have w: "?w = eh_dst ?h @ eh_src ?h @ be_bytes 2 (eh_type ?h) @ bl_concatenate (ef_payload f)"
    unfolding assms(3) by (simp add: ef_serialize_def eh_serialize_eq)
  have "np_ready (np_new (bf_new ?w)) ?w" using np_ready_new [of "bf_new ?w"] by simp
  then obtain q where "eh_parse (ef_header f0) (np_new (bf_new ?w)) = Inr (q, ?h, NoError)" "np_ready q (bl_concatenate (ef_payload f))"
    using eh_parse_serialized [OF assms(1,2)] unfolding w by blast
  then show ?thesis by (simp add: ef_parse_def bl_of_buffer_def np_ready_def np_wf_def)
qed

lemma am_serialize_eq:
  "am_serialize m = (if \<not> am_supported m then Inl RuntimeError else Inr (be_bytes 2 (am_hardware_type m) @ be_bytes 2 (am_protocol_type m) @
     be_bytes 1 (am_hardware_address_size m) @ be_bytes 1 (am_protocol_address_size m) @ be_bytes 2 (am_opcode m) @
     am_sender_ethernet_address m @ be_bytes 4 (am_sender_ip_address m) @ am_target_ethernet_address m @ be_bytes 4 (am_target_ip_address m)))"
  by (simp add: am_serialize_def up_eqs)

lemma am_roundtrip:
  assumes "am_wf m" "am_wf m0" "am_supported m" and b: "bf_wf b" "am_serialize m = Inr (bf_str b)"
  shows "am_parse b m0 = Inr (m, NoError)"
proof -
  let ?t8 = "be_bytes 4 (am_target_ip_address m) @ []"
  let ?t7 = "am_target_ethernet_address m @ ?t8"
  let ?t6 = "be_bytes 4 (am_sender_ip_address m) @ ?t7"
  let ?t5 = "am_sender_ethernet_address m @ ?t6"
  let ?t4 = "be_bytes 2 (am_opcode m) @ ?t5"
  let ?t3 = "be_bytes 1 (am_protocol_address_size m) @ ?t4"
  let ?t2 = "be_bytes 1 (am_hardware_address_size m) @ ?t3"
  let ?t1 = "be_bytes 2 (am_protocol_type m) @ ?t2"
  have wf: "length (am_sender_ethernet_address m) = 6" "length (am_target_ethernet_address m) = 6"
    "mac_read (am_sender_ethernet_address m0) = mac_read mac_zero" "mac_read (am_target_ethernet_address m0) = mac_read mac_zero"
    using assms(1,2) by (auto simp: am_wf_def intro: mac_read_zero)
  have str: "bf_str b = be_bytes 2 (am_hardware_type m) @ ?t1" using b(2) assms(3) by (simp add: am_serialize_eq)
  have 0: "np_ready (np_new b) (be_bytes 2 (am_hardware_type m) @ ?t1)" using np_ready_new [OF b(1)] str by simp
  from u16.dec_enc [OF TrueI 0] obtain p1 where 1: "np_u16 (np_new b) = Inr (p1, am_hardware_type m)" "np_ready p1 ?t1" by blast
  from u16.dec_enc [OF TrueI 1(2)] obtain p2 where 2: "np_u16 p1 = Inr (p2, am_protocol_type m)" "np_ready p2 ?t2" by blast
  from u8.dec_enc [OF TrueI 2(2)] obtain p3 where 3: "np_u8 p2 = Inr (p3, am_hardware_address_size m)" "np_ready p3 ?t3" by blast
  from u8.dec_enc [OF TrueI 3(2)] obtain p4 where 4: "np_u8 p3 = Inr (p4, am_protocol_address_size m)" "np_ready p4 ?t4" by blast
  from u16.dec_enc [OF TrueI 4(2)] obtain p5 where 5: "np_u16 p4 = Inr (p5, am_opcode m)" "np_ready p5 ?t5" by blast
  from mac.dec_enc [OF wf(1) 5(2)] obtain p6 where 6: "mac_read mac_zero p5 = Inr (p6, am_sender_ethernet_address m)" "np_ready p6 ?t6" by blast
  from u32.dec_enc [OF TrueI 6(2)] obtain p7 where 7: "np_u32 p6 = Inr (p7, am_sender_ip_address m)" "np_ready p7 ?t7" by blast
  from mac.dec_enc [OF wf(2) 7(2)] obtain p8 where 8: "mac_read mac_zero p7 = Inr (p8, am_target_ethernet_address m)" "np_ready p8 ?t8" by blast
  from u32.dec_enc [OF TrueI 8(2)] obtain p9 where 9: "np_u32 p8 = Inr (p9, am_target_ip_address m)" "np_ready p9 []" by blast
  have len: "\<not> bf_size (np_buffer (np_new b)) < ARPMessage_LENGTH"
    using str wf(1,2) by (simp add: bf_size_def np_new_def ARPMessage_LENGTH_def)
  define m1 where "m1 = m0\<lparr>am_hardware_type := am_hardware_type m, am_protocol_type := am_protocol_type m,
    am_hardware_address_size := am_hardware_address_size m, am_protocol_address_size := am_protocol_address_size m, am_opcode := am_opcode m\<rparr>"
  have m1: "am_supported m1" "am_sender_ethernet_address m1 = am_sender_ethernet_address m0" "am_target_ethernet_address m1 = am_target_ethernet_address m0"
    using assms(3) by (simp_all add: m1_def am_supported_def)
  have "am_parse b m0 = Inr (m1\<lparr>am_sender_ethernet_address := am_sender_ethernet_address m, am_sender_ip_address := am_sender_ip_address m,
      am_target_ethernet_address := am_target_ethernet_address m, am_target_ip_address := am_target_ip_address m\<rparr>, np_error p9)"
    using m1(1) unfolding am_parse_def Let_def if_not_P [OF len] 1(1) 2(1) 3(1) 4(1) 5(1) bindE_simps split_conv m1_def [symmetric] m1(2,3) wf(3,4) 6(1) 7(1) 8(1) 9(1)
    by simp
  then show ?thesis using 9(2) by (simp add: m1_def np_ready_def)
qed

lemma am_parse_any:
  assumes "bf_wf b" "am_wf m0"
  shows "\<exists>m r. am_parse b m0 = Inr (m, r) \<and> am_wf m \<and> (r = NoError \<longleftrightarrow> 28 \<le> bf_size b \<and> am_supported m)"
proof (cases "28 \<le> bf_size b")
  case False
  then have "am_parse b m0 = Inr (m0, PacketTooShort)" by (simp add: am_parse_def np_new_def ARPMessage_LENGTH_def)
  then show ?thesis using assms(2) False by simp
next
  case True
  have "np_wf (np_new b)" using assms(1) by (simp add: np_wf_def np_new_def)
  then obtain p1 v1 where 1: "np_u16 (np_new b) = Inr (p1, v1)" "np_reads 2 (np_new b) p1" using u16.dec_any by blast
  obtain p2 v2 where 2: "np_u16 p1 = Inr (p2, v2)" "np_reads 2 p1 p2" using u16.dec_any 1(2) by blast
  obtain p3 v3 where 3: "np_u8 p2 = Inr (p3, v3)" "np_reads 1 p2 p3" using u8.dec_any 2(2) by blast
  obtain p4 v4 where 4: "np_u8 p3 = Inr (p4, v4)" "np_reads 1 p3 p4" using u8.dec_any 3(2) by blast
  obtain p5 v5 where 5: "np_u16 p4 = Inr (p5, v5)" "np_reads 2 p4 p5" using u16.dec_any 4(2) by blast
  obtain p6 v6 where 6: "mac_read (am_sender_ethernet_address m0) p5 = Inr (p6, v6)" "np_reads 6 p5 p6" "length v6 = 6"
    using mac_read_any [of p5 "am_sender_ethernet_address m0"] 5(2) assms(2) by (auto simp: am_wf_def)
  obtain p7 v7 where 7: "np_u32 p6 = Inr (p7, v7)" "np_reads 4 p6 p7" using u32.dec_any 6(2) by blast
  obtain p8 v8 where 8: "mac_read (am_target_ethernet_address m0) p7 = Inr (p8, v8)" "np_reads 6 p7 p8" "length v8 = 6"
    using mac_read_any [of p7 "am_target_ethernet_address m0"] 7(2) assms(2) by (auto simp: am_wf_def)
  obtain p9 v9 where 9: "np_u32 p8 = Inr (p9, v9)" "np_reads 4 p8 p9" using u32.dec_any 8(2) by blast
  have "np_reads (2 + 2 + 1 + 1 + 2 + 6 + 4 + 6 + 4) (np_new b) p9"
    using 1(2) 2(2) 3(2) 4(2) 5(2) 6(2) 7(2) 8(2) 9(2) by (meson np_reads_trans)
  then have ok: "np_error p9 = NoError" using True by (simp add: np_reads_def np_new_def bf_size_def)
  define m1 where "m1 = m0\<lparr>am_hardware_type := v1, am_protocol_type := v2, am_hardware_address_size := v3, am_protocol_address_size := v4, am_opcode := v5\<rparr>"
  have m1: "am_sender_ethernet_address m1 = am_sender_ethernet_address m0" "am_target_ethernet_address m1 = am_target_ethernet_address m0" "am_wf m1"
    using assms(2) by (simp_all add: m1_def am_wf_def)
  let ?m2 = "m1\<lparr>am_sender_ethernet_address := v6, am_sender_ip_address := v7, am_target_ethernet_address := v8, am_target_ip_address := v9\<rparr>"
  have len: "\<not> bf_size (np_buffer (np_new b)) < ARPMessage_LENGTH" using True by (simp add: np_new_def ARPMessage_LENGTH_def)
  have "am_parse b m0 = (if \<not> am_supported m1 then Inr (m1, Unsupported) else Inr (?m2, np_error p9))"
    unfolding am_parse_def Let_def if_not_P [OF len] 1(1) 2(1) 3(1) 4(1) 5(1) bindE_simps split_conv m1_def [symmetric] m1(1,2) 6(1) 7(1) 8(1) 9(1) ..
  moreover have "am_wf ?m2" "am_supported ?m2 = am_supported m1" using 6(3) 8(3) by (simp_all add: am_wf_def am_supported_def)
  ultimately show ?thesis using ok True m1(3) by (cases "am_supported m1") simp_all
qed

section \<open>Printing\<close>

text \<open>Different addresses are printed differently.\<close>

lemma mac_to_string_inj: "length a = length b \<Longrightarrow> mac_to_string a = mac_to_string b \<Longrightarrow> a = b"
proof (induction a b rule: list_induct2)
  case (Cons x xs y ys)
  let ?h = "\<lambda>z. setw0 2 (show_hex (unat (z :: u8)))"
  have "?h x @ (if xs \<noteq> [] then '':'' else []) @ mac_to_string xs = ?h y @ (if ys \<noteq> [] then '':'' else []) @ mac_to_string ys"
    using Cons.prems by simp
  moreover have "length (?h x) = length (?h y)" by (simp add: hex_byte)
  ultimately have "?h x = ?h y \<and> (if xs \<noteq> [] then '':'' else []) @ mac_to_string xs = (if ys \<noteq> [] then '':'' else []) @ mac_to_string ys"
    using append_eq_append_conv by blast
  moreover have "xs = [] \<longleftrightarrow> ys = []" using Cons.hyps by auto
  ultimately show ?case using Cons.IH hex_byte_inj [of x y] by (cases "xs = []") simp_all
qed simp

section \<open>Properties\<close>

text \<open>
  C36. ARP over Ethernet: a supported message in the payload of a frame comes back from the wire unchanged, through the frame parser and
  the message parser, whatever the objects held before; an unsupported message is refused by the serializer; and the message
  parser never throws and reports no error exactly for at least 28 bytes with a supported combination of fields.
\<close>

theorem arp_over_ethernet_roundtrip:
  assumes "eh_wf (ef_header f)" "eh_wf (ef_header f0)" "am_wf m" "am_wf m0" "bf_wf b"
  shows "(am_supported m \<longrightarrow> (\<exists>s b' f'. am_serialize m = Inr s \<and>
        ef_parse (bf_new (bl_concatenate (ef_serialize (f\<lparr>ef_payload := bl_of_string s\<rparr>)))) f0 = Inr (f', NoError) \<and>
        ef_header f' = ef_header f \<and> ef_payload f' = [b'] \<and> am_parse b' m0 = Inr (m, NoError))) \<and>
    (\<not> am_supported m \<longrightarrow> am_serialize m = Inl RuntimeError) \<and>
    (\<exists>m' r. am_parse b m0 = Inr (m', r) \<and> (r = NoError \<longleftrightarrow> 28 \<le> bf_size b \<and> am_supported m'))"
proof (intro conjI impI)
  show "\<not> am_supported m \<Longrightarrow> am_serialize m = Inl RuntimeError" by (simp add: am_serialize_eq)
  show "\<exists>m' r. am_parse b m0 = Inr (m', r) \<and> (r = NoError \<longleftrightarrow> 28 \<le> bf_size b \<and> am_supported m')"
    using am_parse_any [OF assms(5,4)] by blast
  assume "am_supported m"
  then obtain s where s: "am_serialize m = Inr s" by (simp add: am_serialize_eq)
  let ?f = "f\<lparr>ef_payload := bl_of_string s\<rparr>"
  obtain b' where b': "ef_parse (bf_new (bl_concatenate (ef_serialize ?f))) f0 = Inr (\<lparr>ef_header = ef_header ?f, ef_payload = [b']\<rparr>, NoError)"
    "bf_wf b'" "bf_str b' = bl_concatenate (ef_payload ?f)"
    using ef_roundtrip [of ?f f0 "ef_serialize ?f"] assms(1,2) by auto
  then have "am_parse b' m0 = Inr (m, NoError)" using am_roundtrip [OF assms(3,4) \<open>am_supported m\<close>] s by simp
  then show "\<exists>s b' f'. am_serialize m = Inr s \<and>
      ef_parse (bf_new (bl_concatenate (ef_serialize (f\<lparr>ef_payload := bl_of_string s\<rparr>)))) f0 = Inr (f', NoError) \<and>
      ef_header f' = ef_header f \<and> ef_payload f' = [b'] \<and> am_parse b' m0 = Inr (m, NoError)"
    using s b'(1) by auto
qed

theorem arp_over_ethernet_witness:
  "\<exists>s b' f'. am_serialize (am_default\<lparr>am_opcode := OPCODE_REPLY\<rparr>) = Inr s \<and>
     ef_parse (bf_new (bl_concatenate (ef_serialize (ef_default\<lparr>ef_payload := bl_of_string s\<rparr>)))) ef_default = Inr (f', NoError) \<and>
     ef_header f' = ef_header ef_default \<and> ef_payload f' = [b'] \<and> am_parse b' am_default = Inr (am_default\<lparr>am_opcode := OPCODE_REPLY\<rparr>, NoError)"
proof -
  have "am_supported (am_default\<lparr>am_opcode := OPCODE_REPLY\<rparr>)" by (simp add: am_supported_def am_default_def)
  moreover have "eh_wf (ef_header ef_default)" "am_wf (am_default\<lparr>am_opcode := OPCODE_REPLY\<rparr>)" "am_wf am_default" "bf_wf bf_empty"
    by (simp_all add: eh_wf_def am_wf_def am_default_def ef_default_def bf_wf_def bf_empty_def)
  ultimately show ?thesis using arp_over_ethernet_roundtrip [of ef_default ef_default "am_default\<lparr>am_opcode := OPCODE_REPLY\<rparr>" am_default bf_empty] by simp
qed

text \<open>
  The frame parser does not look at the result of the header parser: fewer than 14 bytes are accepted without error as a frame that keeps
  the old header and has all the bytes as its payload.
\<close>

theorem ethernet_short_frame_accepted:
  assumes "bf_size b < 14"
  shows "ef_parse b f = Inr (f\<lparr>ef_payload := [b]\<rparr>, NoError)"
  using assms by (simp add: ef_parse_def eh_parse_def EthernetHeader_LENGTH_def np_new_def bl_of_buffer_def)

theorem ethernet_short_frame_witness: "ef_parse (bf_new [1, 2, 3]) ef_default = Inr (ef_default\<lparr>ef_payload := [bf_new [1, 2, 3]]\<rparr>, NoError)"
  using ethernet_short_frame_accepted [of "bf_new [1, 2, 3]" ef_default] by (simp add: bf_size_def)

end
