(* ===== verification/Ipv4.thy ===== *)
theory Ipv4
  imports Codec_Lib
begin

text \<open>
  Models \<^verbatim>\<open>libsponge/tcp_helpers/ipv4_header.hh\<close>, \<^verbatim>\<open>ipv4_header.cc\<close>, \<^verbatim>\<open>ipv4_datagram.hh\<close> and \<^verbatim>\<open>ipv4_datagram.cc\<close>. The C library's
  \<open>inet_ntoa\<close>, which prints addresses, is an argument of the printing functions.
\<close>

unbundle bit_operations_syntax

section \<open>Header\<close>

definition IPv4Header_LENGTH :: nat where
  "IPv4Header_LENGTH = 20"

definition DEFAULT_TTL :: u8 where
  "DEFAULT_TTL = 128"

definition PROTO_TCP :: u8 where
  "PROTO_TCP = 6"

record IPv4Header =
  ih_ver :: u8
  ih_hlen :: u8
  ih_tos :: u8
  ih_len :: u16
  ih_id :: u16
  ih_df :: bool
  ih_mf :: bool
  ih_offset :: u16
  ih_ttl :: u8
  ih_proto :: u8
  ih_cksum :: u16
  ih_src :: u32
  ih_dst :: u32

definition ih_default :: IPv4Header where
  "ih_default =
     \<lparr>ih_ver = 4, ih_hlen = of_nat (IPv4Header_LENGTH div 4), ih_tos = 0, ih_len = 0, ih_id = 0, ih_df = True, ih_mf = False,
      ih_offset = 0, ih_ttl = DEFAULT_TTL, ih_proto = PROTO_TCP, ih_cksum = 0, ih_src = 0, ih_dst = 0\<rparr>"

text \<open>The checks of \<open>parse\<close> after the fields have been read.\<close>

definition ih_check :: "bytes \<Rightarrow> NetParser \<Rightarrow> IPv4Header \<Rightarrow> (NetParser \<times> ParseResult) res" where
  "ih_check original p h =
     (if length original < 4 * unat (ih_hlen h) then Inr (p, PacketTooShort)
      else if ih_ver h \<noteq> 4 then Inr (p, WrongIPVersion)
      else if ih_hlen h < 5 then Inr (p, HeaderTooShort)
      else if length original \<noteq> unat (ih_len h) then Inr (p, TruncatedPacket)
      else bindE (np_remove_prefix (unat (ih_hlen h) * 4 - IPv4Header_LENGTH) p) (\<lambda>p'.
           if np_has_error p' then Inr (p', np_error p')
           else if ck_value (ck_add (take (4 * unat (ih_hlen h)) original) (ck_new 0)) \<noteq> 0 then Inr (p', BadChecksum)
           else Inr (p', NoError)))"

definition ih_parse :: "IPv4Header \<Rightarrow> NetParser \<Rightarrow> (NetParser \<times> IPv4Header \<times> ParseResult) res" where
  "ih_parse h0 p0 =
     (let original = bf_str (np_buffer p0)
      in if length original < IPv4Header_LENGTH then Inr (p0, h0, PacketTooShort)
         else
           bindE (np_u8 p0) (\<lambda>(p1, first_byte).
           bindE (np_u8 p1) (\<lambda>(p2, tos).
           bindE (np_u16 p2) (\<lambda>(p3, len).
           bindE (np_u16 p3) (\<lambda>(p4, id).
           bindE (np_u16 p4) (\<lambda>(p5, fo_val).
           bindE (np_u8 p5) (\<lambda>(p6, ttl).
           bindE (np_u8 p6) (\<lambda>(p7, proto).
           bindE (np_u16 p7) (\<lambda>(p8, cksum).
           bindE (np_u32 p8) (\<lambda>(p9, src).
           bindE (np_u32 p9) (\<lambda>(p10, dst).
             let h = \<lparr>ih_ver = drop_bit 4 first_byte, ih_hlen = first_byte AND 0x0f, ih_tos = tos, ih_len = len, ih_id = id,
                      ih_df = (fo_val AND 0x4000 \<noteq> 0), ih_mf = (fo_val AND 0x2000 \<noteq> 0), ih_offset = fo_val AND 0x1fff,
                      ih_ttl = ttl, ih_proto = proto, ih_cksum = cksum, ih_src = src, ih_dst = dst\<rparr>
             in bindE (ih_check original p10 h) (\<lambda>(p, r). Inr (p, h, r)))))))))))))"

definition ih_serialize :: "IPv4Header \<Rightarrow> bytes res" where
  "ih_serialize h =
     (if ih_ver h \<noteq> 4 then Inl RuntimeError
      else if 4 * unat (ih_hlen h) < IPv4Header_LENGTH then Inl RuntimeError
      else let first_byte = push_bit 4 (ih_ver h) OR (ih_hlen h AND 0x0f);
               ret = up_u8 [] first_byte;
               ret = up_u8 ret (ih_tos h);
               ret = up_u16 ret (ih_len h);
               ret = up_u16 ret (ih_id h);
               fo_val = (if ih_df h then 0x4000 else 0) OR (if ih_mf h then 0x2000 else 0) OR (ih_offset h AND 0x1fff);
               ret = up_u16 ret fo_val;
               ret = up_u8 ret (ih_ttl h);
               ret = up_u8 ret (ih_proto h);
               ret = up_u16 ret (ih_cksum h);
               ret = up_u32 ret (ih_src h);
               ret = up_u32 ret (ih_dst h)
           in Inr (resize (4 * unat (ih_hlen h)) ret))"

definition ih_payload_length :: "IPv4Header \<Rightarrow> u16" where
  "ih_payload_length h = ih_len h - 4 * ucast (ih_hlen h)"

definition ih_pseudo_cksum :: "IPv4Header \<Rightarrow> u32" where
  "ih_pseudo_cksum h =
     (let pcksum = drop_bit 16 (ih_src h) + (ih_src h AND 0xffff);
          pcksum = pcksum + (drop_bit 16 (ih_dst h) + (ih_dst h AND 0xffff));
          pcksum = pcksum + ucast (ih_proto h)
      in pcksum + ucast (ih_payload_length h))"

definition ih_to_string :: "IPv4Header \<Rightarrow> string" where
  "ih_to_string h =
     ''IP version: '' @ show_hex (unat (ih_ver h)) @ newline @
     ''IP hdr len: '' @ show_hex (unat (ih_hlen h)) @ newline @
     ''IP tos: '' @ show_hex (unat (ih_tos h)) @ newline @
     ''IP dgram len: '' @ show_hex (unat (ih_len h)) @ newline @
     ''IP id: '' @ show_hex (unat (ih_id h)) @ newline @
     ''Flags: df: '' @ show_boolalpha (ih_df h) @ '' mf: '' @ show_boolalpha (ih_mf h) @ newline @
     ''Offset: '' @ show_hex (unat (ih_offset h)) @ newline @
     ''TTL: '' @ show_hex (unat (ih_ttl h)) @ newline @
     ''Protocol: '' @ show_hex (unat (ih_proto h)) @ newline @
     ''Checksum: '' @ show_hex (unat (ih_cksum h)) @ newline @
     ''Src addr: '' @ show_hex (unat (ih_src h)) @ newline @
     ''Dst addr: '' @ show_hex (unat (ih_dst h)) @ newline"

definition ih_summary :: "(u32 \<Rightarrow> string) \<Rightarrow> IPv4Header \<Rightarrow> string" where
  "ih_summary inet_ntoa h =
     ''IPv'' @ show_hex (unat (ih_ver h)) @ '', '' @
     ''len='' @ show_hex (unat (ih_len h)) @ '', '' @
     ''protocol='' @ show_hex (unat (ih_proto h)) @ '', '' @
     (if ih_ttl h \<ge> 10 then [] else ''ttl='' @ show_dec (unat (ih_ttl h)) @ '', '') @
     ''src='' @ inet_ntoa (ih_src h) @ '', '' @
     ''dst='' @ inet_ntoa (ih_dst h)"

section \<open>Datagram\<close>

record IPv4Datagram =
  ip_header :: IPv4Header
  ip_payload :: BufferList

definition ip_default :: IPv4Datagram where
  "ip_default = \<lparr>ip_header = ih_default, ip_payload = []\<rparr>"

definition ip_parse :: "Buffer \<Rightarrow> IPv4Datagram \<Rightarrow> (IPv4Datagram \<times> ParseResult) res" where
  "ip_parse buffer d =
     bindE (ih_parse (ip_header d) (np_new buffer)) (\<lambda>(p, header, _).
       let d' = \<lparr>ip_header = header, ip_payload = bl_of_buffer (np_buffer p)\<rparr>
       in if bl_size (ip_payload d') \<noteq> unat (ih_payload_length header) then Inr (d', PacketTooShort)
          else Inr (d', np_error p))"

definition ip_serialize :: "IPv4Datagram \<Rightarrow> BufferList res" where
  "ip_serialize d =
     (if bl_size (ip_payload d) \<noteq> unat (ih_payload_length (ip_header d)) then Inl RuntimeError
      else let header_out = (ip_header d)\<lparr>ih_cksum := 0\<rparr>
           in bindE (ih_serialize header_out) (\<lambda>header_zero_checksum.
              let header_out = header_out\<lparr>ih_cksum := ck_value (ck_add header_zero_checksum (ck_new 0))\<rparr>
              in bindE (ih_serialize header_out) (\<lambda>s. Inr (bl_append (ip_payload d) (bl_append (bl_of_string s) [])))))"

section \<open>The header on the wire\<close>

definition ih_ok :: "IPv4Header \<Rightarrow> bool" where
  "ih_ok h \<longleftrightarrow> ih_ver h = 4 \<and> 5 \<le> unat (ih_hlen h) \<and> unat (ih_hlen h) < 16 \<and> unat (ih_offset h) < 0x2000"

definition ih_first :: "IPv4Header \<Rightarrow> u8" where
  "ih_first h = push_bit 4 (ih_ver h) OR (ih_hlen h AND 0x0f)"

definition ih_fo :: "IPv4Header \<Rightarrow> u16" where
  "ih_fo h = (if ih_df h then 0x4000 else 0) OR (if ih_mf h then 0x2000 else 0) OR (ih_offset h AND 0x1fff)"

definition ih_front :: "IPv4Header \<Rightarrow> bytes" where
  "ih_front h = be_bytes 1 (ih_first h) @ be_bytes 1 (ih_tos h) @ be_bytes 2 (ih_len h) @ be_bytes 2 (ih_id h) @
     be_bytes 2 (ih_fo h) @ be_bytes 1 (ih_ttl h) @ be_bytes 1 (ih_proto h)"

definition ih_back :: "IPv4Header \<Rightarrow> bytes" where
  "ih_back h = be_bytes 4 (ih_src h) @ be_bytes 4 (ih_dst h) @ replicate (4 * unat (ih_hlen h) - 20) 0"

lemma length_ih_front [simp]: "length (ih_front h) = 10"
  by (simp add: ih_front_def)

lemma ih_serialize_eq:
  assumes "ih_ok h"
  shows "ih_serialize h = Inr (ih_front h @ be_bytes 2 (ih_cksum h) @ ih_back h)"
proof -
  have "ih_serialize h = Inr (resize (4 * unat (ih_hlen h)) (ih_front h @ be_bytes 2 (ih_cksum h) @ be_bytes 4 (ih_src h) @ be_bytes 4 (ih_dst h)))"
    using assms by (simp only: ih_ok_def ih_serialize_def Let_def up_eqs ih_front_def ih_first_def ih_fo_def IPv4Header_LENGTH_def append.assoc append_Nil)
      simp
  also have "\<dots> = Inr (ih_front h @ be_bytes 2 (ih_cksum h) @ ih_back h)"
    using assms by (subst resize_ge) (simp_all add: ih_ok_def ih_back_def)
  finally show ?thesis .
qed

lemma mask_4: "(x :: u8) AND 0x0f = take_bit 4 x"
  using take_bit_eq_mask [of 4 x] by (simp add: mask_eq_exp_minus_1)

lemma mask_13: "(x :: u16) AND 0x1fff = take_bit 13 x"
  using take_bit_eq_mask [of 13 x] by (simp add: mask_eq_exp_minus_1)

lemma ih_first_fields:
  assumes "ih_ok h"
  shows "drop_bit 4 (ih_first h) = ih_ver h" and "ih_first h AND 0x0f = ih_hlen h"
proof -
  have t: "take_bit 4 (ih_hlen h) = ih_hlen h"
    using assms by (intro unat_eqI) (simp add: ih_ok_def unsigned_take_bit_eq take_bit_nat_eq_self)
  have f: "ih_first h = push_bit 4 4 OR ih_hlen h" using assms t by (simp add: ih_first_def ih_ok_def mask_4)
  have "drop_bit 4 (ih_hlen h) = 0" using t by (metis drop_bit_take_bit diff_self_eq_0 take_bit_0)
  then show "drop_bit 4 (ih_first h) = ih_ver h" using assms unfolding f by (simp add: drop_bit_or ih_ok_def)
  show "ih_first h AND 0x0f = ih_hlen h" unfolding f mask_4 by (simp add: t)
qed

lemma ih_fo_fields:
  assumes "ih_ok h"
  shows "(ih_fo h AND 0x4000 \<noteq> 0) = ih_df h" and "(ih_fo h AND 0x2000 \<noteq> 0) = ih_mf h" and "ih_fo h AND 0x1fff = ih_offset h"
proof -
  have t: "take_bit 13 (ih_offset h) = ih_offset h"
    using assms by (intro unat_eqI) (simp add: ih_ok_def unsigned_take_bit_eq take_bit_nat_eq_self)
  show "ih_fo h AND 0x1fff = ih_offset h" unfolding mask_13 ih_fo_def by (simp add: t)
  have "take_bit 13 (ih_offset h) AND push_bit 13 k = 0" for k :: u16 by (rule bit_word_eqI) (auto simp: bit_simps)
  from this [of 1] this [of 2] have z: "ih_offset h AND 0x2000 = 0" "ih_offset h AND 0x4000 = 0" using t by simp_all
  show "(ih_fo h AND 0x4000 \<noteq> 0) = ih_df h" "(ih_fo h AND 0x2000 \<noteq> 0) = ih_mf h"
    unfolding ih_fo_def mask_13 t by (cases "ih_df h"; cases "ih_mf h"; simp add: bit.conj_disj_distrib2 z)+
qed

section \<open>The parser\<close>

lemma ih_parse_any:
  assumes p: "np_ready p bs" and len: "20 \<le> length bs"
  obtains q h where "ih_parse h0 p = bindE (ih_check bs q h) (\<lambda>(q, r). Inr (q, h, r))" and "np_ready q (drop 20 bs)"
    and "ih_ver h = drop_bit 4 (bs ! 0)" and "ih_hlen h = bs ! 0 AND 0x0f" and "ih_len h = be_step (be_step 0 (bs ! 2)) (bs ! 3)"
proof -
  have p0: "np_ready p (drop 0 bs)" using p by simp
  obtain p1 fb where 1: "np_u8 p = Inr (p1, fb)" "np_ready p1 (drop 1 bs)" "fb = bs ! 0"
    using np_u8_at [OF p0, of 1] len by (auto simp del: One_nat_def)
  obtain p2 tos where 2: "np_u8 p1 = Inr (p2, tos)" "np_ready p2 (drop 2 bs)" "tos = bs ! 1"
    using np_u8_at [OF 1(2), of 2] len by (auto simp del: One_nat_def)
  obtain p3 ln where 3: "np_u16 p2 = Inr (p3, ln)" "np_ready p3 (drop 4 bs)" "ln = be_step (be_step 0 (bs ! 2)) (bs ! (2 + 1))"
    using np_u16_at [OF 2(2), of 4] len by (auto simp del: One_nat_def)
  obtain p4 idn where 4: "np_u16 p3 = Inr (p4, idn)" "np_ready p4 (drop 6 bs)" "idn = be_step (be_step 0 (bs ! 4)) (bs ! (4 + 1))"
    using np_u16_at [OF 3(2), of 6] len by (auto simp del: One_nat_def)
  obtain p5 fo where 5: "np_u16 p4 = Inr (p5, fo)" "np_ready p5 (drop 8 bs)" "fo = be_step (be_step 0 (bs ! 6)) (bs ! (6 + 1))"
    using np_u16_at [OF 4(2), of 8] len by (auto simp del: One_nat_def)
  obtain p6 ttl where 6: "np_u8 p5 = Inr (p6, ttl)" "np_ready p6 (drop 9 bs)" "ttl = bs ! 8"
    using np_u8_at [OF 5(2), of 9] len by (auto simp del: One_nat_def)
  obtain p7 proto where 7: "np_u8 p6 = Inr (p7, proto)" "np_ready p7 (drop 10 bs)" "proto = bs ! 9"
    using np_u8_at [OF 6(2), of 10] len by (auto simp del: One_nat_def)
  obtain p8 ck where 8: "np_u16 p7 = Inr (p8, ck)" "np_ready p8 (drop 12 bs)" "ck = be_step (be_step 0 (bs ! 10)) (bs ! (10 + 1))"
    using np_u16_at [OF 7(2), of 12] len by (auto simp del: One_nat_def)
  obtain p9 src where 9: "np_u32 p8 = Inr (p9, src)" "np_ready p9 (drop 16 bs)" 
    using np_u32_at [OF 8(2), of 16] len by (auto simp del: One_nat_def)
  obtain p10 dst where 10: "np_u32 p9 = Inr (p10, dst)" "np_ready p10 (drop 20 bs)" 
    using np_u32_at [OF 9(2), of 20] len by (auto simp del: One_nat_def)
  define h where "h = \<lparr>ih_ver = drop_bit 4 fb, ih_hlen = fb AND 0x0f, ih_tos = tos, ih_len = ln, ih_id = idn,
     ih_df = (fo AND 0x4000 \<noteq> 0), ih_mf = (fo AND 0x2000 \<noteq> 0), ih_offset = fo AND 0x1fff, ih_ttl = ttl, ih_proto = proto,
     ih_cksum = ck, ih_src = src, ih_dst = dst\<rparr>"
  have s: "bf_str (np_buffer p) = bs" "\<not> length bs < IPv4Header_LENGTH" using p len by (simp_all add: np_ready_def IPv4Header_LENGTH_def)
  have "ih_parse h0 p = bindE (ih_check bs p10 h) (\<lambda>(q, r). Inr (q, h, r))"
    unfolding ih_parse_def s Let_def if_not_P [OF s(2)] 1(1) 2(1) 3(1) 4(1) 5(1) 6(1) 7(1) 8(1) 9(1) 10(1) bindE_simps split_conv h_def ..
  then show thesis using that 10(2) 1(3) 3(3) by (simp add: h_def)
qed

lemma ih_parse_serialized:
  assumes ok: "ih_ok h" and p: "np_ready p (ih_front h @ be_bytes 2 (ih_cksum h) @ ih_back h @ rest)"
  shows "\<exists>q. ih_parse h0 p = bindE (ih_check (ih_front h @ be_bytes 2 (ih_cksum h) @ ih_back h @ rest) q h) (\<lambda>(q, r). Inr (q, h, r)) \<and>
    np_ready q (replicate (4 * unat (ih_hlen h) - 20) 0 @ rest)"
proof -
  let ?t11 = "replicate (4 * unat (ih_hlen h) - 20) 0 @ rest"
  let ?t10 = "be_bytes 4 (ih_dst h) @ ?t11"
  let ?t9 = "be_bytes 4 (ih_src h) @ ?t10"
  let ?t8 = "be_bytes 2 (ih_cksum h) @ ?t9"
  let ?t7 = "be_bytes 1 (ih_proto h) @ ?t8"
  let ?t6 = "be_bytes 1 (ih_ttl h) @ ?t7"
  let ?t5 = "be_bytes 2 (ih_fo h) @ ?t6"
  let ?t4 = "be_bytes 2 (ih_id h) @ ?t5"
  let ?t3 = "be_bytes 2 (ih_len h) @ ?t4"
  let ?t2 = "be_bytes 1 (ih_tos h) @ ?t3"
  let ?bs = "ih_front h @ be_bytes 2 (ih_cksum h) @ ih_back h @ rest"
  have t1: "np_ready p (be_bytes 1 (ih_first h) @ ?t2)" using p by (simp add: ih_front_def ih_back_def)
  from u8.dec_enc [OF TrueI t1] obtain p1 where 1: "np_u8 p = Inr (p1, ih_first h)" "np_ready p1 ?t2" by blast
  from u8.dec_enc [OF TrueI 1(2)] obtain p2 where 2: "np_u8 p1 = Inr (p2, ih_tos h)" "np_ready p2 ?t3" by blast
  from u16.dec_enc [OF TrueI 2(2)] obtain p3 where 3: "np_u16 p2 = Inr (p3, ih_len h)" "np_ready p3 ?t4" by blast
  from u16.dec_enc [OF TrueI 3(2)] obtain p4 where 4: "np_u16 p3 = Inr (p4, ih_id h)" "np_ready p4 ?t5" by blast
  from u16.dec_enc [OF TrueI 4(2)] obtain p5 where 5: "np_u16 p4 = Inr (p5, ih_fo h)" "np_ready p5 ?t6" by blast
  from u8.dec_enc [OF TrueI 5(2)] obtain p6 where 6: "np_u8 p5 = Inr (p6, ih_ttl h)" "np_ready p6 ?t7" by blast
  from u8.dec_enc [OF TrueI 6(2)] obtain p7 where 7: "np_u8 p6 = Inr (p7, ih_proto h)" "np_ready p7 ?t8" by blast
  from u16.dec_enc [OF TrueI 7(2)] obtain p8 where 8: "np_u16 p7 = Inr (p8, ih_cksum h)" "np_ready p8 ?t9" by blast
  from u32.dec_enc [OF TrueI 8(2)] obtain p9 where 9: "np_u32 p8 = Inr (p9, ih_src h)" "np_ready p9 ?t10" by blast
  from u32.dec_enc [OF TrueI 9(2)] obtain p10 where 10: "np_u32 p9 = Inr (p10, ih_dst h)" "np_ready p10 ?t11" by blast
  have h: "h = \<lparr>ih_ver = drop_bit 4 (ih_first h), ih_hlen = ih_first h AND 0x0f, ih_tos = ih_tos h, ih_len = ih_len h, ih_id = ih_id h,
     ih_df = (ih_fo h AND 0x4000 \<noteq> 0), ih_mf = (ih_fo h AND 0x2000 \<noteq> 0), ih_offset = ih_fo h AND 0x1fff, ih_ttl = ih_ttl h,
     ih_proto = ih_proto h, ih_cksum = ih_cksum h, ih_src = ih_src h, ih_dst = ih_dst h\<rparr>"
    unfolding ih_first_fields [OF ok] ih_fo_fields [OF ok] by simp
  have s: "bf_str (np_buffer p) = ?bs" "\<not> length ?bs < IPv4Header_LENGTH" using p by (simp_all add: np_ready_def IPv4Header_LENGTH_def ih_back_def)
  have "ih_parse h0 p = bindE (ih_check ?bs p10 h) (\<lambda>(q, r). Inr (q, h, r))"
    unfolding ih_parse_def s Let_def if_not_P [OF s(2)] 1(1) 2(1) 3(1) 4(1) 5(1) 6(1) 7(1) 8(1) 9(1) 10(1) bindE_simps split_conv h [symmetric] ..
  then show ?thesis using 10(2) by blast
qed

lemma ih_check_any:
  assumes "np_ready q (drop 20 bs)" and "20 \<le> length bs"
  obtains q' r where "ih_check bs q h = Inr (q', r)"
    and "r = NoError \<longleftrightarrow> ih_ver h = 4 \<and> 5 \<le> ih_hlen h \<and> 4 * unat (ih_hlen h) \<le> length bs \<and> unat (ih_len h) = length bs \<and>
      ck_value (ck_add (take (4 * unat (ih_hlen h)) bs) (ck_new 0)) = 0"
    and "np_ready q' (drop (if ih_ver h = 4 \<and> 5 \<le> ih_hlen h \<and> 4 * unat (ih_hlen h) \<le> length bs \<and> unat (ih_len h) = length bs
      then 4 * unat (ih_hlen h) else 20) bs)"
proof (cases "ih_ver h = 4 \<and> 5 \<le> ih_hlen h \<and> 4 * unat (ih_hlen h) \<le> length bs \<and> unat (ih_len h) = length bs")
  case True
  then have five: "5 \<le> unat (ih_hlen h)" by (simp add: word_le_nat_alt)
  obtain q' where q': "np_remove_prefix (unat (ih_hlen h) * 4 - IPv4Header_LENGTH) q = Inr q'" "np_reads (unat (ih_hlen h) * 4 - IPv4Header_LENGTH) q q'"
    using np_remove_prefix_any assms(1) by (auto simp: np_ready_def)
  have rd: "np_ready q' (drop (4 * unat (ih_hlen h)) bs)"
    using np_reads_ready [OF assms(1) q'(2)] True five by (simp add: IPv4Header_LENGTH_def mult.commute diff_le_mono)
  then have "\<not> np_has_error q'" by (simp add: np_ready_def np_has_error_def)
  then have "ih_check bs q h = Inr (q', if ck_value (ck_add (take (4 * unat (ih_hlen h)) bs) (ck_new 0)) \<noteq> 0 then BadChecksum else NoError)"
    using True q'(1) by (simp add: ih_check_def not_le [symmetric])
  then show ?thesis by (rule that) (use True rd in simp_all)
next
  case False
  then have "\<exists>r. ih_check bs q h = Inr (q, r) \<and> r \<noteq> NoError" by (auto simp: ih_check_def not_less not_le)
  then obtain r where "ih_check bs q h = Inr (q, r)" "r \<noteq> NoError" by blast
  then show ?thesis using assms(1) False by (intro that [of q r]) auto
qed

section \<open>Properties\<close>

lemma ip_roundtrip:
  assumes ok: "ih_ok (ip_header d)" and len: "unat (ih_len (ip_header d)) = 4 * unat (ih_hlen (ip_header d)) + bl_size (ip_payload d)"
  obtains bl ck where "ip_serialize d = Inr bl"
    and "\<And>b d0 h0. bf_wf b \<Longrightarrow> bf_str b = bl_concatenate bl \<Longrightarrow> \<exists>d' p b'. ip_parse b d0 = Inr (d', NoError) \<and>
      ip_header d' = (ip_header d)\<lparr>ih_cksum := ck\<rparr> \<and> bl_concatenate (ip_payload d') = bl_concatenate (ip_payload d) \<and>
      ih_parse h0 (np_new b) = Inr (p, ip_header d', NoError) \<and> ip_payload d' = [b'] \<and> bf_wf b'"
proof -
  let ?h = "ip_header d" let ?a = "ih_front ?h" let ?b = "ih_back ?h" let ?pl = "bl_concatenate (ip_payload d)"
  define ck where "ck = ck_value (ck_add (?a @ be_bytes 2 (0 :: u16) @ ?b) (ck_new 0))"
  let ?hc = "?h\<lparr>ih_cksum := ck\<rparr>" let ?w = "(?a @ be_bytes 2 ck @ ?b) @ ?pl"
  have hl: "unat (ih_hlen ?h) \<ge> 5" "unat (ih_hlen ?h) < 16" "ih_ver ?h = 4" using ok by (simp_all add: ih_ok_def)
  have pl: "unat (ih_payload_length ?h) = bl_size (ip_payload d)"
  proof -
    have u: "unat (4 * ucast (ih_hlen ?h) :: u16) = 4 * unat (ih_hlen ?h)" using hl(2) by (subst unat_mult_lem [THEN iffD1]) simp_all
    then have "4 * ucast (ih_hlen ?h) \<le> ih_len ?h" using len by (simp add: word_le_nat_alt)
    then show ?thesis using u len by (simp add: ih_payload_length_def unat_sub)
  qed
  have parts: "ih_front (?h\<lparr>ih_cksum := c\<rparr>) = ?a" "ih_back (?h\<lparr>ih_cksum := c\<rparr>) = ?b" "ih_ok (?h\<lparr>ih_cksum := c\<rparr>)" for c
    using ok by (simp_all add: ih_front_def ih_back_def ih_first_def ih_fo_def ih_ok_def)
  have ser: "ih_serialize (?h\<lparr>ih_cksum := c\<rparr>) = Inr (?a @ be_bytes 2 c @ ?b)" for c
    using ih_serialize_eq [OF parts(3)] by (simp add: parts)
  have bl: "ip_serialize d = Inr (bf_new (?a @ be_bytes 2 ck @ ?b) # ip_payload d)"
    using pl by (simp add: ip_serialize_def Let_def ser ck_def)
  have lb: "length ?b = 4 * unat (ih_hlen ?h) - 12" using hl by (simp add: ih_back_def)
  have "csum False ?a + csum False ?b \<le> 65280 * 10 + 65280 * 48" using csum_bound [of False ?a] csum_bound [of False ?b] lb hl(2) by simp
  then have cks: "ck_value (ck_add (?a @ be_bytes 2 ck @ ?b) (ck_new 0)) = 0" unfolding ck_def by (intro ck_verifies) simp_all
  have bs: "length ?w = unat (ih_len ?h)" "take (4 * unat (ih_hlen ?h)) ?w = ?a @ be_bytes 2 ck @ ?b" "drop (4 * unat (ih_hlen ?h)) ?w = ?pl"
    "20 \<le> length ?w" "drop 20 ?w = replicate (4 * unat (ih_hlen ?h) - 20) 0 @ ?pl"
    using lb len hl by (simp_all add: ih_back_def)
  have w: "ih_front ?hc @ be_bytes 2 (ih_cksum ?hc) @ ih_back ?hc @ ?pl = ?w" by (simp add: parts)
  have run: "\<exists>p. ih_parse h0 (np_new b) = Inr (p, ?hc, NoError) \<and> np_ready p ?pl" if "bf_wf b" "bf_str b = ?w" for h0 b
  proof -
    have rd: "np_ready (np_new b) (ih_front ?hc @ be_bytes 2 (ih_cksum ?hc) @ ih_back ?hc @ ?pl)"
      using np_ready_new [OF that(1)] that(2) by (simp add: parts)
    obtain q where q: "ih_parse h0 (np_new b) = bindE (ih_check ?w q ?hc) (\<lambda>(q, r). Inr (q, ?hc, r))" "np_ready q (drop 20 ?w)"
      using ih_parse_serialized [OF parts(3) rd] unfolding w bs(5) by auto
    obtain q' r where "ih_check ?w q ?hc = Inr (q', r)"
      and r: "r = NoError \<longleftrightarrow> ih_ver ?hc = 4 \<and> 5 \<le> ih_hlen ?hc \<and> 4 * unat (ih_hlen ?hc) \<le> length ?w \<and> unat (ih_len ?hc) = length ?w \<and>
        ck_value (ck_add (take (4 * unat (ih_hlen ?hc)) ?w) (ck_new 0)) = 0"
      and q': "np_ready q' (drop (if ih_ver ?hc = 4 \<and> 5 \<le> ih_hlen ?hc \<and> 4 * unat (ih_hlen ?hc) \<le> length ?w \<and> unat (ih_len ?hc) = length ?w
        then 4 * unat (ih_hlen ?hc) else 20) ?w)"
      by (rule ih_check_any [OF q(2) bs(4), of ?hc])
    moreover have "r = NoError" using r bs cks hl len by (simp add: word_le_nat_alt)
    moreover have "np_ready q' ?pl" using q' bs hl len by (simp add: word_le_nat_alt)
    ultimately show ?thesis using q(1) by simp
  qed
  have "\<exists>d' p b'. ip_parse b d0 = Inr (d', NoError) \<and> ip_header d' = ?hc \<and> bl_concatenate (ip_payload d') = ?pl \<and>
      ih_parse h0 (np_new b) = Inr (p, ip_header d', NoError) \<and> ip_payload d' = [b'] \<and> bf_wf b'" if b: "bf_wf b" "bf_str b = ?w" for b d0 h0
  proof -
    obtain p where p: "ih_parse (ip_header d0) (np_new b) = Inr (p, ?hc, NoError)" "np_ready p ?pl" using run [OF b] by blast
    have "ih_payload_length ?hc = ih_payload_length ?h" by (simp add: ih_payload_length_def)
    then have "ip_parse b d0 = Inr (\<lparr>ip_header = ?hc, ip_payload = [np_buffer p]\<rparr>, NoError)"
      using p pl by (simp add: ip_parse_def bl_of_buffer_def np_ready_def)
    then show ?thesis using run [OF b, of h0] p(2) by (auto simp: np_ready_def np_wf_def)
  qed
  then show thesis by (intro that [OF bl, of ck]) simp_all
qed

text \<open>
  C26. The wire format of a datagram: a header of version 4 with 5 to 15 words and a 13-bit offset, whose length field is the length of
  header and payload, is serialized without exception, and parsing the bytes gives back the datagram, without
  error, with the checksum filled in and the payload in one buffer. The header parser itself accepts it, checksum included.
\<close>

theorem ipv4_datagram_roundtrip:
  assumes ok: "ih_ok (ip_header d)" and len: "unat (ih_len (ip_header d)) = 4 * unat (ih_hlen (ip_header d)) + bl_size (ip_payload d)"
  shows "\<exists>bl ck d' p. ip_serialize d = Inr bl \<and> ip_parse (bf_new (bl_concatenate bl)) d0 = Inr (d', NoError) \<and>
    ip_header d' = (ip_header d)\<lparr>ih_cksum := ck\<rparr> \<and> bl_concatenate (ip_payload d') = bl_concatenate (ip_payload d) \<and>
    ih_parse h0 (np_new (bf_new (bl_concatenate bl))) = Inr (p, ip_header d', NoError)"
proof -
  have c: "bf_wf (bf_new (bl_concatenate bl))" "bf_str (bf_new (bl_concatenate bl)) = bl_concatenate bl" for bl by simp_all
  show ?thesis by (rule ip_roundtrip [OF assms]) (use c in blast)
qed

definition ip_demo :: IPv4Datagram where
  "ip_demo = \<lparr>ip_header = ih_default\<lparr>ih_len := 23, ih_src := 0x0a000001, ih_dst := 0x0a000002\<rparr>, ip_payload = [bf_new [1, 2, 3]]\<rparr>"

theorem ipv4_datagram_roundtrip_witness:
  "\<exists>bl ck d'. ip_serialize ip_demo = Inr bl \<and> ip_parse (bf_new (bl_concatenate bl)) ip_default = Inr (d', NoError) \<and>
     ip_header d' = (ip_header ip_demo)\<lparr>ih_cksum := ck\<rparr> \<and> bl_concatenate (ip_payload d') = [1, 2, 3]"
proof -
  have "ih_ok (ip_header ip_demo)" "bl_concatenate (ip_payload ip_demo) = [1, 2, 3]"
    "unat (ih_len (ip_header ip_demo)) = 4 * unat (ih_hlen (ip_header ip_demo)) + bl_size (ip_payload ip_demo)"
    by (simp_all add: ih_ok_def ip_demo_def ih_default_def IPv4Header_LENGTH_def)
  then show ?thesis using ipv4_datagram_roundtrip [of ip_demo ip_default ih_default] by (auto simp del: bl_concatenate_eq)
qed

text \<open>
  The header parser on arbitrary bytes: it never throws; it reports no error exactly when there are at least 20 bytes, the version
  is 4, the header length is at least 5 words and within the data, the length field is the length of the
  data and the checksum of the header is right; and then the parser stands right behind the header.
\<close>

theorem ipv4_header_parse_type:
  assumes "bf_wf buf"
  shows "\<exists>p h r. ih_parse h0 (np_new buf) = Inr (p, h, r) \<and>
    (r = NoError \<longleftrightarrow> 20 \<le> bf_size buf \<and> ih_ver h = 4 \<and> 5 \<le> ih_hlen h \<and> 4 * unat (ih_hlen h) \<le> bf_size buf \<and>
       unat (ih_len h) = bf_size buf \<and> ck_value (ck_add (take (4 * unat (ih_hlen h)) (bf_str buf)) (ck_new 0)) = 0) \<and>
    (r = NoError \<longrightarrow> bf_str (np_buffer p) = drop (4 * unat (ih_hlen h)) (bf_str buf))"
proof (cases "20 \<le> bf_size buf")
  case True
  let ?bs = "bf_str buf"
  have len: "20 \<le> length ?bs" using True by (simp add: bf_size_def)
  obtain q h where q: "ih_parse h0 (np_new buf) = bindE (ih_check ?bs q h) (\<lambda>(q, r). Inr (q, h, r))" "np_ready q (drop 20 ?bs)"
    by (rule ih_parse_any [OF np_ready_new [OF assms] len])
  obtain q' r where r: "ih_check ?bs q h = Inr (q', r)"
    "r = NoError \<longleftrightarrow> ih_ver h = 4 \<and> 5 \<le> ih_hlen h \<and> 4 * unat (ih_hlen h) \<le> length ?bs \<and> unat (ih_len h) = length ?bs \<and>
      ck_value (ck_add (take (4 * unat (ih_hlen h)) ?bs) (ck_new 0)) = 0"
    "np_ready q' (drop (if ih_ver h = 4 \<and> 5 \<le> ih_hlen h \<and> 4 * unat (ih_hlen h) \<le> length ?bs \<and> unat (ih_len h) = length ?bs
      then 4 * unat (ih_hlen h) else 20) ?bs)"
    by (rule ih_check_any [OF q(2) len, of h])
  show ?thesis using q(1) r True by (intro exI [of _ q'] exI [of _ h] exI [of _ r]) (auto simp: bf_size_def np_ready_def)
next
  case False
  then show ?thesis by (auto simp: ih_parse_def bf_size_def np_new_def IPv4Header_LENGTH_def Let_def)
qed

theorem ipv4_header_parse_witness: "\<exists>p h r. ih_parse ih_default (np_new (bf_new [])) = Inr (p, h, r) \<and> r \<noteq> NoError"
  using ipv4_header_parse_type [of "bf_new []" ih_default] by (auto simp: bf_size_def)

text \<open>
  The datagram parser does not look at the result of the header parser: bytes with a header of five words whose length field is right are
  accepted without error whatever their version and whatever their header checksum.
\<close>

theorem ipv4_bad_header_accepted:
  assumes "bf_wf buf" and "20 \<le> bf_size buf" and "bf_str buf ! 0 AND 0x0f = 5"
    and "unat (be_step (be_step 0 (bf_str buf ! 2)) (bf_str buf ! 3) :: u16) = bf_size buf"
  shows "\<exists>d'. ip_parse buf d = Inr (d', NoError) \<and> bl_concatenate (ip_payload d') = drop 20 (bf_str buf) \<and>
    ih_ver (ip_header d') = drop_bit 4 (bf_str buf ! 0)"
proof -
  let ?bs = "bf_str buf"
  have len: "20 \<le> length ?bs" using assms(2) by (simp add: bf_size_def)
  obtain q h where q: "ih_parse (ip_header d) (np_new buf) = bindE (ih_check ?bs q h) (\<lambda>(q, r). Inr (q, h, r))" "np_ready q (drop 20 ?bs)"
    "ih_ver h = drop_bit 4 (?bs ! 0)" "ih_hlen h = ?bs ! 0 AND 0x0f" "ih_len h = be_step (be_step 0 (?bs ! 2)) (?bs ! 3)"
    by (rule ih_parse_any [OF np_ready_new [OF assms(1)] len])
  obtain q' r where r: "ih_check ?bs q h = Inr (q', r)"
    "np_ready q' (drop (if ih_ver h = 4 \<and> 5 \<le> ih_hlen h \<and> 4 * unat (ih_hlen h) \<le> length ?bs \<and> unat (ih_len h) = length ?bs
      then 4 * unat (ih_hlen h) else 20) ?bs)"
    by (rule ih_check_any [OF q(2) len, of h])
  have h5: "ih_hlen h = 5" using q(4) assms(3) by simp
  then have "np_ready q' (drop 20 ?bs)" using r(2) by (simp split: if_splits)
  moreover have "unat (ih_payload_length h) = length ?bs - 20"
    using h5 q(5) assms(4) len by (simp add: ih_payload_length_def bf_size_def unat_sub word_le_nat_alt)
  ultimately have "ip_parse buf d = Inr (\<lparr>ip_header = h, ip_payload = [np_buffer q']\<rparr>, NoError)"
    using q(1) r(1) by (simp add: ip_parse_def bl_of_buffer_def np_ready_def)
  then show ?thesis using \<open>np_ready q' (drop 20 ?bs)\<close> q(3) by (simp add: np_ready_def)
qed

text \<open>Twenty bytes that claim version 9 and carry no checksum.\<close>

theorem ipv4_bad_header_witness:
  "\<exists>d'. ip_parse (bf_new (0x95 # 0 # 0 # 20 # replicate 16 0)) ip_default = Inr (d', NoError) \<and> ih_ver (ip_header d') = 9"
  using ipv4_bad_header_accepted [of "bf_new (0x95 # 0 # 0 # 20 # replicate 16 0)" ip_default] by (auto simp: bf_size_def be_step_def)

end
