(* ===== verification/Net_Address.thy ===== *)
theory Net_Address
  imports Codec_Lib
begin

text \<open>
  Models \<^verbatim>\<open>libsponge/util/address.hh\<close> and \<^verbatim>\<open>address.cc\<close>. An address is the bytes of a \<open>sockaddr_storage\<close>, laid out as on
  Linux on a little-endian machine, and the number of them that are in use. The functions of the C library that the sources call, \<open>getaddrinfo\<close>,
  \<open>getnameinfo\<close> and \<open>inet_ntoa\<close>, are the fields of a record \<open>libc\<close> that the definitions take as an argument; \<open>libc_ok\<close> states what
  their manual pages promise about numeric addresses.
\<close>

section \<open>The C library\<close>

record addrinfo_hints =
  ai_flags :: nat
  ai_family :: nat

text \<open>
  \<open>getaddrinfo\<close> gives a return value and the first result, as the bytes at \<open>ai_addr\<close> and \<open>ai_addrlen\<close>, or none for a null pointer. \<open>getnameinfo\<close>, with numeric
  output, gives a return value, the host and the service. \<open>inet_ntoa\<close> is given the address in host byte order, since every call
  converts it with \<open>htobe32\<close>.
\<close>

record libc =
  lc_getaddrinfo :: "string \<Rightarrow> string \<Rightarrow> addrinfo_hints \<Rightarrow> int \<times> (bytes \<times> nat) option"
  lc_getnameinfo :: "bytes \<Rightarrow> nat \<Rightarrow> int \<times> string \<times> string"
  lc_inet_ntoa :: "u32 \<Rightarrow> string"

definition AF_INET :: nat where
  "AF_INET = 2"

definition AI_ALL :: nat where
  "AI_ALL = 0x10"

definition AI_NUMERICHOST_NUMERICSERV :: nat where
  "AI_NUMERICHOST_NUMERICSERV = 0x404"

definition sizeof_storage :: nat where
  "sizeof_storage = 128"

definition sizeof_sockaddr_in :: nat where
  "sizeof_sockaddr_in = 16"

text \<open>A \<open>sockaddr_in\<close>: the family in host byte order, port and address in network byte order, and eight bytes of padding.\<close>

definition sin_bytes :: "u16 \<Rightarrow> u32 \<Rightarrow> bytes" where
  "sin_bytes port ip = [2, 0] @ be_bytes 2 port @ be_bytes 4 ip @ replicate 8 0"

text \<open>\<open>std::stoi\<close>: leading white space, a sign, and as many digits as there are.\<close>

definition is_digit :: "char \<Rightarrow> bool" where
  "is_digit c \<longleftrightarrow> 48 \<le> (of_char c :: nat) \<and> (of_char c :: nat) \<le> 57"

definition is_space :: "char \<Rightarrow> bool" where
  "is_space c \<longleftrightarrow> (of_char c :: nat) = 32 \<or> 9 \<le> (of_char c :: nat) \<and> (of_char c :: nat) \<le> 13"

definition read_dec :: "string \<Rightarrow> nat" where
  "read_dec s = foldl (\<lambda>n c. 10 * n + (of_char c - 48)) 0 s"

definition stoi :: "string \<Rightarrow> int res" where
  "stoi s =
     (let s = dropWhile is_space s;
          neg = (s \<noteq> [] \<and> hd s = CHR ''-'');
          s = (if s \<noteq> [] \<and> (hd s = CHR ''-'' \<or> hd s = CHR ''+'') then tl s else s);
          ds = takeWhile is_digit s;
          v = (if neg then - int (read_dec ds) else int (read_dec ds))
      in if ds = [] then Inl InvalidArgument else if v < - (2 ^ 31) \<or> 2 ^ 31 \<le> v then Inl OutOfRange else Inr v)"

section \<open>Address\<close>

record Address =
  ad_size :: nat
  ad_storage :: bytes

definition ad_of_sockaddr :: "bytes \<Rightarrow> nat \<Rightarrow> Address res" where
  "ad_of_sockaddr addr n =
     (if n > sizeof_storage then Inl RuntimeError
      else if length addr < n then Inl UB
      else Inr \<lparr>ad_size = n, ad_storage = take n addr @ replicate (sizeof_storage - n) 0\<rparr>)"

definition ad_resolve :: "libc \<Rightarrow> string \<Rightarrow> string \<Rightarrow> addrinfo_hints \<Rightarrow> Address res" where
  "ad_resolve lc node service hints =
     (let (gai_ret, resolved_address) = lc_getaddrinfo lc node service hints
      in if gai_ret \<noteq> 0 then Inl RuntimeError
         else case resolved_address of
                None \<Rightarrow> Inl RuntimeError
              | Some (ai_addr, ai_addrlen) \<Rightarrow> ad_of_sockaddr ai_addr ai_addrlen)"

definition make_hints :: "nat \<Rightarrow> nat \<Rightarrow> addrinfo_hints" where
  "make_hints flags family = \<lparr>ai_flags = flags, ai_family = family\<rparr>"

definition ad_of_host :: "libc \<Rightarrow> string \<Rightarrow> string \<Rightarrow> Address res" where
  "ad_of_host lc hostname service = ad_resolve lc hostname service (make_hints AI_ALL AF_INET)"

definition ad_of_ip :: "libc \<Rightarrow> string \<Rightarrow> u16 \<Rightarrow> Address res" where
  "ad_of_ip lc ip port = ad_resolve lc ip (show_dec (unat port)) (make_hints AI_NUMERICHOST_NUMERICSERV AF_INET)"

definition ad_ip_port :: "libc \<Rightarrow> Address \<Rightarrow> (string \<times> u16) res" where
  "ad_ip_port lc a =
     (let (gni_ret, ip, port) = lc_getnameinfo lc (ad_storage a) (ad_size a)
      in if gni_ret \<noteq> 0 then Inl RuntimeError else bindE (stoi port) (\<lambda>v. Inr (ip, of_int v)))"

definition ad_ip :: "libc \<Rightarrow> Address \<Rightarrow> string res" where
  "ad_ip lc a = bindE (ad_ip_port lc a) (\<lambda>x. Inr (fst x))"

definition ad_port :: "libc \<Rightarrow> Address \<Rightarrow> u16 res" where
  "ad_port lc a = bindE (ad_ip_port lc a) (\<lambda>x. Inr (snd x))"

definition ad_to_string :: "libc \<Rightarrow> Address \<Rightarrow> string res" where
  "ad_to_string lc a = bindE (ad_ip_port lc a) (\<lambda>(ip, port). Inr (ip @ '':'' @ show_dec (unat port)))"

definition ad_ipv4_numeric :: "Address \<Rightarrow> u32 res" where
  "ad_ipv4_numeric a =
     (if take 2 (ad_storage a) \<noteq> [of_nat AF_INET, 0] \<or> ad_size a \<noteq> sizeof_sockaddr_in then Inl RuntimeError
      else Inr (foldl be_step 0 (take 4 (drop 4 (ad_storage a)))))"

definition ad_from_ipv4_numeric :: "u32 \<Rightarrow> Address res" where
  "ad_from_ipv4_numeric ip_address = ad_of_sockaddr (sin_bytes 0 ip_address) sizeof_sockaddr_in"

definition ad_eq :: "Address \<Rightarrow> Address \<Rightarrow> bool" where
  "ad_eq a b = (if ad_size a \<noteq> ad_size b then False else take (ad_size a) (ad_storage a) = take (ad_size a) (ad_storage b))"

definition ad_neq :: "Address \<Rightarrow> Address \<Rightarrow> bool" where
  "ad_neq a b \<longleftrightarrow> \<not> ad_eq a b"

section \<open>Decimal numbers\<close>

lemma digit_char_less_10: "d < 10 \<Longrightarrow> (of_char (digit_char d) :: nat) = 48 + d"
proof -
  assume "d < 10"
  then have "d \<in> {0, 1, 2, 3, 4, 5, 6, 7, 8, 9}" by auto
  then show ?thesis by (auto simp: digit_char_def digits_def)
qed

lemma show_dec_digits: "c \<in> set (show_dec n) \<Longrightarrow> is_digit c"
  unfolding show_dec_def
proof (induction "10 :: nat" n rule: show_base.induct)
  case (1 n)
  show ?case
  proof (cases "n < 10")
    case True
    then show ?thesis using 1(2) digit_char_less_10 [of n] by (simp add: show_base_small is_digit_def)
  next
    case False
    have "n mod 10 < 10" by simp
    then show ?thesis using 1 False digit_char_less_10 [of "n mod 10"] by (auto simp: show_base.simps [of 10 n] is_digit_def)
  qed
qed

lemma show_dec_not_Nil [simp]: "show_dec n \<noteq> []"
  unfolding show_dec_def by (subst show_base.simps) simp

lemma read_show_dec [simp]: "read_dec (show_dec n) = n"
  unfolding show_dec_def
proof (induction "10 :: nat" n rule: show_base.induct)
  case (1 n)
  show ?case
  proof (cases "n < 10")
    case True
    then show ?thesis using digit_char_less_10 [of n] by (simp add: show_base_small read_dec_def)
  next
    case False
    have "n mod 10 < 10" by simp
    then have "read_dec (show_base 10 n) = 10 * read_dec (show_base 10 (n div 10)) + n mod 10"
      using False digit_char_less_10 [of "n mod 10"] by (simp add: show_base.simps [of 10 n] read_dec_def)
    then show ?thesis using 1 False by simp
  qed
qed

lemma stoi_show_dec: "n < 2 ^ 31 \<Longrightarrow> stoi (show_dec n) = Inr (int n)"
proof -
  assume n: "n < 2 ^ 31"
  obtain c cs where s: "show_dec n = c # cs" using show_dec_not_Nil by (cases "show_dec n") auto
  then have "is_digit c" using show_dec_digits [of c n] by simp
  then have c: "\<not> is_space c" "c \<noteq> CHR ''-''" "c \<noteq> CHR ''+''" by (auto simp: is_digit_def is_space_def)
  have tw: "takeWhile is_digit (show_dec n) = show_dec n" using show_dec_digits by (simp add: takeWhile_eq_all_conv)
  have dw: "dropWhile is_space (show_dec n) = show_dec n" using s c by simp
  show ?thesis using n c s tw read_show_dec [of n] unfolding stoi_def dw Let_def by simp
qed

section \<open>IPv4 addresses\<close>

text \<open>The address of an IPv4 host and port, and what the C library promises about it.\<close>

definition ad_v4 :: "u32 \<Rightarrow> u16 \<Rightarrow> Address" where
  "ad_v4 ip port = \<lparr>ad_size = 16, ad_storage = sin_bytes port ip @ replicate 112 0\<rparr>"

definition libc_ok :: "libc \<Rightarrow> bool" where
  "libc_ok lc \<longleftrightarrow>
     (\<forall>ip port. lc_getaddrinfo lc (lc_inet_ntoa lc ip) (show_dec (unat (port :: u16))) (make_hints AI_NUMERICHOST_NUMERICSERV AF_INET) =
        (0, Some (sin_bytes port ip, sizeof_sockaddr_in))) \<and>
     (\<forall>ip port. lc_getnameinfo lc (sin_bytes port ip @ replicate 112 0) sizeof_sockaddr_in = (0, lc_inet_ntoa lc ip, show_dec (unat port)))"

lemma length_sin_bytes [simp]: "length (sin_bytes port ip) = 16"
  by (simp add: sin_bytes_def)

lemma ad_of_sin: "ad_of_sockaddr (sin_bytes port ip) sizeof_sockaddr_in = Inr (ad_v4 ip port)"
  by (simp add: ad_of_sockaddr_def ad_v4_def sizeof_sockaddr_in_def sizeof_storage_def)

lemma ad_from_ipv4_numeric_v4 [simp]: "ad_from_ipv4_numeric ip = Inr (ad_v4 ip 0)"
  by (simp add: ad_from_ipv4_numeric_def ad_of_sin)

lemma ad_ipv4_numeric_v4 [simp]: "ad_ipv4_numeric (ad_v4 ip port) = Inr ip"
proof -
  have "take 4 (drop 4 (ad_storage (ad_v4 ip port))) = be_bytes 4 ip" by (simp add: ad_v4_def sin_bytes_def del: be_bytes.simps)
  moreover have "foldl be_step 0 (be_bytes 4 ip) = ip" by (rule be_roundtrip) simp
  moreover have "take 2 (ad_storage (ad_v4 ip port)) = [of_nat AF_INET, 0]" "ad_size (ad_v4 ip port) = sizeof_sockaddr_in"
    by (simp_all add: ad_v4_def sin_bytes_def AF_INET_def sizeof_sockaddr_in_def)
  ultimately show ?thesis by (simp add: ad_ipv4_numeric_def del: be_bytes.simps)
qed

lemma ad_of_ip_v4: "libc_ok lc \<Longrightarrow> ad_of_ip lc (lc_inet_ntoa lc ip) port = Inr (ad_v4 ip port)"
  by (simp add: libc_ok_def ad_of_ip_def ad_resolve_def ad_of_sin)

lemma ad_ip_port_v4:
  assumes "libc_ok lc"
  shows "ad_ip_port lc (ad_v4 ip port) = Inr (lc_inet_ntoa lc ip, port)"
proof -
  have "unat port < 2 ^ 31" by (rule less_trans [OF unat_lt_16]) simp
  then have "stoi (show_dec (unat port)) = Inr (int (unat port))" by (rule stoi_show_dec)
  moreover have "lc_getnameinfo lc (ad_storage (ad_v4 ip port)) (ad_size (ad_v4 ip port)) = (0, lc_inet_ntoa lc ip, show_dec (unat port))"
    using assms by (simp add: libc_ok_def ad_v4_def sizeof_sockaddr_in_def)
  ultimately show ?thesis by (simp add: ad_ip_port_def)
qed

lemma ad_port_v4: "libc_ok lc \<Longrightarrow> ad_port lc (ad_v4 ip port) = Inr port"
  by (simp add: ad_port_def ad_ip_port_v4)

lemma sin_bytes_inj: "sin_bytes port ip = sin_bytes port' ip' \<longleftrightarrow> port = port' \<and> ip = ip'"
proof
  assume "sin_bytes port ip = sin_bytes port' ip'"
  then have "be_bytes 2 port @ be_bytes 4 ip @ replicate 8 0 = be_bytes 2 port' @ be_bytes 4 ip' @ replicate 8 0"
    by (simp only: sin_bytes_def same_append_eq)
  then have *: "port = port' \<and> be_bytes 4 ip @ replicate 8 0 = be_bytes 4 ip' @ replicate 8 0" by (rule u16.enc_unique [OF TrueI TrueI])
  then have "ip = ip' \<and> replicate 8 (0 :: u8) = replicate 8 0" by (intro u32.enc_unique [OF TrueI TrueI]) (rule conjunct2)
  then show "port = port' \<and> ip = ip'" using * by blast
qed simp

lemma ad_eq_v4: "ad_eq (ad_v4 ip port) (ad_v4 ip' port') \<longleftrightarrow> ip = ip' \<and> port = port'"
  using sin_bytes_inj by (auto simp: ad_eq_def ad_v4_def)

section \<open>A C library for numeric addresses\<close>

text \<open>Dotted quads printed and read, as a model of \<open>libc_ok\<close>.\<close>

fun join_dot :: "string list \<Rightarrow> string" where
  "join_dot [] = []"
| "join_dot [x] = x"
| "join_dot (x # y # xs) = x @ ''.'' @ join_dot (y # xs)"

fun split_dot :: "string \<Rightarrow> string list" where
  "split_dot [] = [[]]"
| "split_dot (c # cs) = (if c = CHR ''.'' then [] # split_dot cs else (case split_dot cs of [] \<Rightarrow> [[c]] | x # xs \<Rightarrow> (c # x) # xs))"

definition libc_demo :: libc where
  "libc_demo = \<lparr>
     lc_getaddrinfo = \<lambda>node service hints.
       (0, Some (sin_bytes (of_nat (read_dec service)) (foldl be_step 0 (map (\<lambda>x. of_nat (read_dec x)) (split_dot node))), sizeof_sockaddr_in)),
     lc_getnameinfo = \<lambda>s n.
       (0, join_dot (map (\<lambda>b. show_dec (unat b)) (take 4 (drop 4 s))), show_dec (unat (foldl be_step 0 (take 2 (drop 2 s)) :: u16))),
     lc_inet_ntoa = \<lambda>ip. join_dot (map (\<lambda>b. show_dec (unat b)) (be_bytes 4 ip))\<rparr>"

lemma split_dot_append: "CHR ''.'' \<notin> set x \<Longrightarrow> split_dot (x @ CHR ''.'' # s) = x # split_dot s"
  by (induction x) auto

lemma split_dot_single: "CHR ''.'' \<notin> set x \<Longrightarrow> split_dot x = [x]"
  by (induction x) auto

lemma split_join_dot: "xs \<noteq> [] \<Longrightarrow> \<forall>x \<in> set xs. CHR ''.'' \<notin> set x \<Longrightarrow> split_dot (join_dot xs) = xs"
  by (induction xs rule: join_dot.induct) (simp_all add: split_dot_append split_dot_single)

lemma dot_notin_show_dec: "CHR ''.'' \<notin> set (show_dec n)"
  using show_dec_digits [of "CHR ''.''" n] by (auto simp: is_digit_def)

lemma libc_demo_ok: "libc_ok libc_demo"
proof -
  have q: "map (\<lambda>x. of_nat (read_dec x)) (split_dot (join_dot (map (\<lambda>b. show_dec (unat b)) (be_bytes 4 ip)))) = be_bytes 4 ip" for ip :: u32
  proof -
    have "be_bytes 4 ip \<noteq> []" using length_be_bytes [of 4 ip] by (metis list.size(3) zero_neq_numeral)
    then have "split_dot (join_dot (map (\<lambda>b. show_dec (unat b)) (be_bytes 4 ip))) = map (\<lambda>b. show_dec (unat b)) (be_bytes 4 ip)"
      by (intro split_join_dot) (auto simp: dot_notin_show_dec simp del: be_bytes.simps)
    then show ?thesis by (simp add: comp_def del: be_bytes.simps)
  qed
  have r: "foldl be_step 0 (be_bytes 4 ip) = ip" "foldl be_step 0 (be_bytes 2 port) = port" for ip :: u32 and port :: u16
    by (rule be_roundtrip, simp)+
  have d: "take 4 (drop 4 (sin_bytes port ip @ s)) = be_bytes 4 ip" "take 2 (drop 2 (sin_bytes port ip @ s)) = be_bytes 2 port" for port ip s
    by (simp_all add: sin_bytes_def del: be_bytes.simps)
  show ?thesis unfolding libc_ok_def libc_demo_def libc.simps d q r by simp
qed

section \<open>Properties\<close>

text \<open>
  Addresses, with a C library that reads and prints numeric addresses as its manual says: the constructor from a dotted quad and a port
  does not throw, the accessors and the text of the address give back what it was made from, the numeric
  accessor inverts \<open>from_ipv4_numeric\<close>, two addresses compare equal exactly when host and port are equal, and the numeric accessor
  throws for a storage of another family or size.
\<close>

theorem address_roundtrip:
  assumes "libc_ok lc"
  shows "\<exists>a b. ad_of_ip lc (lc_inet_ntoa lc ip) port = Inr a \<and> ad_of_ip lc (lc_inet_ntoa lc ip') port' = Inr b \<and>
    ad_ip_port lc a = Inr (lc_inet_ntoa lc ip, port) \<and> ad_to_string lc a = Inr (lc_inet_ntoa lc ip @ '':'' @ show_dec (unat port)) \<and>
    ad_ipv4_numeric a = Inr ip \<and> bindE (ad_from_ipv4_numeric ip) ad_ipv4_numeric = Inr ip \<and>
    (ad_eq a b \<longleftrightarrow> ip = ip' \<and> port = port') \<and> (ad_size c \<noteq> 16 \<longrightarrow> ad_ipv4_numeric c = Inl RuntimeError)"
  using assms by (simp add: ad_of_ip_v4 ad_ip_port_v4 ad_to_string_def ad_eq_v4 ad_ipv4_numeric_def [of c] sizeof_sockaddr_in_def)

theorem address_roundtrip_witness:
  "\<exists>a. ad_of_ip libc_demo (lc_inet_ntoa libc_demo 0x7f000001) 80 = Inr a \<and> ad_ipv4_numeric a = Inr 0x7f000001"
  using address_roundtrip [OF libc_demo_ok, of "0x7f000001" 80 0 0 "ad_v4 0 0"] by auto

end
