(* ===== verification/Network_Interface.thy ===== *)
theory Network_Interface
  imports Ethernet Ipv4 Net_Address Std_Map
begin

text \<open>
  Models \<^verbatim>\<open>libsponge/network_interface.hh\<close> and \<^verbatim>\<open>network_interface.cc\<close>. The three \<open>std::map\<close>s are the ordered lists of \<open>Std_Map\<close>; the
  queue of outgoing frames is a list. An exception of a method is an error value, so that the state after it is not described.
\<close>

section \<open>State\<close>

definition MAPPING_EXPIRE_TIME_MS :: u64 where
  "MAPPING_EXPIRE_TIME_MS = 30000"

definition DST_IP_EXPIRE_TIME_MS :: u64 where
  "DST_IP_EXPIRE_TIME_MS = 5000"

record NetworkInterface =
  ni_ethernet_address :: EthernetAddress
  ni_ip_address :: Address
  ni_frames_out :: "EthernetFrame list"
  ni_crt_time :: u64
  ni_ip_map :: "(u32, EthernetAddress \<times> u64) smap"
  ni_unknown_datagram_map :: "(u32, IPv4Datagram) smap"
  ni_ip_arp_time :: "(u32, u64) smap"

text \<open>The constructor prints the address, which can throw.\<close>

definition ni_new :: "libc \<Rightarrow> EthernetAddress \<Rightarrow> Address \<Rightarrow> NetworkInterface res" where
  "ni_new lc ethernet_address ip_address =
     bindE (ad_ip lc ip_address) (\<lambda>_.
       Inr \<lparr>ni_ethernet_address = ethernet_address, ni_ip_address = ip_address, ni_frames_out = [], ni_crt_time = 0,
            ni_ip_map = [], ni_unknown_datagram_map = [], ni_ip_arp_time = []\<rparr>)"

section \<open>Sending\<close>

definition ni_send_payload :: "EthernetAddress \<Rightarrow> BufferList \<Rightarrow> u16 \<Rightarrow> NetworkInterface \<Rightarrow> NetworkInterface" where
  "ni_send_payload eaddr payload type ni =
     (let eframe = \<lparr>ef_header = \<lparr>eh_dst = eaddr, eh_src = ni_ethernet_address ni, eh_type = type\<rparr>, ef_payload = payload\<rparr>
      in ni\<lparr>ni_frames_out := ni_frames_out ni @ [eframe]\<rparr>)"

definition ni_broad_cast :: "Address \<Rightarrow> NetworkInterface \<Rightarrow> NetworkInterface res" where
  "ni_broad_cast addr ni =
     bindE (ad_ipv4_numeric addr) (\<lambda>ip.
       if sm_find ip (ni_ip_arp_time ni) \<noteq> None then Inr ni
       else
         bindE (ad_ipv4_numeric (ni_ip_address ni)) (\<lambda>own.
           let msg = am_default\<lparr>am_opcode := 1, am_sender_ethernet_address := ni_ethernet_address ni, am_sender_ip_address := own,
                                am_target_ip_address := ip\<rparr>
           in bindE (am_serialize msg) (\<lambda>s.
              let ni = ni_send_payload ETHERNET_BROADCAST (bl_of_string s) TYPE_ARP ni
              in Inr (ni\<lparr>ni_ip_arp_time := sm_set ip (ni_crt_time ni + DST_IP_EXPIRE_TIME_MS) (ni_ip_arp_time ni)\<rparr>))))"

definition ni_send_datagram :: "IPv4Datagram \<Rightarrow> Address \<Rightarrow> NetworkInterface \<Rightarrow> NetworkInterface res" where
  "ni_send_datagram dgram next_hop ni =
     bindE (ad_ipv4_numeric next_hop) (\<lambda>next_hop_ip.
       case sm_find next_hop_ip (ni_ip_map ni) of
         Some (eaddr, _) \<Rightarrow> bindE (ip_serialize dgram) (\<lambda>payload. Inr (ni_send_payload eaddr payload TYPE_IPv4 ni))
       | None \<Rightarrow> ni_broad_cast next_hop (ni\<lparr>ni_unknown_datagram_map := sm_set next_hop_ip dgram (ni_unknown_datagram_map ni)\<rparr>))"

section \<open>Receiving\<close>

text \<open>Learning a mapping, and sending the datagram that waits for it.\<close>

definition ni_learn :: "u32 \<Rightarrow> EthernetAddress \<Rightarrow> NetworkInterface \<Rightarrow> NetworkInterface res" where
  "ni_learn ip eaddr ni =
     (let ni = ni\<lparr>ni_ip_map := sm_set ip (eaddr, ni_crt_time ni + MAPPING_EXPIRE_TIME_MS) (ni_ip_map ni)\<rparr>
      in case sm_find ip (ni_unknown_datagram_map ni) of
           None \<Rightarrow> Inr ni
         | Some dgram \<Rightarrow>
             bindE (ip_serialize dgram) (\<lambda>payload.
               let ni = ni_send_payload eaddr payload TYPE_IPv4 ni
               in Inr (ni\<lparr>ni_unknown_datagram_map := sm_erase ip (ni_unknown_datagram_map ni)\<rparr>)))"

definition ni_reply :: "ARPMessage \<Rightarrow> NetworkInterface \<Rightarrow> NetworkInterface res" where
  "ni_reply msg ni =
     bindE (ad_ipv4_numeric (ni_ip_address ni)) (\<lambda>own.
       if am_target_ip_address msg = own
       then let reply_msg = am_default\<lparr>am_opcode := 2, am_sender_ethernet_address := ni_ethernet_address ni, am_sender_ip_address := own,
                                       am_target_ethernet_address := am_sender_ethernet_address msg,
                                       am_target_ip_address := am_sender_ip_address msg\<rparr>
            in bindE (am_serialize reply_msg) (\<lambda>s.
               Inr (ni_send_payload (am_sender_ethernet_address msg) (bl_of_string s) TYPE_ARP ni))
       else Inr ni)"

definition ni_recv_arp :: "ARPMessage \<Rightarrow> NetworkInterface \<Rightarrow> NetworkInterface res" where
  "ni_recv_arp msg ni =
     bindE (ni_learn (am_sender_ip_address msg) (am_sender_ethernet_address msg) ni) (\<lambda>ni.
       if am_opcode msg = 2 then ni_learn (am_target_ip_address msg) (am_target_ethernet_address msg) ni
       else if am_opcode msg = 1 then ni_reply msg ni
       else Inr ni)"

definition ni_recv_frame :: "EthernetFrame \<Rightarrow> NetworkInterface \<Rightarrow> (NetworkInterface \<times> IPv4Datagram option) res" where
  "ni_recv_frame frame ni =
     (let h = ef_header frame
      in if eh_dst h \<noteq> ni_ethernet_address ni \<and> eh_dst h \<noteq> ETHERNET_BROADCAST then Inr (ni, None)
         else if eh_type h = TYPE_IPv4
         then bindE (bl_to_buffer (ef_payload frame)) (\<lambda>payload.
              bindE (ip_parse payload ip_default) (\<lambda>(dgram, result).
                if result = NoError then Inr (ni, Some dgram) else Inr (ni, None)))
         else if eh_type h = TYPE_ARP
         then bindE (bl_to_buffer (ef_payload frame)) (\<lambda>payload.
              bindE (am_parse payload am_default) (\<lambda>(msg, result).
                if result = NoError then bindE (ni_recv_arp msg ni) (\<lambda>ni. Inr (ni, None)) else Inr (ni, None)))
         else Inr (ni, None))"

section \<open>Time\<close>

definition ni_flush_expire_mapping :: "NetworkInterface \<Rightarrow> NetworkInterface" where
  "ni_flush_expire_mapping ni = ni\<lparr>ni_ip_map := sm_erase_if (\<lambda>ele. snd ele \<le> ni_crt_time ni) (ni_ip_map ni)\<rparr>"

definition ni_flush_expire_arp_log :: "NetworkInterface \<Rightarrow> NetworkInterface" where
  "ni_flush_expire_arp_log ni = ni\<lparr>ni_ip_arp_time := sm_erase_if (\<lambda>expire. expire \<le> ni_crt_time ni) (ni_ip_arp_time ni)\<rparr>"

definition ni_tick :: "u64 \<Rightarrow> NetworkInterface \<Rightarrow> NetworkInterface" where
  "ni_tick ms ni = ni_flush_expire_arp_log (ni_flush_expire_mapping (ni\<lparr>ni_crt_time := ni_crt_time ni + ms\<rparr>))"

section \<open>Runs\<close>

text \<open>What the owner of an interface can do with it; the owner also takes frames from the queue.\<close>

datatype ni_op = SendDatagram IPv4Datagram Address | RecvFrame EthernetFrame | Tick u64 | TakeFrame

fun ni_do :: "ni_op \<Rightarrow> NetworkInterface \<Rightarrow> NetworkInterface res" where
  "ni_do (SendDatagram d hop) ni = ni_send_datagram d hop ni"
| "ni_do (RecvFrame f) ni = bindE (ni_recv_frame f ni) (\<lambda>(ni, _). Inr ni)"
| "ni_do (Tick ms) ni = Inr (ni_tick ms ni)"
| "ni_do TakeFrame ni = Inr (ni\<lparr>ni_frames_out := tl (ni_frames_out ni)\<rparr>)"

fun op_ms :: "ni_op \<Rightarrow> nat" where
  "op_ms (Tick ms) = unat ms"
| "op_ms _ = 0"

text \<open>A run: the frames sent by a sequence of operations, and the state after it.\<close>

fun ni_run :: "ni_op list \<Rightarrow> NetworkInterface \<Rightarrow> (EthernetFrame list \<times> NetworkInterface) res" where
  "ni_run [] ni = Inr ([], ni)"
| "ni_run (op # ops) ni =
     bindE (ni_do op ni) (\<lambda>ni1.
     bindE (ni_run ops ni1) (\<lambda>(fs, ni2). Inr (drop (length (ni_frames_out ni)) (ni_frames_out ni1) @ fs, ni2)))"

text \<open>A frame that asks for the Ethernet address of an IP address.\<close>

definition is_request_for :: "u32 \<Rightarrow> EthernetFrame \<Rightarrow> bool" where
  "is_request_for ip f \<longleftrightarrow> eh_type (ef_header f) = TYPE_ARP \<and>
     (case am_parse (bf_new (bl_concatenate (ef_payload f))) am_default of
        Inl _ \<Rightarrow> False
      | Inr (m, r) \<Rightarrow> r = NoError \<and> am_opcode m = OPCODE_REQUEST \<and> am_target_ip_address m = ip)"

definition ni_wf :: "NetworkInterface \<Rightarrow> bool" where
  "ni_wf ni \<longleftrightarrow> length (ni_ethernet_address ni) = 6 \<and> sm_wf (ni_ip_map ni) \<and> sm_wf (ni_unknown_datagram_map ni) \<and> sm_wf (ni_ip_arp_time ni)"

definition ni_times :: "NetworkInterface \<Rightarrow> bool" where
  "ni_times ni \<longleftrightarrow>
     (\<forall>ip mac t. sm_find ip (ni_ip_map ni) = Some (mac, t) \<longrightarrow> ni_crt_time ni < t \<and> unat t \<le> unat (ni_crt_time ni) + 30000) \<and>
     (\<forall>ip t. sm_find ip (ni_ip_arp_time ni) = Some t \<longrightarrow> ni_crt_time ni < t \<and> unat t \<le> unat (ni_crt_time ni) + 5000)"

definition ni_waiting_unknown :: "NetworkInterface \<Rightarrow> bool" where
  "ni_waiting_unknown ni \<longleftrightarrow> (\<forall>ip. sm_find ip (ni_unknown_datagram_map ni) \<noteq> None \<longrightarrow> sm_find ip (ni_ip_map ni) = None)"

definition frame_from :: "EthernetAddress \<Rightarrow> EthernetFrame \<Rightarrow> bool" where
  "frame_from mac f \<longleftrightarrow> eh_src (ef_header f) = mac \<and> eh_type (ef_header f) \<in> {TYPE_IPv4, TYPE_ARP}"

definition ni_inv :: "NetworkInterface \<Rightarrow> bool" where
  "ni_inv ni \<longleftrightarrow> ni_wf ni \<and> ni_times ni \<and> ni_waiting_unknown ni \<and> (\<forall>f \<in> set (ni_frames_out ni). frame_from (ni_ethernet_address ni) f)"

section \<open>What the operations change\<close>

text \<open>The part of the state that no packet changes, and the frames added.\<close>

definition ni_adds :: "NetworkInterface \<Rightarrow> EthernetFrame list \<Rightarrow> NetworkInterface \<Rightarrow> bool" where
  "ni_adds ni fs ni' \<longleftrightarrow> ni_frames_out ni' = ni_frames_out ni @ fs \<and> ni_ethernet_address ni' = ni_ethernet_address ni \<and>
     ni_ip_address ni' = ni_ip_address ni \<and> ni_crt_time ni' = ni_crt_time ni"

lemma ni_adds_refl: "ni_adds ni [] ni"
  by (simp add: ni_adds_def)

lemma ni_adds_trans: "ni_adds ni fs ni1 \<Longrightarrow> ni_adds ni1 gs ni2 \<Longrightarrow> ni_adds ni (fs @ gs) ni2"
  by (simp add: ni_adds_def)

lemma expiry_bounds:
  assumes "unat now + unat d < 2 ^ 64" "0 < d"
  shows "now < now + d \<and> unat (now + d) = unat (now :: u64) + unat d"
proof -
  have "unat (now + d) = unat now + unat d" using assms(1) by (rule unat_add_nowrap)
  moreover have "0 < unat d" using assms(2) by (simp add: word_less_nat_alt)
  ultimately show ?thesis by (simp add: word_less_nat_alt)
qed

lemma ni_learn_cases:
  assumes "ni_learn ip mac ni = Inr ni'"
  obtains fs where "ni_adds ni fs ni'" and "ni_ip_arp_time ni' = ni_ip_arp_time ni"
    and "ni_ip_map ni' = sm_set ip (mac, ni_crt_time ni + MAPPING_EXPIRE_TIME_MS) (ni_ip_map ni)"
    and "ni_unknown_datagram_map ni' = sm_erase ip (ni_unknown_datagram_map ni)"
    and "case sm_find ip (ni_unknown_datagram_map ni) of None \<Rightarrow> fs = []
      | Some d \<Rightarrow> \<exists>pl. ip_serialize d = Inr pl \<and>
          fs = [\<lparr>ef_header = \<lparr>eh_dst = mac, eh_src = ni_ethernet_address ni, eh_type = TYPE_IPv4\<rparr>, ef_payload = pl\<rparr>]"
proof (cases "sm_find ip (ni_unknown_datagram_map ni)")
  case None
  have "sm_erase ip (ni_unknown_datagram_map ni) = ni_unknown_datagram_map ni"
    using None by (auto simp: sm_erase_def sm_find_def map_of_eq_None_iff intro!: filter_True)
  then show thesis using assms None by (intro that [of "[]"]) (auto simp: ni_learn_def ni_adds_def Let_def)
next
  case (Some d)
  then obtain pl where "ip_serialize d = Inr pl" using assms by (auto simp: ni_learn_def bindE_Inr_iff Let_def)
  then show thesis using assms Some
    by (intro that [of "[\<lparr>ef_header = \<lparr>eh_dst = mac, eh_src = ni_ethernet_address ni, eh_type = TYPE_IPv4\<rparr>, ef_payload = pl\<rparr>]"])
      (auto simp: ni_learn_def ni_adds_def ni_send_payload_def Let_def)
qed

lemma ni_learn_inv:
  assumes "ni_learn ip mac ni = Inr ni'" "ni_inv ni" "unat (ni_crt_time ni) + 30000 < 2 ^ 64"
  shows "ni_inv ni'"
proof -
  obtain fs where *: "ni_adds ni fs ni'" "ni_ip_arp_time ni' = ni_ip_arp_time ni"
    "ni_ip_map ni' = sm_set ip (mac, ni_crt_time ni + MAPPING_EXPIRE_TIME_MS) (ni_ip_map ni)"
    "ni_unknown_datagram_map ni' = sm_erase ip (ni_unknown_datagram_map ni)"
    "case sm_find ip (ni_unknown_datagram_map ni) of None \<Rightarrow> fs = []
      | Some d \<Rightarrow> \<exists>pl. ip_serialize d = Inr pl \<and>
          fs = [\<lparr>ef_header = \<lparr>eh_dst = mac, eh_src = ni_ethernet_address ni, eh_type = TYPE_IPv4\<rparr>, ef_payload = pl\<rparr>]"
    by (rule ni_learn_cases [OF assms(1)])
  have t: "ni_crt_time ni < ni_crt_time ni + MAPPING_EXPIRE_TIME_MS \<and> unat (ni_crt_time ni + MAPPING_EXPIRE_TIME_MS) = unat (ni_crt_time ni) + 30000"
    using expiry_bounds [of "ni_crt_time ni" MAPPING_EXPIRE_TIME_MS] assms(3) by (simp add: MAPPING_EXPIRE_TIME_MS_def)
  have fs: "\<forall>f \<in> set fs. frame_from (ni_ethernet_address ni) f" using *(5) by (auto simp: frame_from_def split: option.splits)
  show ?thesis using assms(2) *(1-4) t fs
    by (auto simp: ni_inv_def ni_wf_def ni_times_def ni_waiting_unknown_def ni_adds_def sm.wf_put sm.wf_erase sm.find_put sm.find_erase split: if_splits)
qed

lemma request_frame:
  assumes "am_serialize m = Inr s" "am_wf m"
  shows "is_request_for ip \<lparr>ef_header = \<lparr>eh_dst = dst, eh_src = src, eh_type = TYPE_ARP\<rparr>, ef_payload = bl_of_string s\<rparr> \<longleftrightarrow>
    am_opcode m = OPCODE_REQUEST \<and> am_target_ip_address m = ip"
proof -
  have "am_supported m" using assms(1) by (auto simp: am_serialize_eq split: if_splits)
  moreover have "am_wf am_default" by (simp add: am_wf_def am_default_def)
  ultimately have "am_parse (bf_new s) am_default = Inr (m, NoError)" using am_roundtrip [OF assms(2), of am_default "bf_new s"] assms(1) by simp
  then show ?thesis by (simp add: is_request_for_def)
qed

lemma ipv4_frame_no_request: "eh_type (ef_header f) = TYPE_IPv4 \<Longrightarrow> \<not> is_request_for ip f"
  by (simp add: is_request_for_def TYPE_IPv4_def TYPE_ARP_def)

text \<open>Nothing but new frames and new mappings: the log of requests is as it was, and none of the frames is a request.\<close>

definition ni_quiet :: "NetworkInterface \<Rightarrow> NetworkInterface \<Rightarrow> bool" where
  "ni_quiet ni ni' \<longleftrightarrow> ni_ip_arp_time ni' = ni_ip_arp_time ni \<and>
     (\<exists>fs. ni_adds ni fs ni' \<and> (\<forall>f \<in> set fs. \<forall>ip. \<not> is_request_for ip f))"

lemma ni_quiet_refl: "ni_quiet ni ni"
  using ni_adds_refl by (force simp: ni_quiet_def)

lemma ni_quiet_trans: "ni_quiet ni ni1 \<Longrightarrow> ni_quiet ni1 ni2 \<Longrightarrow> ni_quiet ni ni2"
  unfolding ni_quiet_def by (metis Un_iff ni_adds_trans set_append)

lemma ni_learn_quiet: "ni_learn ip mac ni = Inr ni' \<Longrightarrow> ni_quiet ni ni'"
  by (erule ni_learn_cases) (auto simp: ni_quiet_def ipv4_frame_no_request split: option.splits)

lemma ni_reply_cases:
  assumes "ni_reply msg ni = Inr ni'" "am_wf msg" "length (ni_ethernet_address ni) = 6"
  shows "ni_quiet ni ni' \<and> (ni_inv ni \<longrightarrow> ni_inv ni') \<and> ni_ip_map ni' = ni_ip_map ni \<and> ni_unknown_datagram_map ni' = ni_unknown_datagram_map ni"
proof -
  obtain own where own: "ad_ipv4_numeric (ni_ip_address ni) = Inr own" using assms(1) by (auto simp: ni_reply_def bindE_Inr_iff)
  let ?m = "am_default\<lparr>am_opcode := 2, am_sender_ethernet_address := ni_ethernet_address ni, am_sender_ip_address := own,
    am_target_ethernet_address := am_sender_ethernet_address msg, am_target_ip_address := am_sender_ip_address msg\<rparr>"
  show ?thesis
  proof (cases "am_target_ip_address msg = own")
    case False
    then show ?thesis using assms(1) own by (simp add: ni_reply_def ni_quiet_refl)
  next
    case True
    obtain s where s: "am_serialize ?m = Inr s" using assms(1) own True by (auto simp: ni_reply_def bindE_Inr_iff Let_def)
    have ni': "ni' = ni_send_payload (am_sender_ethernet_address msg) (bl_of_string s) TYPE_ARP ni"
      using assms(1) own True s by (simp add: ni_reply_def Let_def)
    have "am_wf ?m" using assms(2,3) by (simp add: am_wf_def)
    then have "\<not> is_request_for ip \<lparr>ef_header = \<lparr>eh_dst = am_sender_ethernet_address msg, eh_src = ni_ethernet_address ni, eh_type = TYPE_ARP\<rparr>,
        ef_payload = bl_of_string s\<rparr>" for ip
      by (subst request_frame [OF s]) (simp_all add: OPCODE_REQUEST_def)
    then have "ni_quiet ni ni'" by (force simp: ni_quiet_def ni' ni_send_payload_def ni_adds_def)
    moreover have "ni_inv ni \<longrightarrow> ni_inv ni'"
      by (auto simp: ni' ni_send_payload_def ni_inv_def ni_wf_def ni_times_def ni_waiting_unknown_def frame_from_def)
    ultimately show ?thesis by (simp add: ni' ni_send_payload_def)
  qed
qed

lemma ni_quiet_keeps: "ni_quiet ni ni' \<Longrightarrow> ni_ethernet_address ni' = ni_ethernet_address ni \<and> ni_crt_time ni' = ni_crt_time ni"
  by (auto simp: ni_quiet_def ni_adds_def)

lemma ni_recv_arp_cases:
  assumes "ni_recv_arp msg ni = Inr ni'" "am_wf msg" "length (ni_ethernet_address ni) = 6"
  shows "ni_quiet ni ni' \<and> (ni_inv ni \<longrightarrow> unat (ni_crt_time ni) + 30000 < 2 ^ 64 \<longrightarrow> ni_inv ni')"
proof -
  obtain ni1 where 1: "ni_learn (am_sender_ip_address msg) (am_sender_ethernet_address msg) ni = Inr ni1"
    using assms(1) by (auto simp: ni_recv_arp_def bindE_Inr_iff)
  have q: "ni_quiet ni ni1" using ni_learn_quiet [OF 1] .
  have len: "length (ni_ethernet_address ni1) = 6" "ni_crt_time ni1 = ni_crt_time ni" using ni_quiet_keeps [OF q] assms(3) by simp_all
  have inv: "ni_inv ni \<Longrightarrow> unat (ni_crt_time ni) + 30000 < 2 ^ 64 \<Longrightarrow> ni_inv ni1" using ni_learn_inv [OF 1] by blast
  consider "am_opcode msg = 2" "ni_learn (am_target_ip_address msg) (am_target_ethernet_address msg) ni1 = Inr ni'"
    | "am_opcode msg = 1" "ni_reply msg ni1 = Inr ni'" | "ni' = ni1"
    using assms(1) 1 by (auto simp: ni_recv_arp_def split: if_splits)
  then show ?thesis
  proof cases
    case 1
    then show ?thesis using ni_quiet_trans [OF q ni_learn_quiet] ni_learn_inv inv len by auto
  next
    case 2
    then show ?thesis using ni_quiet_trans [OF q] ni_reply_cases [OF 2(2) assms(2) len(1)] inv by blast
  next
    case 3
    then show ?thesis using q inv by simp
  qed
qed

lemma ni_recv_frame_cases:
  assumes "ni_recv_frame f ni = Inr (ni', r)" "length (ni_ethernet_address ni) = 6" "\<forall>b \<in> set (ef_payload f). bf_wf b"
  shows "ni_quiet ni ni' \<and> (ni_inv ni \<longrightarrow> unat (ni_crt_time ni) + 30000 < 2 ^ 64 \<longrightarrow> ni_inv ni')"
proof (cases "ni' = ni")
  case False
  then obtain b m where m: "bl_to_buffer (ef_payload f) = Inr b" "am_parse b am_default = Inr (m, NoError)" "ni_recv_arp m ni = Inr ni'"
    using assms(1) by (auto simp: ni_recv_frame_def bindE_Inr_iff Let_def split: if_splits)
  have "bf_wf b" using m(1) assms(3) by (auto simp: bl_to_buffer_def bf_wf_def bf_empty_def split: list.splits)
  moreover have "am_wf am_default" by (simp add: am_wf_def am_default_def)
  ultimately have "am_wf m" using am_parse_any [of b am_default] m(2) by auto
  then show ?thesis using ni_recv_arp_cases [OF m(3)] assms(2) by blast
qed (simp add: ni_quiet_refl)

lemma ni_broad_cast_cases:
  assumes "ni_broad_cast addr ni = Inr ni'" "length (ni_ethernet_address ni) = 6"
  obtains ip where "ad_ipv4_numeric addr = Inr ip" and "sm_find ip (ni_ip_arp_time ni) \<noteq> None" and "ni' = ni"
  | ip own m s where "ad_ipv4_numeric addr = Inr ip" and "sm_find ip (ni_ip_arp_time ni) = None" and "ad_ipv4_numeric (ni_ip_address ni) = Inr own"
    and "m = am_default\<lparr>am_opcode := 1, am_sender_ethernet_address := ni_ethernet_address ni, am_sender_ip_address := own, am_target_ip_address := ip\<rparr>"
    and "am_serialize m = Inr s" and "am_wf m"
    and "ni' = ni\<lparr>ni_frames_out := ni_frames_out ni @
        [\<lparr>ef_header = \<lparr>eh_dst = ETHERNET_BROADCAST, eh_src = ni_ethernet_address ni, eh_type = TYPE_ARP\<rparr>, ef_payload = bl_of_string s\<rparr>],
      ni_ip_arp_time := sm_set ip (ni_crt_time ni + DST_IP_EXPIRE_TIME_MS) (ni_ip_arp_time ni)\<rparr>"
proof -
  obtain ip where ip: "ad_ipv4_numeric addr = Inr ip" using assms(1) by (auto simp: ni_broad_cast_def bindE_Inr_iff)
  show thesis
  proof (cases "sm_find ip (ni_ip_arp_time ni)")
    case None
    then obtain own where own: "ad_ipv4_numeric (ni_ip_address ni) = Inr own" using assms(1) ip by (auto simp: ni_broad_cast_def bindE_Inr_iff)
    let ?m = "am_default\<lparr>am_opcode := 1, am_sender_ethernet_address := ni_ethernet_address ni, am_sender_ip_address := own, am_target_ip_address := ip\<rparr>"
    obtain s where s: "am_serialize ?m = Inr s" using assms(1) None ip own by (auto simp: ni_broad_cast_def bindE_Inr_iff Let_def)
    have "am_wf ?m" using assms(2) by (simp add: am_wf_def am_default_def)
    then show thesis using that(2) [OF ip None own refl s] assms(1) None ip own s by (simp add: ni_broad_cast_def ni_send_payload_def Let_def)
  next
    case (Some t)
    then show thesis using that(1) [OF ip] assms(1) ip by (simp add: ni_broad_cast_def)
  qed
qed

lemma ni_broad_cast_inv:
  assumes "ni_broad_cast addr ni = Inr ni'" "ni_inv ni" "unat (ni_crt_time ni) + 30000 < 2 ^ 64"
  shows "ni_inv ni'"
proof -
  have len: "length (ni_ethernet_address ni) = 6" using assms(2) by (simp add: ni_inv_def ni_wf_def)
  have t: "ni_crt_time ni < ni_crt_time ni + DST_IP_EXPIRE_TIME_MS \<and> unat (ni_crt_time ni + DST_IP_EXPIRE_TIME_MS) = unat (ni_crt_time ni) + 5000"
    using expiry_bounds [of "ni_crt_time ni" DST_IP_EXPIRE_TIME_MS] assms(3) by (simp add: DST_IP_EXPIRE_TIME_MS_def)
  from assms(1) len show ?thesis
  proof (cases rule: ni_broad_cast_cases)
    case (2 ip own m s)
    then show ?thesis using assms(2) t
      by (auto simp: ni_inv_def ni_wf_def ni_times_def ni_waiting_unknown_def frame_from_def sm.wf_put sm.find_put split: if_splits)
  qed (use assms(2) in simp)
qed

lemma ni_send_datagram_inv:
  assumes "ni_send_datagram d hop ni = Inr ni'" "ni_inv ni" "unat (ni_crt_time ni) + 30000 < 2 ^ 64"
  shows "ni_inv ni'"
proof -
  obtain ip where ip: "ad_ipv4_numeric hop = Inr ip" using assms(1) by (auto simp: ni_send_datagram_def bindE_Inr_iff)
  show ?thesis
  proof (cases "sm_find ip (ni_ip_map ni)")
    case None
    let ?ni = "ni\<lparr>ni_unknown_datagram_map := sm_set ip d (ni_unknown_datagram_map ni)\<rparr>"
    have "ni_inv ?ni" using assms(2) None
      by (auto simp: ni_inv_def ni_wf_def ni_times_def ni_waiting_unknown_def sm.wf_put sm.find_put split: if_splits)
    moreover have "ni_broad_cast hop ?ni = Inr ni'" using assms(1) ip None by (simp add: ni_send_datagram_def)
    ultimately show ?thesis using ni_broad_cast_inv assms(3) by simp
  next
    case (Some e)
    then show ?thesis using assms(1,2) ip
      by (auto simp: ni_send_datagram_def bindE_Inr_iff ni_send_payload_def Let_def ni_inv_def ni_wf_def ni_times_def ni_waiting_unknown_def frame_from_def split: prod.splits)
  qed
qed

lemma ni_tick_inv:
  assumes "ni_inv ni" "unat (ni_crt_time ni) + unat ms < 2 ^ 64"
  shows "ni_inv (ni_tick ms ni)"
proof -
  have t: "unat (ni_crt_time ni + ms) = unat (ni_crt_time ni) + unat ms" using assms(2) by (rule unat_add_nowrap)
  have "sm_wf (ni_ip_map ni)" "sm_wf (ni_ip_arp_time ni)" using assms(1) by (simp_all add: ni_inv_def ni_wf_def)
  then show ?thesis using assms(1) t
    by (auto simp: ni_inv_def ni_wf_def ni_times_def ni_waiting_unknown_def ni_tick_def ni_flush_expire_mapping_def ni_flush_expire_arp_log_def
      sm.wf_erase_if sm.find_erase_if_Some sm.find_erase_if_None word_le_nat_alt not_le word_less_nat_alt) fastforce+
qed

section \<open>Reachable states\<close>

definition ni_op_ok :: "ni_op \<Rightarrow> bool" where
  "ni_op_ok op = (case op of RecvFrame f \<Rightarrow> (\<forall>b \<in> set (ef_payload f). bf_wf b) | _ \<Rightarrow> True)"

definition ni_init :: "libc \<Rightarrow> NetworkInterface \<Rightarrow> bool" where
  "ni_init lc ni \<longleftrightarrow> (\<exists>mac addr. length mac = 6 \<and> ni_new lc mac addr = Inr ni)"

text \<open>A step, while the clock is far from the end of its range.\<close>

definition ni_step :: "NetworkInterface \<Rightarrow> NetworkInterface \<Rightarrow> bool" where
  "ni_step ni ni' \<longleftrightarrow> (\<exists>op. ni_op_ok op \<and> ni_do op ni = Inr ni' \<and> unat (ni_crt_time ni) + op_ms op + 30000 < 2 ^ 64)"

lemma ni_do_inv:
  assumes "ni_do op ni = Inr ni'" "ni_op_ok op" "ni_inv ni" "unat (ni_crt_time ni) + op_ms op + 30000 < 2 ^ 64"
  shows "ni_inv ni'"
proof (cases op)
  case (SendDatagram d hop)
  then show ?thesis using assms ni_send_datagram_inv by simp
next
  case (RecvFrame f)
  then obtain r where "ni_recv_frame f ni = Inr (ni', r)" using assms(1) by (auto simp: bindE_Inr_iff)
  then show ?thesis using ni_recv_frame_cases assms(2-4) RecvFrame by (simp add: ni_op_ok_def ni_inv_def ni_wf_def)
next
  case (Tick ms)
  then show ?thesis using assms ni_tick_inv [of ni ms] by simp
next
  case TakeFrame
  then show ?thesis using assms(1,3)
    by (cases "ni_frames_out ni") (auto simp: ni_inv_def ni_wf_def ni_times_def ni_waiting_unknown_def)
qed

interpretation nif: invariant_system "ni_init lc" ni_step ni_inv
proof
  show "ni_inv ni" if "ni_init lc ni" for ni
    using that by (auto simp: ni_init_def ni_new_def bindE_Inr_iff ni_inv_def ni_wf_def ni_times_def ni_waiting_unknown_def sm_find_def)
  show "ni_inv ni'" if "ni_inv ni" "ni_step ni ni'" for ni ni'
    using that ni_do_inv by (auto simp: ni_step_def)
qed

section \<open>Requests are not repeated\<close>

lemma ni_send_no_request:
  assumes "ni_send_datagram d hop ni = Inr ni'" "ni_wf ni" "sm_find ip (ni_ip_arp_time ni) = Some t"
  shows "(\<forall>f \<in> set (drop (length (ni_frames_out ni)) (ni_frames_out ni')). \<not> is_request_for ip f) \<and> ni_wf ni' \<and>
    ni_crt_time ni' = ni_crt_time ni \<and> sm_find ip (ni_ip_arp_time ni') = Some t"
proof -
  obtain ip' where ip': "ad_ipv4_numeric hop = Inr ip'" using assms(1) by (auto simp: ni_send_datagram_def bindE_Inr_iff)
  show ?thesis
  proof (cases "sm_find ip' (ni_ip_map ni)")
    case (Some e)
    then show ?thesis using assms ip'
      by (auto simp: ni_send_datagram_def bindE_Inr_iff ni_send_payload_def Let_def ni_wf_def ipv4_frame_no_request split: prod.splits)
  next
    case None
    let ?ni = "ni\<lparr>ni_unknown_datagram_map := sm_set ip' d (ni_unknown_datagram_map ni)\<rparr>"
    have b: "ni_broad_cast hop ?ni = Inr ni'" using assms(1) ip' None by (simp add: ni_send_datagram_def)
    have len: "length (ni_ethernet_address ?ni) = 6" using assms(2) by (simp add: ni_wf_def)
    from b len show ?thesis
    proof (cases rule: ni_broad_cast_cases)
      case 1
      then show ?thesis using assms(2,3) by (simp add: ni_wf_def sm.wf_put)
    next
      case (2 ip2 own m s)
      then have "ip2 \<noteq> ip" using assms(3) by auto
      then have "\<not> is_request_for ip \<lparr>ef_header = \<lparr>eh_dst = ETHERNET_BROADCAST, eh_src = ni_ethernet_address ni, eh_type = TYPE_ARP\<rparr>, ef_payload = bl_of_string s\<rparr>"
        using request_frame [OF 2(5,6)] 2(4) by simp
      then show ?thesis using 2 \<open>ip2 \<noteq> ip\<close> assms(2,3) by (simp add: ni_wf_def sm.wf_put sm.find_put)
    qed
  qed
qed

lemma ni_do_no_request:
  assumes "ni_do op ni = Inr ni'" "ni_op_ok op" "ni_inv ni" "sm_find ip (ni_ip_arp_time ni) = Some t"
    and "unat (ni_crt_time ni) + op_ms op < 2 ^ 64"
  shows "(\<forall>f \<in> set (drop (length (ni_frames_out ni)) (ni_frames_out ni')). \<not> is_request_for ip f) \<and>
    unat (ni_crt_time ni') = unat (ni_crt_time ni) + op_ms op \<and>
    (unat (ni_crt_time ni') < unat t \<longrightarrow> sm_find ip (ni_ip_arp_time ni') = Some t)"
proof (cases op)
  case (SendDatagram d hop)
  then show ?thesis using assms ni_send_no_request by (auto simp: ni_inv_def)
next
  case (RecvFrame f)
  then obtain r where "ni_recv_frame f ni = Inr (ni', r)" using assms(1) by (auto simp: bindE_Inr_iff)
  then have "ni_quiet ni ni'" using ni_recv_frame_cases assms(2,3) RecvFrame by (simp add: ni_op_ok_def ni_inv_def ni_wf_def)
  then show ?thesis using RecvFrame assms(4) by (auto simp: ni_quiet_def ni_adds_def)
next
  case (Tick ms)
  have "sm_wf (ni_ip_arp_time ni)" using assms(3) by (simp add: ni_inv_def ni_wf_def)
  then show ?thesis using assms(1,4,5) Tick
    by (auto simp: ni_tick_def ni_flush_expire_mapping_def ni_flush_expire_arp_log_def sm.find_erase_if_Some unat_add_nowrap word_le_nat_alt)
next
  case TakeFrame
  then show ?thesis using assms(1,4) by auto
qed

lemma ni_run_no_request:
  assumes "ni_run ops ni = Inr (fs, ni')" "\<forall>op \<in> set ops. ni_op_ok op" "ni_inv ni" "sm_find ip (ni_ip_arp_time ni) = Some t"
    and "unat (ni_crt_time ni) + sum_list (map op_ms ops) < unat t" and "unat t + 30000 < 2 ^ 64"
  shows "\<forall>f \<in> set fs. \<not> is_request_for ip f"
  using assms
proof (induction ops arbitrary: ni fs)
  case (Cons op ops)
  obtain ni1 gs where 1: "ni_do op ni = Inr ni1" "ni_run ops ni1 = Inr (gs, ni')" "fs = drop (length (ni_frames_out ni)) (ni_frames_out ni1) @ gs"
    using Cons.prems(1) by (auto simp: bindE_Inr_iff)
  have *: "(\<forall>f \<in> set (drop (length (ni_frames_out ni)) (ni_frames_out ni1)). \<not> is_request_for ip f) \<and>
    unat (ni_crt_time ni1) = unat (ni_crt_time ni) + op_ms op \<and>
    (unat (ni_crt_time ni1) < unat t \<longrightarrow> sm_find ip (ni_ip_arp_time ni1) = Some t)"
    using ni_do_no_request [OF 1(1) _ Cons.prems(3,4)] Cons.prems(2,5,6) by simp
  moreover have "ni_inv ni1" using ni_do_inv [OF 1(1) _ Cons.prems(3)] Cons.prems(2,5,6) by simp
  ultimately have "\<forall>f \<in> set gs. \<not> is_request_for ip f" using Cons.IH [OF 1(2)] Cons.prems(2,5,6) by simp
  then show ?case using * 1(3) by auto
qed simp

section \<open>Properties\<close>


definition mac_a :: EthernetAddress where
  "mac_a = [2, 0, 0, 0, 0, 1]"

definition mac_b :: EthernetAddress where
  "mac_b = [2, 0, 0, 0, 0, 2]"

definition ni_demo :: NetworkInterface where
  "ni_demo = \<lparr>ni_ethernet_address = mac_a, ni_ip_address = ad_v4 0x0a000001 0, ni_frames_out = [], ni_crt_time = 0,
     ni_ip_map = [], ni_unknown_datagram_map = [], ni_ip_arp_time = []\<rparr>"

lemma ni_demo_reach: "reach (ni_init libc_demo) ni_step ni_demo"
  by (rule reach_init, unfold ni_init_def, rule exI [of _ mac_a], rule exI [of _ "ad_v4 0x0a000001 0"])
    (simp add: ni_new_def ad_ip_def ad_ip_port_v4 [OF libc_demo_ok] ni_demo_def mac_a_def)

text \<open>The state after a datagram to an unknown neighbour: one request in the queue, the datagram waiting.\<close>

lemma ni_send_unknown:
  assumes "sm_find ip (ni_ip_map ni) = None" "sm_find ip (ni_ip_arp_time ni) = None" "ni_ip_address ni = ad_v4 own port" "length (ni_ethernet_address ni) = 6"
  obtains s where "am_serialize (am_default\<lparr>am_opcode := 1, am_sender_ethernet_address := ni_ethernet_address ni, am_sender_ip_address := own, am_target_ip_address := ip\<rparr>) = Inr s"
    and "ni_send_datagram d (ad_v4 ip p) ni = Inr (ni\<lparr>ni_frames_out := ni_frames_out ni @
        [\<lparr>ef_header = \<lparr>eh_dst = ETHERNET_BROADCAST, eh_src = ni_ethernet_address ni, eh_type = TYPE_ARP\<rparr>, ef_payload = bl_of_string s\<rparr>],
      ni_unknown_datagram_map := sm_set ip d (ni_unknown_datagram_map ni),
      ni_ip_arp_time := sm_set ip (ni_crt_time ni + DST_IP_EXPIRE_TIME_MS) (ni_ip_arp_time ni)\<rparr>)"
proof -
  let ?m = "am_default\<lparr>am_opcode := 1, am_sender_ethernet_address := ni_ethernet_address ni, am_sender_ip_address := own, am_target_ip_address := ip\<rparr>"
  have "am_supported ?m" by (simp add: am_supported_def am_default_def OPCODE_REQUEST_def)
  then obtain s where "am_serialize ?m = Inr s" by (simp add: am_serialize_eq)
  then show thesis using assms by (intro that [of s]) (simp_all add: ni_send_datagram_def ni_broad_cast_def ni_send_payload_def Let_def)
qed


text \<open>
  C30. Requests are not repeated: a datagram for a neighbour that is neither known nor asked for puts exactly one broadcast request for its address
  into the queue, and whatever happens afterwards, no other request for that address is sent before five seconds have passed.
\<close>

theorem arp_rate_limit:
  assumes "reach (ni_init lc) ni_step ni" and "ni_ip_address ni = ad_v4 own port"
    and "sm_find ip (ni_ip_map ni) = None" and "sm_find ip (ni_ip_arp_time ni) = None"
    and "ni_send_datagram d (ad_v4 ip p) ni = Inr ni1" and "ni_run ops ni1 = Inr (fs, ni2)"
    and "\<forall>op \<in> set ops. ni_op_ok op" and "sum_list (map op_ms ops) < 5000" and "unat (ni_crt_time ni) + 35000 < 2 ^ 64"
  shows "\<exists>f. ni_frames_out ni1 = ni_frames_out ni @ [f] \<and> eh_dst (ef_header f) = ETHERNET_BROADCAST \<and> is_request_for ip f \<and>
    (\<forall>g \<in> set fs. \<not> is_request_for ip g)"
proof -
  have inv: "ni_inv ni" using nif.inv_reach [OF assms(1)] .
  then have len: "length (ni_ethernet_address ni) = 6" and wf: "sm_wf (ni_ip_arp_time ni)" by (simp_all add: ni_inv_def ni_wf_def)
  let ?m = "am_default\<lparr>am_opcode := 1, am_sender_ethernet_address := ni_ethernet_address ni, am_sender_ip_address := own, am_target_ip_address := ip\<rparr>"
  obtain s where s: "am_serialize ?m = Inr s" and ni1: "ni1 = ni\<lparr>ni_frames_out := ni_frames_out ni @
        [\<lparr>ef_header = \<lparr>eh_dst = ETHERNET_BROADCAST, eh_src = ni_ethernet_address ni, eh_type = TYPE_ARP\<rparr>, ef_payload = bl_of_string s\<rparr>],
      ni_unknown_datagram_map := sm_set ip d (ni_unknown_datagram_map ni),
      ni_ip_arp_time := sm_set ip (ni_crt_time ni + DST_IP_EXPIRE_TIME_MS) (ni_ip_arp_time ni)\<rparr>"
    using ni_send_unknown [OF assms(3,4,2) len, of d p] assms(5) by (metis sum.inject(2))
  have "am_wf ?m" using len by (simp add: am_wf_def am_default_def)
  then have f: "is_request_for ip \<lparr>ef_header = \<lparr>eh_dst = ETHERNET_BROADCAST, eh_src = ni_ethernet_address ni, eh_type = TYPE_ARP\<rparr>, ef_payload = bl_of_string s\<rparr>"
    by (subst request_frame [OF s]) (simp_all add: OPCODE_REQUEST_def)
  have t: "unat (ni_crt_time ni + DST_IP_EXPIRE_TIME_MS) = unat (ni_crt_time ni) + 5000"
    using expiry_bounds [of "ni_crt_time ni" DST_IP_EXPIRE_TIME_MS] assms(9) by (simp add: DST_IP_EXPIRE_TIME_MS_def)
  have "ni_inv ni1" using ni_send_datagram_inv [OF assms(5) inv] assms(9) by simp
  moreover have "sm_find ip (ni_ip_arp_time ni1) = Some (ni_crt_time ni + DST_IP_EXPIRE_TIME_MS)" using wf by (simp add: ni1 sm.find_put)
  moreover have "ni_crt_time ni1 = ni_crt_time ni" by (simp add: ni1)
  ultimately have "\<forall>g \<in> set fs. \<not> is_request_for ip g" using ni_run_no_request [OF assms(6,7)] t assms(8,9) by simp
  then show ?thesis using f ni1 by simp
qed

theorem arp_rate_limit_witness:
  "\<exists>ni1 f ni2. ni_send_datagram ip_default (ad_v4 7 0) ni_demo = Inr ni1 \<and> ni_frames_out ni1 = [f] \<and> is_request_for 7 f \<and>
     ni_run [Tick 4999, SendDatagram ip_default (ad_v4 7 0)] ni1 = Inr ([], ni2)"
proof -
  obtain s where s: "ni_send_datagram ip_default (ad_v4 7 0) ni_demo = Inr (ni_demo\<lparr>ni_frames_out := ni_frames_out ni_demo @
        [\<lparr>ef_header = \<lparr>eh_dst = ETHERNET_BROADCAST, eh_src = ni_ethernet_address ni_demo, eh_type = TYPE_ARP\<rparr>, ef_payload = bl_of_string s\<rparr>],
      ni_unknown_datagram_map := sm_set 7 ip_default (ni_unknown_datagram_map ni_demo),
      ni_ip_arp_time := sm_set 7 (ni_crt_time ni_demo + DST_IP_EXPIRE_TIME_MS) (ni_ip_arp_time ni_demo)\<rparr>)" (is "_ = Inr ?ni")
    by (rule ni_send_unknown [of 7 ni_demo "0x0a000001" 0]) (simp_all add: ni_demo_def sm_find_def mac_a_def)
  have r: "\<exists>ni2. ni_run [Tick 4999, SendDatagram ip_default (ad_v4 7 0)] ?ni = Inr ([], ni2)"
    by (simp add: ni_demo_def ni_tick_def ni_flush_expire_mapping_def ni_flush_expire_arp_log_def ni_send_datagram_def ni_broad_cast_def sm_find_def DST_IP_EXPIRE_TIME_MS_def)
  then obtain ni2 where r2: "ni_run [Tick 4999, SendDatagram ip_default (ad_v4 7 0)] ?ni = Inr ([], ni2)" by blast
  have "\<exists>f. ni_frames_out ?ni = ni_frames_out ni_demo @ [f] \<and> eh_dst (ef_header f) = ETHERNET_BROADCAST \<and> is_request_for 7 f \<and> (\<forall>g \<in> set []. \<not> is_request_for 7 g)"
    by (rule arp_rate_limit [OF ni_demo_reach _ _ _ s r2, of "0x0a000001" 0]) (simp_all add: ni_demo_def sm_find_def ni_op_ok_def)
  then show ?thesis using s r by (auto simp: ni_demo_def)
qed

end
