(* ===== verification/Arp_Exchange.thy ===== *)
theory Arp_Exchange
  imports Network_Interface
begin

text \<open>
  Two interfaces on one wire: how a datagram for a neighbour that is not known is delivered after an exchange of ARP messages, and
  what happens to a second datagram for such a neighbour. Frames travel as bytes: they are serialized at one end and parsed at
  the other.
\<close>

section \<open>The wire\<close>

definition ef_wire :: "EthernetFrame \<Rightarrow> Buffer" where
  "ef_wire f = bf_new (bl_concatenate (ef_serialize f))"

lemma ef_over_wire:
  assumes "eh_wf (ef_header f)"
  obtains b where "ef_parse (ef_wire f) ef_default = Inr (\<lparr>ef_header = ef_header f, ef_payload = [b]\<rparr>, NoError)"
    and "bf_wf b" and "bf_str b = bl_concatenate (ef_payload f)"
proof -
  have "eh_wf (ef_header ef_default)" by (simp add: eh_wf_def ef_default_def)
  then show thesis using ef_roundtrip [OF assms _ refl, of ef_default] that unfolding ef_wire_def by blast
qed

lemma am_default_wf: "am_wf am_default"
  by (simp add: am_wf_def am_default_def)

lemma types_differ: "TYPE_ARP \<noteq> TYPE_IPv4"
  by (simp add: TYPE_ARP_def TYPE_IPv4_def)

lemma recv_arp_frame:
  assumes "eh_type (ef_header f) = TYPE_ARP" and "eh_dst (ef_header f) \<in> {ni_ethernet_address ni, ETHERNET_BROADCAST}"
    and "ef_payload f = [b]" and "bf_wf b" and "am_serialize m = Inr (bf_str b)" and "am_wf m"
  shows "ni_recv_frame f ni = bindE (ni_recv_arp m ni) (\<lambda>ni. Inr (ni, None))"
proof -
  have "am_supported m" using assms(5) by (auto simp: am_serialize_eq split: if_splits)
  then have "am_parse b am_default = Inr (m, NoError)" using am_roundtrip [OF assms(6) am_default_wf _ assms(4,5)] by simp
  then show ?thesis using assms(1-3) types_differ by (auto simp: ni_recv_frame_def Let_def bl_to_buffer_def)
qed

section \<open>Answering and learning\<close>

lemma recv_request:
  assumes "am_target_ip_address m = own" "am_opcode m = 1" "ni_ip_address ni = ad_v4 own port"
    and "sm_find (am_sender_ip_address m) (ni_unknown_datagram_map ni) = None" and "length (ni_ethernet_address ni) = 6" and "am_wf m"
  obtains m' s ni' where "ni_recv_arp m ni = Inr ni'" and "am_serialize m' = Inr s" and "am_wf m'" and "am_opcode m' = 2"
    and "am_sender_ip_address m' = own" and "am_sender_ethernet_address m' = ni_ethernet_address ni"
    and "am_target_ip_address m' = am_sender_ip_address m" and "am_target_ethernet_address m' = am_sender_ethernet_address m"
    and "ni_frames_out ni' = ni_frames_out ni @
      [\<lparr>ef_header = \<lparr>eh_dst = am_sender_ethernet_address m, eh_src = ni_ethernet_address ni, eh_type = TYPE_ARP\<rparr>, ef_payload = bl_of_string s\<rparr>]"
    and "ni_ethernet_address ni' = ni_ethernet_address ni"
proof -
  let ?m = "am_default\<lparr>am_opcode := 2, am_sender_ethernet_address := ni_ethernet_address ni, am_sender_ip_address := own,
    am_target_ethernet_address := am_sender_ethernet_address m, am_target_ip_address := am_sender_ip_address m\<rparr>"
  have "am_supported ?m" by (simp add: am_supported_def am_default_def OPCODE_REPLY_def)
  then obtain s where s: "am_serialize ?m = Inr s" by (simp add: am_serialize_eq)
  have w: "am_wf ?m" using assms(5,6) by (simp add: am_wf_def)
  have r: "ni_recv_arp m ni = Inr (ni_send_payload (am_sender_ethernet_address m) (bl_of_string s) TYPE_ARP
      (ni\<lparr>ni_ip_map := sm_set (am_sender_ip_address m) (am_sender_ethernet_address m, ni_crt_time ni + MAPPING_EXPIRE_TIME_MS) (ni_ip_map ni)\<rparr>))"
    using assms(1-4) s by (simp add: ni_recv_arp_def ni_learn_def ni_reply_def Let_def)
  show thesis by (rule that [OF r s w]) (simp_all add: ni_send_payload_def)
qed

lemma recv_reply:
  assumes "am_opcode m = 2" "sm_find (am_sender_ip_address m) (ni_unknown_datagram_map ni) = Some d" "ip_serialize d = Inr pl"
    and "am_sender_ip_address m \<noteq> am_target_ip_address m" "sm_find (am_target_ip_address m) (ni_unknown_datagram_map ni) = None" "ni_wf ni"
  obtains ni' where "ni_recv_arp m ni = Inr ni'" and "sm_find (am_sender_ip_address m) (ni_unknown_datagram_map ni') = None"
    and "ni_frames_out ni' = ni_frames_out ni @ [\<lparr>ef_header = \<lparr>eh_dst = am_sender_ethernet_address m, eh_src = ni_ethernet_address ni, eh_type = TYPE_IPv4\<rparr>, ef_payload = pl\<rparr>]"
    and "sm_find (am_sender_ip_address m) (ni_ip_map ni') = Some (am_sender_ethernet_address m, ni_crt_time ni + MAPPING_EXPIRE_TIME_MS)"
proof -
  let ?ni1 = "(ni_send_payload (am_sender_ethernet_address m) pl TYPE_IPv4
    (ni\<lparr>ni_ip_map := sm_set (am_sender_ip_address m) (am_sender_ethernet_address m, ni_crt_time ni + MAPPING_EXPIRE_TIME_MS) (ni_ip_map ni)\<rparr>))
      \<lparr>ni_unknown_datagram_map := sm_erase (am_sender_ip_address m) (ni_unknown_datagram_map ni)\<rparr>"
  let ?ni2 = "?ni1\<lparr>ni_ip_map := sm_set (am_target_ip_address m) (am_target_ethernet_address m, ni_crt_time ni + MAPPING_EXPIRE_TIME_MS) (ni_ip_map ?ni1)\<rparr>"
  have wf: "sm_wf (ni_ip_map ni)" "sm_wf (ni_unknown_datagram_map ni)" using assms(6) by (simp_all add: ni_wf_def)
  have "ni_learn (am_sender_ip_address m) (am_sender_ethernet_address m) ni = Inr ?ni1"
    using assms(2,3) by (simp add: ni_learn_def ni_send_payload_def Let_def)
  moreover have "ni_learn (am_target_ip_address m) (am_target_ethernet_address m) ?ni1 = Inr ?ni2"
    using assms(4,5) wf by (simp add: ni_learn_def ni_send_payload_def Let_def sm.find_erase)
  ultimately have "ni_recv_arp m ni = Inr ?ni2" using assms(1) by (simp add: ni_recv_arp_def)
  then show thesis by (rule that) (use assms(4) wf in \<open>simp_all add: ni_send_payload_def sm.find_erase sm.find_put sm.wf_put\<close>)
qed

lemma recv_ipv4_frame:
  assumes "eh_type (ef_header f) = TYPE_IPv4" "eh_dst (ef_header f) = ni_ethernet_address ni" "ef_payload f = [b]" "ip_parse b ip_default = Inr (d, NoError)"
  shows "ni_recv_frame f ni = Inr (ni, Some d)"
  using assms by (simp add: ni_recv_frame_def Let_def bl_to_buffer_def)

section \<open>Properties\<close>

text \<open>
  C28. Address resolution from end to end. Interface \<open>a\<close> is given a datagram for its neighbour \<open>b\<close>, which it does not know. It sends one frame;
  \<open>b\<close> answers it with one frame; on that answer \<open>a\<close> sends the datagram in one frame; and from this frame \<open>b\<close> returns the
  datagram, with its header up to the checksum and its payload unchanged. No frame is sent twice, none is lost, and nothing waits any more.
\<close>

theorem arp_resolution:
  assumes a: "ni_wf a" "ni_ip_address a = ad_v4 ip_a pa" "sm_find ip_b (ni_ip_map a) = None" "sm_find ip_b (ni_ip_arp_time a) = None"
      "sm_find ip_a (ni_unknown_datagram_map a) = None"
    and b: "ni_wf b" "ni_ip_address b = ad_v4 ip_b pb" "sm_find ip_a (ni_unknown_datagram_map b) = None" and "ip_a \<noteq> ip_b"
    and d: "ih_ok (ip_header d)" "unat (ih_len (ip_header d)) = 4 * unat (ih_hlen (ip_header d)) + bl_size (ip_payload d)"
  shows "\<exists>a1 f1 g1 b1 f2 g2 a2 f3 g3 d' ck.
    ni_send_datagram d (ad_v4 ip_b p) a = Inr a1 \<and> ni_frames_out a1 = ni_frames_out a @ [f1] \<and> ef_parse (ef_wire f1) ef_default = Inr (g1, NoError) \<and>
    ni_recv_frame g1 b = Inr (b1, None) \<and> ni_frames_out b1 = ni_frames_out b @ [f2] \<and> ef_parse (ef_wire f2) ef_default = Inr (g2, NoError) \<and>
    ni_recv_frame g2 a1 = Inr (a2, None) \<and> ni_frames_out a2 = ni_frames_out a1 @ [f3] \<and> ef_parse (ef_wire f3) ef_default = Inr (g3, NoError) \<and>
    ni_recv_frame g3 b1 = Inr (b1, Some d') \<and> ip_header d' = (ip_header d)\<lparr>ih_cksum := ck\<rparr> \<and>
    bl_concatenate (ip_payload d') = bl_concatenate (ip_payload d) \<and> sm_find ip_b (ni_unknown_datagram_map a2) = None"
proof -
  let ?ma = "ni_ethernet_address a" let ?mb = "ni_ethernet_address b"
  have len: "length ?ma = 6" "length ?mb = 6" "sm_wf (ni_unknown_datagram_map a)" "sm_wf (ni_ip_arp_time a)" "sm_wf (ni_ip_map a)"
    using a(1) b(1) by (simp_all add: ni_wf_def)
  let ?m1 = "am_default\<lparr>am_opcode := 1, am_sender_ethernet_address := ?ma, am_sender_ip_address := ip_a, am_target_ip_address := ip_b\<rparr>"
  obtain s1 where s1: "am_serialize ?m1 = Inr s1" and send: "ni_send_datagram d (ad_v4 ip_b p) a = Inr (a\<lparr>ni_frames_out := ni_frames_out a @
        [\<lparr>ef_header = \<lparr>eh_dst = ETHERNET_BROADCAST, eh_src = ?ma, eh_type = TYPE_ARP\<rparr>, ef_payload = bl_of_string s1\<rparr>],
      ni_unknown_datagram_map := sm_set ip_b d (ni_unknown_datagram_map a),
      ni_ip_arp_time := sm_set ip_b (ni_crt_time a + DST_IP_EXPIRE_TIME_MS) (ni_ip_arp_time a)\<rparr>)" (is "_ = Inr ?a1")
    by (rule ni_send_unknown [OF a(3,4,2) len(1)])
  let ?f1 = "\<lparr>ef_header = \<lparr>eh_dst = ETHERNET_BROADCAST, eh_src = ?ma, eh_type = TYPE_ARP\<rparr>, ef_payload = bl_of_string s1\<rparr>"
  have m1: "am_wf ?m1" using len am_default_wf by (simp add: am_wf_def)
  obtain b1 where g1: "ef_parse (ef_wire ?f1) ef_default = Inr (\<lparr>ef_header = ef_header ?f1, ef_payload = [b1]\<rparr>, NoError)" "bf_wf b1" "bf_str b1 = bl_concatenate (ef_payload ?f1)"
    by (rule ef_over_wire [of ?f1]) (use len in \<open>simp add: eh_wf_def ETHERNET_BROADCAST_def\<close>)
  let ?g1 = "\<lparr>ef_header = ef_header ?f1, ef_payload = [b1]\<rparr>"
  obtain m2 s2 bs where r1: "ni_recv_arp ?m1 b = Inr bs" and m2: "am_serialize m2 = Inr s2" "am_wf m2" "am_opcode m2 = 2" "am_sender_ip_address m2 = ip_b"
      "am_sender_ethernet_address m2 = ?mb" "am_target_ip_address m2 = am_sender_ip_address ?m1" "am_target_ethernet_address m2 = am_sender_ethernet_address ?m1"
    and fb: "ni_frames_out bs = ni_frames_out b @
      [\<lparr>ef_header = \<lparr>eh_dst = am_sender_ethernet_address ?m1, eh_src = ?mb, eh_type = TYPE_ARP\<rparr>, ef_payload = bl_of_string s2\<rparr>]" "ni_ethernet_address bs = ?mb"
    by (rule recv_request [of ?m1 ip_b b pb]) (use b len m1 in simp_all)
  have rb: "ni_recv_frame ?g1 b = Inr (bs, None)" using recv_arp_frame [of ?g1 b b1 ?m1] g1(2,3) s1 m1 r1 by simp
  let ?f2 = "\<lparr>ef_header = \<lparr>eh_dst = ?ma, eh_src = ?mb, eh_type = TYPE_ARP\<rparr>, ef_payload = bl_of_string s2\<rparr>"
  obtain b2 where g2: "ef_parse (ef_wire ?f2) ef_default = Inr (\<lparr>ef_header = ef_header ?f2, ef_payload = [b2]\<rparr>, NoError)" "bf_wf b2" "bf_str b2 = bl_concatenate (ef_payload ?f2)"
    by (rule ef_over_wire [of ?f2]) (use len in \<open>simp add: eh_wf_def\<close>)
  let ?g2 = "\<lparr>ef_header = ef_header ?f2, ef_payload = [b2]\<rparr>"
  obtain pl ck where pl: "ip_serialize d = Inr pl" and parse_back: "\<And>b d0 h0. bf_wf b \<Longrightarrow> bf_str b = bl_concatenate pl \<Longrightarrow> \<exists>d' p b'. ip_parse b d0 = Inr (d', NoError) \<and>
      ip_header d' = (ip_header d)\<lparr>ih_cksum := ck\<rparr> \<and> bl_concatenate (ip_payload d') = bl_concatenate (ip_payload d) \<and>
      ih_parse h0 (np_new b) = Inr (p, ip_header d', NoError) \<and> ip_payload d' = [b'] \<and> bf_wf b'"
    using ip_roundtrip [OF d] by metis
  obtain a2 where r2: "ni_recv_arp m2 ?a1 = Inr a2" "sm_find (am_sender_ip_address m2) (ni_unknown_datagram_map a2) = None"
    "ni_frames_out a2 = ni_frames_out ?a1 @ [\<lparr>ef_header = \<lparr>eh_dst = am_sender_ethernet_address m2, eh_src = ni_ethernet_address ?a1, eh_type = TYPE_IPv4\<rparr>, ef_payload = pl\<rparr>]"
    by (rule recv_reply [of m2 ?a1 d pl]) (use m2 pl len a(1,5) assms(9) in \<open>simp_all add: sm.find_put sm.wf_put ni_wf_def\<close>)
  have ra: "ni_recv_frame ?g2 ?a1 = Inr (a2, None)" using recv_arp_frame [of ?g2 ?a1 b2 m2] g2(2,3) m2(1,2) r2(1) by simp
  let ?f3 = "\<lparr>ef_header = \<lparr>eh_dst = ?mb, eh_src = ?ma, eh_type = TYPE_IPv4\<rparr>, ef_payload = pl\<rparr>"
  obtain b3 where g3: "ef_parse (ef_wire ?f3) ef_default = Inr (\<lparr>ef_header = ef_header ?f3, ef_payload = [b3]\<rparr>, NoError)" "bf_wf b3" "bf_str b3 = bl_concatenate (ef_payload ?f3)"
    by (rule ef_over_wire [of ?f3]) (use len in \<open>simp add: eh_wf_def\<close>)
  let ?g3 = "\<lparr>ef_header = ef_header ?f3, ef_payload = [b3]\<rparr>"
  obtain d' where d': "ip_parse b3 ip_default = Inr (d', NoError)" "ip_header d' = (ip_header d)\<lparr>ih_cksum := ck\<rparr>" "bl_concatenate (ip_payload d') = bl_concatenate (ip_payload d)"
    using parse_back [OF g3(2), of ip_default ih_default] g3(3) by auto
  have rd: "ni_recv_frame ?g3 bs = Inr (bs, Some d')" using recv_ipv4_frame [of ?g3 bs b3] d'(1) fb(2) by simp
  have e: "ni_frames_out ?a1 = ni_frames_out a @ [?f1]" "ni_frames_out bs = ni_frames_out b @ [?f2]" "ni_frames_out a2 = ni_frames_out ?a1 @ [?f3]"
    "sm_find ip_b (ni_unknown_datagram_map a2) = None"
    using fb(1) r2(2,3) m2(4,5) by simp_all
  show ?thesis
    by (intro exI conjI, rule send, rule e(1), rule g1(1), rule rb, rule e(2), rule g2(1), rule ra, rule e(3), rule g3(1), rule rd, rule d'(2), rule d'(3), rule e(4))
qed

definition ni_demo_b :: NetworkInterface where
  "ni_demo_b = ni_demo\<lparr>ni_ethernet_address := mac_b, ni_ip_address := ad_v4 0x0a000002 0\<rparr>"

theorem arp_resolution_witness:
  "\<exists>a1 f1 g1 b1 f2 g2 a2 f3 g3 d'.
    ni_send_datagram ip_demo (ad_v4 0x0a000002 0) ni_demo = Inr a1 \<and> ni_frames_out a1 = [f1] \<and> ef_parse (ef_wire f1) ef_default = Inr (g1, NoError) \<and>
    ni_recv_frame g1 ni_demo_b = Inr (b1, None) \<and> ni_frames_out b1 = [f2] \<and> ef_parse (ef_wire f2) ef_default = Inr (g2, NoError) \<and>
    ni_recv_frame g2 a1 = Inr (a2, None) \<and> ni_frames_out a2 = [f1, f3] \<and> ef_parse (ef_wire f3) ef_default = Inr (g3, NoError) \<and>
    ni_recv_frame g3 b1 = Inr (b1, Some d') \<and> bl_concatenate (ip_payload d') = [1, 2, 3]"
proof -
  have "ni_wf ni_demo" "ni_wf ni_demo_b" by (simp_all add: ni_wf_def ni_demo_b_def ni_demo_def mac_a_def mac_b_def)
  moreover have "ih_ok (ip_header ip_demo)" "unat (ih_len (ip_header ip_demo)) = 4 * unat (ih_hlen (ip_header ip_demo)) + bl_size (ip_payload ip_demo)"
    by (simp_all add: ih_ok_def ip_demo_def ih_default_def IPv4Header_LENGTH_def)
  moreover have "bl_concatenate (ip_payload ip_demo) = [1, 2, 3]" "ni_frames_out ni_demo = []" "ni_frames_out ni_demo_b = []"
    by (simp_all add: ip_demo_def ni_demo_def ni_demo_b_def)
  ultimately show ?thesis
    using arp_resolution [of ni_demo "0x0a000001" 0 "0x0a000002" ni_demo_b 0 ip_demo 0]
    by (fastforce simp: ni_demo_def ni_demo_b_def sm_find_def simp del: bl_concatenate_eq)
qed

lemma sm_set_twice: "sm_wf m \<Longrightarrow> sm_set k v (sm_set k w m) = sm_set k v m"
  by (induction k w m rule: sm_set.induct) auto

text \<open>
  Only one datagram waits for a neighbour: sending two datagrams one after the other to a neighbour that is not known has exactly the
  effect of sending the second one alone, so that the first one is lost.
\<close>

theorem waiting_datagram_replaced:
  assumes "ni_wf ni" and "sm_find ip (ni_ip_map ni) = None"
  shows "bindE (ni_send_datagram d1 (ad_v4 ip p) ni) (ni_send_datagram d2 (ad_v4 ip p)) = ni_send_datagram d2 (ad_v4 ip p) ni"
proof -
  have wf: "sm_wf (ni_unknown_datagram_map ni)" "sm_wf (ni_ip_arp_time ni)" using assms(1) by (simp_all add: ni_wf_def)
  show ?thesis using assms(2) wf
    by (cases "ad_ipv4_numeric (ni_ip_address ni)"; cases "sm_find ip (ni_ip_arp_time ni)")
      (simp_all add: ni_send_datagram_def ni_broad_cast_def bindE_assoc ni_send_payload_def Let_def am_serialize_eq sm_set_twice sm.find_put)
qed

theorem waiting_datagram_witness:
  "bindE (ni_send_datagram ip_demo (ad_v4 7 0) ni_demo) (ni_send_datagram ip_default (ad_v4 7 0)) = ni_send_datagram ip_default (ad_v4 7 0) ni_demo"
  by (rule waiting_datagram_replaced) (simp_all add: ni_wf_def ni_demo_def mac_a_def sm_find_def)

end
