(* ===== verification/Router.thy ===== *)
theory Router
  imports Network_Interface
begin

text \<open>
  Models \<^verbatim>\<open>libsponge/router.hh\<close> and \<^verbatim>\<open>router.cc\<close>. An \<open>AsyncNetworkInterface\<close> is its base object with a queue; the vector of interfaces is a
  list, and access to it past its end is undefined behaviour. \<open>add_route\<close> prints its arguments, which can throw.
\<close>

unbundle bit_operations_syntax

section \<open>Interfaces with a queue\<close>

record AsyncNetworkInterface =
  an_base :: NetworkInterface
  an_datagrams_out :: "IPv4Datagram list"

definition an_of :: "NetworkInterface \<Rightarrow> AsyncNetworkInterface" where
  "an_of ni = \<lparr>an_base = ni, an_datagrams_out = []\<rparr>"

definition an_recv_frame :: "EthernetFrame \<Rightarrow> AsyncNetworkInterface \<Rightarrow> AsyncNetworkInterface res" where
  "an_recv_frame frame an =
     bindE (ni_recv_frame frame (an_base an)) (\<lambda>(ni, optional_dgram).
       Inr (case optional_dgram of
              None \<Rightarrow> an\<lparr>an_base := ni\<rparr>
            | Some d \<Rightarrow> an\<lparr>an_base := ni, an_datagrams_out := an_datagrams_out an @ [d]\<rparr>))"

section \<open>Routes\<close>

record MapItem =
  mi_route_prefix :: u32
  mi_prefix_length :: u8
  mi_next_hop :: "Address option"
  mi_interface_num :: nat

record Router =
  rt_interfaces :: "AsyncNetworkInterface list"
  rt_map_vec :: "MapItem list"

definition rt_new :: Router where
  "rt_new = \<lparr>rt_interfaces = [], rt_map_vec = []\<rparr>"

definition rt_add_interface :: "AsyncNetworkInterface \<Rightarrow> Router \<Rightarrow> Router \<times> nat" where
  "rt_add_interface an rt = (rt\<lparr>rt_interfaces := rt_interfaces rt @ [an]\<rparr>, length (rt_interfaces rt @ [an]) - 1)"

definition rt_interface :: "nat \<Rightarrow> Router \<Rightarrow> AsyncNetworkInterface res" where
  "rt_interface n rt = (if n < length (rt_interfaces rt) then Inr (rt_interfaces rt ! n) else Inl OutOfRange)"

text \<open>A shift of a 32-bit value by a negative count or by 32 or more is undefined.\<close>

definition rt_mask :: "u8 \<Rightarrow> u32 res" where
  "rt_mask prefix_length =
     (let n = 32 - int (unat prefix_length)
      in if n < 0 \<or> 32 \<le> n then Inl UB else Inr (push_bit (nat n) 0xFFFFFFFF))"

definition rt_print_route :: "libc \<Rightarrow> u32 \<Rightarrow> Address option \<Rightarrow> unit res" where
  "rt_print_route lc route_prefix next_hop =
     bindE (ad_from_ipv4_numeric route_prefix) (\<lambda>a.
     bindE (ad_ip lc a) (\<lambda>_.
       case next_hop of None \<Rightarrow> Inr () | Some hop \<Rightarrow> bindE (ad_ip lc hop) (\<lambda>_. Inr ())))"

definition rt_add_route :: "libc \<Rightarrow> u32 \<Rightarrow> u8 \<Rightarrow> Address option \<Rightarrow> nat \<Rightarrow> Router \<Rightarrow> Router res" where
  "rt_add_route lc route_prefix prefix_length next_hop interface_num rt =
     bindE (rt_print_route lc route_prefix next_hop) (\<lambda>_.
     bindE (rt_mask prefix_length) (\<lambda>msk.
       let tmp = \<lparr>mi_route_prefix = route_prefix AND msk, mi_prefix_length = prefix_length, mi_next_hop = next_hop, mi_interface_num = interface_num\<rparr>
       in Inr (rt\<lparr>rt_map_vec := rt_map_vec rt @ [tmp]\<rparr>)))"

text \<open>The loop of \<open>matched_prefix_length\<close>, with the number of iterations left.\<close>

fun mp_loop :: "nat \<Rightarrow> u32 \<Rightarrow> u32 \<Rightarrow> u8 \<Rightarrow> u8" where
  "mp_loop 0 msk m matched_len = matched_len"
| "mp_loop (Suc n) msk m matched_len = (if msk AND m \<noteq> 0 then mp_loop n (drop_bit 1 msk) m (matched_len + 1) else matched_len)"

definition matched_prefix_length :: "u32 \<Rightarrow> u32 \<Rightarrow> u8 \<Rightarrow> bool" where
  "matched_prefix_length ip pattern prefix_length =
     (let m = NOT (ip XOR pattern);
          msk = push_bit 31 1;
          matched_len = mp_loop 32 msk m 0
      in matched_len \<ge> prefix_length)"

section \<open>Routing\<close>

text \<open>The loop over the table: what is the best match so far, the interface and the next hop.\<close>

fun rt_lookup_loop :: "u32 \<Rightarrow> MapItem list \<Rightarrow> u8 \<Rightarrow> nat \<Rightarrow> Address option \<Rightarrow> nat \<times> Address option" where
  "rt_lookup_loop dest_ip [] max_match_length matched_interface_num next_hop = (matched_interface_num, next_hop)"
| "rt_lookup_loop dest_ip (item # items) max_match_length matched_interface_num next_hop =
     (if matched_prefix_length dest_ip (mi_route_prefix item) (mi_prefix_length item) \<and> mi_route_prefix item \<ge> ucast max_match_length
      then rt_lookup_loop dest_ip items (ucast (mi_route_prefix item)) (mi_interface_num item) (mi_next_hop item)
      else rt_lookup_loop dest_ip items max_match_length matched_interface_num next_hop)"

definition rt_send :: "nat \<Rightarrow> IPv4Datagram \<Rightarrow> Address \<Rightarrow> Router \<Rightarrow> Router res" where
  "rt_send i dgram next_hop rt =
     (if i < length (rt_interfaces rt)
      then bindE (ni_send_datagram dgram next_hop (an_base (rt_interfaces rt ! i))) (\<lambda>ni.
           Inr (rt\<lparr>rt_interfaces := (rt_interfaces rt)[i := (rt_interfaces rt ! i)\<lparr>an_base := ni\<rparr>]\<rparr>))
      else Inl UB)"

definition rt_route_one_datagram :: "IPv4Datagram \<Rightarrow> Router \<Rightarrow> Router res" where
  "rt_route_one_datagram dgram rt =
     (if ih_ttl (ip_header dgram) = 0 \<or> ih_ttl (ip_header dgram) = 1 then Inr rt
      else let dgram = dgram\<lparr>ip_header := (ip_header dgram)\<lparr>ih_ttl := ih_ttl (ip_header dgram) - 1\<rparr>\<rparr>;
               (matched_interface_num, next_hop) = rt_lookup_loop (ih_dst (ip_header dgram)) (rt_map_vec rt) 0 0 None
           in case next_hop of
                Some hop \<Rightarrow> rt_send matched_interface_num dgram hop rt
              | None \<Rightarrow> bindE (ad_from_ipv4_numeric (ih_dst (ip_header dgram))) (\<lambda>hop. rt_send matched_interface_num dgram hop rt))"

text \<open>The two loops of \<open>route\<close>; the inner one is given the length of the queue as the bound of its iterations.\<close>

definition rt_pop :: "nat \<Rightarrow> Router \<Rightarrow> Router" where
  "rt_pop i rt = rt\<lparr>rt_interfaces := (rt_interfaces rt)[i := (rt_interfaces rt ! i)\<lparr>an_datagrams_out := tl (an_datagrams_out (rt_interfaces rt ! i))\<rparr>]\<rparr>"

fun rt_drain :: "nat \<Rightarrow> nat \<Rightarrow> Router \<Rightarrow> Router res" where
  "rt_drain 0 i rt = Inr rt"
| "rt_drain (Suc n) i rt =
     (case an_datagrams_out (rt_interfaces rt ! i) of
        [] \<Rightarrow> Inr rt
      | d # _ \<Rightarrow> bindE (rt_route_one_datagram d rt) (\<lambda>rt. rt_drain n i (rt_pop i rt)))"

primrec rt_route_loop :: "nat list \<Rightarrow> Router \<Rightarrow> Router res" where
  "rt_route_loop [] rt = Inr rt"
| "rt_route_loop (i # is) rt = bindE (rt_drain (length (an_datagrams_out (rt_interfaces rt ! i))) i rt) (rt_route_loop is)"

definition rt_route :: "Router \<Rightarrow> Router res" where
  "rt_route rt = rt_route_loop [0..<length (rt_interfaces rt)] rt"

section \<open>Prefix matching\<close>

text \<open>The loop counts the leading bits in which the two addresses agree.\<close>

lemma word_bit_and: "push_bit k (1 :: u32) AND m \<noteq> 0 \<longleftrightarrow> bit m k"
  unfolding bit_iff_and_push_bit_not_eq_0 [of m k] by (simp add: and.commute)

definition agree :: "nat \<Rightarrow> u32 \<Rightarrow> u32 \<Rightarrow> bool" where
  "agree n x y \<longleftrightarrow> (\<forall>k. 32 - n \<le> k \<and> k < 32 \<longrightarrow> bit x k = bit y k)"

lemma agree_Suc: "n < 32 \<Longrightarrow> agree (Suc n) x y \<longleftrightarrow> agree n x y \<and> bit x (31 - n) = bit y (31 - n)"
proof -
  assume "n < 32"
  then have "32 - Suc n \<le> k \<longleftrightarrow> 32 - n \<le> k \<or> k = 31 - n" for k by auto
  then show ?thesis using \<open>n < 32\<close> by (auto simp: agree_def)
qed

lemma agree_mono: "agree n x y \<Longrightarrow> m \<le> n \<Longrightarrow> agree m x y"
  by (auto simp: agree_def)

lemma agree_drop_bit: "n \<le> 32 \<Longrightarrow> agree n x y \<longleftrightarrow> drop_bit (32 - n) x = drop_bit (32 - n) y"
proof
  assume "n \<le> 32" "agree n x y"
  have "bit x k = bit y k" if "32 - n \<le> k" for k
    using \<open>agree n x y\<close> that bit_imp_le_length [of x k] bit_imp_le_length [of y k] by (cases "k < 32") (auto simp: agree_def)
  then show "drop_bit (32 - n) x = drop_bit (32 - n) y" by (intro bit_word_eqI) (simp add: bit_drop_bit_eq)
next
  assume *: "n \<le> 32" "drop_bit (32 - n) x = drop_bit (32 - n) y"
  show "agree n x y" unfolding agree_def
  proof (intro allI impI)
    fix k assume "32 - n \<le> k \<and> k < 32"
    then have "k = 32 - n + (k - (32 - n))" by simp
    then show "bit x k = bit y k" using * by (metis bit_drop_bit_eq comp_apply)
  qed
qed

lemma mp_loop_spec:
  "n \<le> 32 \<Longrightarrow> agree (32 - n) ip pat \<Longrightarrow> unat len = 32 - n \<Longrightarrow>
   \<exists>r. mp_loop n (push_bit (n - 1) 1) (NOT (ip XOR pat)) len = r \<and> unat r \<le> 32 \<and> (\<forall>k \<le> 32. k \<le> unat r \<longleftrightarrow> agree k ip pat)"
proof (induction n arbitrary: len)
  case 0
  then show ?case by (auto intro: agree_mono)
next
  case (Suc n)
  have bitn: "push_bit (Suc n - 1) 1 AND NOT (ip XOR pat) \<noteq> 0 \<longleftrightarrow> bit ip n = bit pat n"
    using Suc.prems(1) by (simp add: word_bit_and bit_simps del: push_bit_of_1)
  have sh: "drop_bit 1 (push_bit (Suc n - 1) 1) = (push_bit (n - 1) (1 :: u32))" if "n \<noteq> 0"
    using that Suc.prems(1) by (intro bit_word_eqI) (auto simp: bit_drop_bit_eq bit_push_bit_iff bit_1_iff simp del: push_bit_of_1)
  have eq: "agree (32 - n) ip pat \<longleftrightarrow> agree (32 - Suc n) ip pat \<and> bit ip n = bit pat n"
  proof -
    have "31 - n < 32" "Suc (31 - n) = 32 - n" "31 - (31 - n) = n" "32 - Suc n = 31 - n" using Suc.prems(1) by auto
    then show ?thesis using agree_Suc [of "31 - n" ip pat] by simp
  qed
  show ?case
  proof (cases "bit ip n = bit pat n")
    case True
    have len: "unat (len + 1) = 32 - n" using Suc.prems(1,3) by (simp add: unat_word_ariths)
    have "mp_loop (Suc n) (push_bit (Suc n - 1) 1) (NOT (ip XOR pat)) len = mp_loop n (push_bit (n - 1) 1) (NOT (ip XOR pat)) (len + 1)"
      using True bitn sh by (cases "n = 0") simp_all
    then show ?thesis using Suc.IH [of "len + 1"] Suc.prems(1,2) eq True len by simp
  next
    case False
    have "\<not> agree k ip pat" if "32 - Suc n < k" for k
    proof -
      have "32 - n \<le> k" using that by linarith
      then show ?thesis using agree_mono [of k ip pat "32 - n"] eq False by blast
    qed
    then have "k \<le> 32 - Suc n \<longleftrightarrow> agree k ip pat" for k using agree_mono [OF Suc.prems(2), of k] by (meson not_le)
    then show ?thesis using False bitn Suc.prems(3) by simp
  qed
qed

lemma matched_prefix_length_iff:
  "matched_prefix_length ip pat len \<longleftrightarrow> unat len \<le> 32 \<and> drop_bit (32 - unat len) ip = drop_bit (32 - unat len) pat"
proof -
  define r where "r = mp_loop 32 (push_bit 31 1) (NOT (ip XOR pat)) 0"
  have "agree (32 - 32) ip pat" by (auto simp: agree_def)
  then have r: "unat r \<le> 32" "\<forall>k \<le> 32. k \<le> unat r \<longleftrightarrow> agree k ip pat"
    using mp_loop_spec [of 32 ip pat 0] unfolding r_def by simp_all
  have "len \<le> r \<longleftrightarrow> unat len \<le> unat r" by (simp add: word_le_nat_alt)
  also have "\<dots> \<longleftrightarrow> unat len \<le> 32 \<and> agree (unat len) ip pat" using r by (meson le_trans)
  also have "\<dots> \<longleftrightarrow> unat len \<le> 32 \<and> drop_bit (32 - unat len) ip = drop_bit (32 - unat len) pat" using agree_drop_bit by auto
  finally show ?thesis by (simp add: matched_prefix_length_def Let_def r_def)
qed

section \<open>The table\<close>

definition mi_matches :: "u32 \<Rightarrow> MapItem \<Rightarrow> bool" where
  "mi_matches ip item \<longleftrightarrow> unat (mi_prefix_length item) \<le> 32 \<and>
     drop_bit (32 - unat (mi_prefix_length item)) ip = drop_bit (32 - unat (mi_prefix_length item)) (mi_route_prefix item)"

lemma u8_less_256: "256 \<le> x \<Longrightarrow> ucast (y :: u8) \<le> (x :: u32)"
proof -
  assume "256 \<le> x"
  then have "256 \<le> unat x" by (simp add: word_le_nat_alt)
  then have "unat y \<le> unat x" using unat_lt_8 [of y] by linarith
  moreover have "unat (ucast y :: u32) = unat y" by (simp add: unsigned_ucast_eq take_bit_nat_eq_self order.strict_trans [OF unat_lt_8])
  ultimately show ?thesis by (simp add: word_le_nat_alt)
qed

lemma u8_le_1: "(x :: u8) \<le> 1 \<longleftrightarrow> x = 0 \<or> x = 1"
proof -
  have "x = 0 \<longleftrightarrow> unat x = 0" "x = 1 \<longleftrightarrow> unat x = 1" using word_unat_eq_iff [of x 0] word_unat_eq_iff [of x 1] by simp_all
  moreover have "x \<le> 1 \<longleftrightarrow> unat x \<le> 1" by (simp add: word_le_nat_alt)
  ultimately show ?thesis by linarith
qed

lemma rt_lookup_last:
  "\<forall>item \<in> set items. 256 \<le> mi_route_prefix item \<Longrightarrow>
   rt_lookup_loop ip items m i hop =
     (case filter (mi_matches ip) items of [] \<Rightarrow> (i, hop) | rs \<Rightarrow> (mi_interface_num (last rs), mi_next_hop (last rs)))"
proof (induction items arbitrary: m i hop)
  case (Cons item items)
  have "mi_matches ip item \<longleftrightarrow> matched_prefix_length ip (mi_route_prefix item) (mi_prefix_length item)"
    by (simp add: matched_prefix_length_iff mi_matches_def)
  then show ?case using Cons u8_less_256 by (auto split: list.splits)
qed simp

text \<open>What \<open>add_route\<close> puts into the table, for a prefix length from 1 to 32.\<close>

lemma rt_mask_ok: "1 \<le> n \<Longrightarrow> n \<le> 32 \<Longrightarrow> rt_mask n = Inr (push_bit (32 - unat n) 0xFFFFFFFF)"
proof -
  assume "1 \<le> n" "n \<le> 32"
  then have "1 \<le> unat n" "unat n \<le> 32" by (simp_all add: word_le_nat_alt)
  then have "\<not> (32 - int (unat n) < 0 \<or> 32 \<le> 32 - int (unat n))" "nat (32 - int (unat n)) = 32 - unat n" by linarith+
  then show ?thesis unfolding rt_mask_def Let_def by (simp only: if_False)
qed

lemma rt_mask_ub: "n = 0 \<or> 32 < n \<Longrightarrow> rt_mask n = Inl UB"
proof -
  assume "n = 0 \<or> 32 < n"
  then have "unat n = 0 \<or> 32 < unat n" by (auto simp: word_less_nat_alt)
  then have "32 - int (unat n) < 0 \<or> 32 \<le> 32 - int (unat n)" by linarith
  then show ?thesis unfolding rt_mask_def Let_def by (simp only: if_True)
qed

lemma drop_bit_masked: "n \<le> 32 \<Longrightarrow> drop_bit n (p AND push_bit n 0xFFFFFFFF) = drop_bit n (p :: u32)"
proof (rule bit_word_eqI)
  fix k
  have "bit (0xFFFFFFFF :: u32) j" if "j < 32" for j
  proof -
    have "(0xFFFFFFFF :: u32) = - 1" by simp
    then show ?thesis using that by (simp only: bit_minus_1_iff possible_bit_word len_num0 len_num1 len_bit0 len_bit1)
  qed
  then show "bit (drop_bit n (p AND push_bit n 0xFFFFFFFF)) k = bit (drop_bit n p) k"
    using bit_imp_le_length [of p "n + k"] by (auto simp: bit_drop_bit_eq bit_and_iff bit_push_bit_iff)
qed

section \<open>Every datagram is dealt with\<close>

definition dg_ok :: "IPv4Datagram \<Rightarrow> bool" where
  "dg_ok d \<longleftrightarrow> ih_ok (ip_header d) \<and> unat (ih_len (ip_header d)) = 4 * unat (ih_hlen (ip_header d)) + bl_size (ip_payload d)"

definition ad_is_v4 :: "Address \<Rightarrow> bool" where
  "ad_is_v4 a \<longleftrightarrow> (\<exists>ip port. a = ad_v4 ip port)"

definition hop_ok :: "Address option \<Rightarrow> bool" where
  "hop_ok hop = (case hop of None \<Rightarrow> True | Some h \<Rightarrow> ad_is_v4 h)"

text \<open>IPv4 addresses everywhere, routes to interfaces that exist, and datagrams that can be serialized.\<close>

definition an_ok :: "AsyncNetworkInterface \<Rightarrow> bool" where
  "an_ok an \<longleftrightarrow> ad_is_v4 (ni_ip_address (an_base an)) \<and> (\<forall>d \<in> set (an_datagrams_out an). dg_ok d)"

definition rt_ok :: "Router \<Rightarrow> bool" where
  "rt_ok rt \<longleftrightarrow> rt_interfaces rt \<noteq> [] \<and>
     (\<forall>an \<in> set (rt_interfaces rt). an_ok an) \<and>
     (\<forall>item \<in> set (rt_map_vec rt). mi_interface_num item < length (rt_interfaces rt) \<and> hop_ok (mi_next_hop item))"

definition rt_queues :: "Router \<Rightarrow> IPv4Datagram list list" where
  "rt_queues rt = map an_datagrams_out (rt_interfaces rt)"

lemma dg_ok_serialize: "dg_ok d \<Longrightarrow> \<exists>bl. ip_serialize d = Inr bl"
  using ip_roundtrip [of d] by (metis dg_ok_def)

lemma dg_ok_ttl: "dg_ok d \<Longrightarrow> dg_ok (d\<lparr>ip_header := (ip_header d)\<lparr>ih_ttl := t\<rparr>\<rparr>)"
  by (simp add: dg_ok_def ih_ok_def)

lemma ni_send_datagram_ok:
  assumes "ad_is_v4 hop" "ad_is_v4 (ni_ip_address ni)" "dg_ok d"
  shows "\<exists>ni'. ni_send_datagram d hop ni = Inr ni' \<and> ni_ip_address ni' = ni_ip_address ni"
proof -
  obtain bl where bl: "ip_serialize d = Inr bl" using dg_ok_serialize [OF assms(3)] by blast
  obtain ip p own q where v4: "hop = ad_v4 ip p" "ni_ip_address ni = ad_v4 own q" using assms(1,2) by (auto simp: ad_is_v4_def)
  have "am_supported (am_default\<lparr>am_opcode := 1, am_sender_ethernet_address := m, am_sender_ip_address := o1, am_target_ip_address := t\<rparr>)" for m o1 t
    by (simp add: am_supported_def am_default_def OPCODE_REQUEST_def)
  then show ?thesis using bl v4
    by (auto simp: ni_send_datagram_def ni_broad_cast_def ni_send_payload_def am_serialize_eq Let_def split: option.splits prod.splits)
qed

lemma rt_lookup_range:
  "i < n \<Longrightarrow> hop_ok hop \<Longrightarrow> \<forall>item \<in> set items. mi_interface_num item < n \<and> hop_ok (mi_next_hop item) \<Longrightarrow>
   rt_lookup_loop ip items m i hop = (j, hop') \<Longrightarrow> j < n \<and> hop_ok hop'"
proof (induction items arbitrary: m i hop)
  case (Cons item items)
  have rest: "\<forall>item \<in> set items. mi_interface_num item < n \<and> hop_ok (mi_next_hop item)" "mi_interface_num item < n" "hop_ok (mi_next_hop item)"
    using Cons.prems(3) by simp_all
  show ?case
  proof (cases "matched_prefix_length ip (mi_route_prefix item) (mi_prefix_length item) \<and> mi_route_prefix item \<ge> ucast m")
    case True
    then show ?thesis using Cons.IH [OF rest(2,3,1)] Cons.prems(4) by simp
  next
    case False
    then show ?thesis using Cons.IH [OF Cons.prems(1,2) rest(1)] Cons.prems(4) by auto
  qed
qed simp

lemma rt_ok_update: "an_ok an \<Longrightarrow> rt_ok rt \<Longrightarrow> rt_ok (rt\<lparr>rt_interfaces := (rt_interfaces rt)[i := an]\<rparr>)"
  using set_update_subset_insert [of "rt_interfaces rt" i an] by (auto simp: rt_ok_def)

lemma rt_send_ok:
  assumes "rt_ok rt" "i < length (rt_interfaces rt)" "ad_is_v4 hop" "dg_ok d"
  shows "\<exists>rt'. rt_send i d hop rt = Inr rt' \<and> rt_ok rt' \<and> rt_queues rt' = rt_queues rt \<and> rt_map_vec rt' = rt_map_vec rt"
proof -
  let ?an = "rt_interfaces rt ! i"
  have mem: "?an \<in> set (rt_interfaces rt)" using assms(2) by simp
  obtain ni' where ni': "ni_send_datagram d hop (an_base ?an) = Inr ni'" "ni_ip_address ni' = ni_ip_address (an_base ?an)"
    using ni_send_datagram_ok [OF assms(3) _ assms(4)] assms(1) mem unfolding rt_ok_def an_ok_def by blast
  let ?rt = "rt\<lparr>rt_interfaces := (rt_interfaces rt)[i := ?an\<lparr>an_base := ni'\<rparr>]\<rparr>"
  have "an_ok (?an\<lparr>an_base := ni'\<rparr>)" using assms(1) mem ni'(2) by (simp add: rt_ok_def an_ok_def)
  then have "rt_ok ?rt" using assms(1) by (rule rt_ok_update)
  moreover have "rt_queues ?rt = rt_queues rt" by (simp add: rt_queues_def map_update list_update_same_conv assms(2))
  ultimately show ?thesis using assms(2) ni'(1) by (simp add: rt_send_def)
qed

lemma rt_route_one_ok:
  assumes "rt_ok rt" "dg_ok d"
  shows "\<exists>rt'. rt_route_one_datagram d rt = Inr rt' \<and> rt_ok rt' \<and> rt_queues rt' = rt_queues rt \<and> rt_map_vec rt' = rt_map_vec rt"
proof (cases "ih_ttl (ip_header d) = 0 \<or> ih_ttl (ip_header d) = 1")
  case True
  then show ?thesis using assms(1) by (simp add: rt_route_one_datagram_def)
next
  case False
  let ?d = "d\<lparr>ip_header := (ip_header d)\<lparr>ih_ttl := ih_ttl (ip_header d) - 1\<rparr>\<rparr>"
  obtain j hop where l: "rt_lookup_loop (ih_dst (ip_header d)) (rt_map_vec rt) 0 0 None = (j, hop)" by fastforce
  have r: "j < length (rt_interfaces rt)" "hop_ok hop"
    using rt_lookup_range [OF _ _ _ l, of "length (rt_interfaces rt)"] assms(1) by (simp_all add: rt_ok_def hop_ok_def [of None])
  have "rt_route_one_datagram d rt = rt_send j ?d (case hop of Some h \<Rightarrow> h | None \<Rightarrow> ad_v4 (ih_dst (ip_header d)) 0) rt"
    using False l by (simp add: rt_route_one_datagram_def Let_def split: option.splits)
  moreover have "ad_is_v4 (case hop of Some h \<Rightarrow> h | None \<Rightarrow> ad_v4 (ih_dst (ip_header d)) 0)"
    using r(2) by (auto simp: hop_ok_def ad_is_v4_def split: option.splits)
  ultimately show ?thesis using rt_send_ok [OF assms(1) r(1) _ dg_ok_ttl [OF assms(2)]] by simp
qed

lemma rt_drain_ok:
  "rt_ok rt \<Longrightarrow> i < length (rt_interfaces rt) \<Longrightarrow> n = length (an_datagrams_out (rt_interfaces rt ! i)) \<Longrightarrow>
   \<exists>rt'. rt_drain n i rt = Inr rt' \<and> rt_ok rt' \<and> rt_queues rt' = (rt_queues rt)[i := []]"
proof (induction n arbitrary: rt)
  case 0
  then show ?case by (auto simp: rt_queues_def list_update_same_conv [THEN iffD2])
next
  case (Suc n)
  then obtain d ds where q: "an_datagrams_out (rt_interfaces rt ! i) = d # ds" by (cases "an_datagrams_out (rt_interfaces rt ! i)") auto
  then have "dg_ok d" using Suc.prems(1,2) by (auto simp: rt_ok_def an_ok_def dest: nth_mem)
  then obtain rt1 where rt1: "rt_route_one_datagram d rt = Inr rt1" "rt_ok rt1" "rt_queues rt1 = rt_queues rt"
    using rt_route_one_ok [OF Suc.prems(1)] by blast
  have i1: "i < length (rt_interfaces rt1)" using rt1(3) Suc.prems(2) by (metis length_map rt_queues_def)
  have "rt_queues rt1 ! i = d # ds" using rt1(3) q Suc.prems(2) by (simp add: rt_queues_def)
  then have q1: "an_datagrams_out (rt_interfaces rt1 ! i) = d # ds" using i1 by (simp add: rt_queues_def)
  have "an_ok ((rt_interfaces rt1 ! i)\<lparr>an_datagrams_out := ds\<rparr>)" using rt1(2) i1 q1 by (auto simp: rt_ok_def an_ok_def dest: nth_mem)
  then have ok: "rt_ok (rt_pop i rt1)" unfolding rt_pop_def using rt1(2) q1 by (simp add: rt_ok_update)
  have "rt_queues (rt_pop i rt1) = (rt_queues rt)[i := ds]" using rt1(3) q1 by (simp add: rt_queues_def rt_pop_def map_update)
  moreover have "i < length (rt_interfaces (rt_pop i rt1))" "n = length (an_datagrams_out (rt_interfaces (rt_pop i rt1) ! i))"
    using i1 q1 Suc.prems(3) q by (simp_all add: rt_pop_def)
  ultimately obtain rt' where "rt_drain n i (rt_pop i rt1) = Inr rt'" "rt_ok rt'" "rt_queues rt' = (rt_queues rt)[i := []]"
    using Suc.IH [OF ok] by auto
  then show ?case using q rt1(1) by simp
qed

lemma rt_route_loop_ok:
  "rt_ok rt \<Longrightarrow> \<forall>i \<in> set is. i < length (rt_interfaces rt) \<Longrightarrow>
   \<exists>rt'. rt_route_loop is rt = Inr rt' \<and> rt_ok rt' \<and> rt_queues rt' = map (\<lambda>i. if i \<in> set is then [] else rt_queues rt ! i) [0..<length (rt_queues rt)]"
proof (induction "is" arbitrary: rt)
  case Nil
  then show ?case by (simp add: map_nth)
next
  case (Cons i js)
  obtain rt1 where rt1: "rt_drain (length (an_datagrams_out (rt_interfaces rt ! i))) i rt = Inr rt1" "rt_ok rt1" "rt_queues rt1 = (rt_queues rt)[i := []]"
    using rt_drain_ok [OF Cons.prems(1) _ refl] Cons.prems(2) by auto
  have "length (rt_interfaces rt1) = length (rt_interfaces rt)" using rt1(3) by (metis length_list_update length_map rt_queues_def)
  then obtain rt' where "rt_route_loop js rt1 = Inr rt'" "rt_ok rt'"
    "rt_queues rt' = map (\<lambda>k. if k \<in> set js then [] else rt_queues rt1 ! k) [0..<length (rt_queues rt1)]"
    using Cons.IH [OF rt1(2)] Cons.prems(2) by auto
  then show ?case using rt1(1,3) by (auto simp: nth_list_update)
qed

section \<open>Properties\<close>

text \<open>
  What a route means. With a prefix length from 1 to 32 \<open>add_route\<close> appends one entry, with the given next hop and interface, that
  matches exactly the destinations whose leading bits are those of the prefix; with any other prefix length, 0
  for a default route included, the shift that makes the mask is undefined.
\<close>

theorem router_add_route:
  assumes "libc_ok lc" and "hop_ok hop"
  shows "if 1 \<le> n \<and> n \<le> 32
    then \<exists>item. rt_add_route lc p n hop i rt = Inr (rt\<lparr>rt_map_vec := rt_map_vec rt @ [item]\<rparr>) \<and> mi_next_hop item = hop \<and> mi_interface_num item = i \<and>
      (\<forall>ip. matched_prefix_length ip (mi_route_prefix item) (mi_prefix_length item) \<longleftrightarrow> drop_bit (32 - unat n) ip = drop_bit (32 - unat n) p)
    else rt_add_route lc p n hop i rt = Inl UB"
proof -
  have pr: "rt_print_route lc p hop = Inr ()"
    using assms by (auto simp: rt_print_route_def ad_ip_def ad_ip_port_v4 hop_ok_def ad_is_v4_def split: option.splits)
  show ?thesis
  proof (cases "1 \<le> n \<and> n \<le> 32")
    case True
    then have "unat n \<le> 32" by (simp add: word_le_nat_alt)
    let ?item = "\<lparr>mi_route_prefix = p AND push_bit (32 - unat n) 0xFFFFFFFF, mi_prefix_length = n, mi_next_hop = hop, mi_interface_num = i\<rparr>"
    have matches: "matched_prefix_length ip (mi_route_prefix ?item) (mi_prefix_length ?item) \<longleftrightarrow> drop_bit (32 - unat n) ip = drop_bit (32 - unat n) p" for ip
      using \<open>unat n \<le> 32\<close> drop_bit_masked [of "32 - unat n" p] by (simp only: matched_prefix_length_iff MapItem.simps) simp
    have add: "rt_add_route lc p n hop i rt = Inr (rt\<lparr>rt_map_vec := rt_map_vec rt @ [?item]\<rparr>)"
      using True pr rt_mask_ok [of n] by (simp add: rt_add_route_def Let_def)
    show ?thesis unfolding if_P [OF True] by (rule exI [of _ ?item], intro conjI allI, rule add, simp, simp, rule matches)
  next
    case False
    then have "n = 0 \<or> 32 < n" using word_gt_0 [of n] word_le_def by (auto simp: not_le word_le_nat_alt word_less_nat_alt unat_eq_0)
    then show ?thesis using False pr rt_mask_ub [of n] by (simp add: rt_add_route_def)
  qed
qed

theorem router_add_route_witness:
  "\<exists>item. rt_add_route libc_demo 0x0a000000 8 None 1 rt_new = Inr (rt_new\<lparr>rt_map_vec := [item]\<rparr>) \<and>
     matched_prefix_length 0x0a010203 (mi_route_prefix item) (mi_prefix_length item)"
  using router_add_route [OF libc_demo_ok, of None 8 "0x0a000000" 1 rt_new] by (auto simp: hop_ok_def rt_new_def)

text \<open>
  C31. Forwarding. A datagram whose time to live is 0 or 1 is dropped. Any other leaves, with the time to live one less, through the route that was added
  last among the matching ones, to its next hop or directly to the destination; when no route matches it is sent directly through
  interface 0. This is for tables whose prefixes are at least 0.0.1.0, such as all prefixes of up to 24 bits but 0.0.0.0.
\<close>

theorem router_forwarding:
  assumes "\<forall>item \<in> set (rt_map_vec rt). 256 \<le> mi_route_prefix item"
  shows "rt_route_one_datagram d rt =
    (if ih_ttl (ip_header d) \<le> 1 then Inr rt
     else let d' = d\<lparr>ip_header := (ip_header d)\<lparr>ih_ttl := ih_ttl (ip_header d) - 1\<rparr>\<rparr>; direct = ad_v4 (ih_dst (ip_header d)) 0
          in case rev (filter (mi_matches (ih_dst (ip_header d))) (rt_map_vec rt)) of
               [] \<Rightarrow> rt_send 0 d' direct rt
             | item # _ \<Rightarrow> rt_send (mi_interface_num item) d' (case mi_next_hop item of None \<Rightarrow> direct | Some hop \<Rightarrow> hop) rt)"
proof -
  have ttl: "ih_ttl (ip_header d) \<le> 1 \<longleftrightarrow> ih_ttl (ip_header d) = 0 \<or> ih_ttl (ip_header d) = 1" by (rule u8_le_1)
  show ?thesis
  proof (cases "filter (mi_matches (ih_dst (ip_header d))) (rt_map_vec rt)" rule: rev_cases)
    case Nil
    then show ?thesis using ttl rt_lookup_last [OF assms, of "ih_dst (ip_header d)" 0 0 None] by (simp add: rt_route_one_datagram_def Let_def)
  next
    case (snoc rs item)
    then have "rt_lookup_loop (ih_dst (ip_header d)) (rt_map_vec rt) 0 0 None = (mi_interface_num item, mi_next_hop item)"
      using rt_lookup_last [OF assms, of "ih_dst (ip_header d)" 0 0 None] by (cases rs) simp_all
    then show ?thesis using ttl snoc by (simp add: rt_route_one_datagram_def Let_def split: option.splits)
  qed
qed

definition dg_demo :: "u8 \<Rightarrow> IPv4Datagram" where
  "dg_demo t = \<lparr>ip_header = ih_default\<lparr>ih_len := 20, ih_ttl := t, ih_dst := 0x0a010203\<rparr>, ip_payload = []\<rparr>"

definition route_8 :: MapItem where
  "route_8 = \<lparr>mi_route_prefix = 0x0a000000, mi_prefix_length = 8, mi_next_hop = None, mi_interface_num = 0\<rparr>"

definition route_16 :: MapItem where
  "route_16 = \<lparr>mi_route_prefix = 0x0a010000, mi_prefix_length = 16, mi_next_hop = Some (ad_v4 0x0a010001 0), mi_interface_num = 1\<rparr>"

definition rt_demo :: "MapItem list \<Rightarrow> Router" where
  "rt_demo items = \<lparr>rt_interfaces = [(an_of ni_demo)\<lparr>an_datagrams_out := [dg_demo 64, dg_demo 1]\<rparr>, an_of ni_demo], rt_map_vec = items\<rparr>"

lemma route_demo_facts:
  "mi_matches 0x0a010203 route_8" "mi_matches 0x0a010203 route_16" "256 \<le> mi_route_prefix route_8" "256 \<le> mi_route_prefix route_16"
  "mi_interface_num route_8 = 0" "mi_interface_num route_16 = 1" "mi_next_hop route_8 = None" "mi_next_hop route_16 = Some (ad_v4 0x0a010001 0)"
  "mi_prefix_length route_8 < mi_prefix_length route_16"
  by (code_simp, code_simp, simp_all add: route_8_def route_16_def)

theorem router_forwarding_witness:
  "rt_route_one_datagram (dg_demo 64) (rt_demo [route_8, route_16]) = rt_send 1 (dg_demo 63) (ad_v4 0x0a010001 0) (rt_demo [route_8, route_16])"
proof -
  have "rt_map_vec (rt_demo [route_8, route_16]) = [route_8, route_16]" by (simp add: rt_demo_def)
  moreover have "ih_ttl (ip_header (dg_demo 64)) = 64" "ih_dst (ip_header (dg_demo 64)) = 0x0a010203"
    "(dg_demo 64)\<lparr>ip_header := (ip_header (dg_demo 64))\<lparr>ih_ttl := 63\<rparr>\<rparr> = dg_demo 63" by (simp_all add: dg_demo_def)
  moreover have "\<not> (64 :: u8) \<le> 1" by (simp add: word_le_nat_alt)
  ultimately show ?thesis using router_forwarding [of "rt_demo [route_8, route_16]" "dg_demo 64"] route_demo_facts by (simp add: Let_def)
qed



text \<open>
  C33. Routing ends and leaves nothing behind: with IPv4 addresses everywhere, routes to interfaces that exist and datagrams that can be
  serialized, \<open>route\<close> returns without exception, and every queue of received datagrams is empty.
\<close>

theorem router_route_drains:
  assumes "rt_ok rt"
  shows "\<exists>rt'. rt_route rt = Inr rt' \<and> rt_ok rt' \<and> length (rt_interfaces rt') = length (rt_interfaces rt) \<and>
    (\<forall>an \<in> set (rt_interfaces rt'). an_datagrams_out an = [])"
proof -
  let ?n = "length (rt_interfaces rt)"
  obtain rt' where rt': "rt_route_loop [0..<?n] rt = Inr rt'" "rt_ok rt'"
    "rt_queues rt' = map (\<lambda>i. if i \<in> set [0..<?n] then [] else rt_queues rt ! i) [0..<length (rt_queues rt)]"
    using rt_route_loop_ok [OF assms, of "[0..<?n]"] by auto
  then have "rt_queues rt' = map (\<lambda>i. []) [0..<?n]" by (simp add: rt_queues_def)
  then have "rt_queues rt' = replicate ?n []" by (simp add: map_replicate_const)
  then have "length (rt_interfaces rt') = ?n" "\<forall>q \<in> set (map an_datagrams_out (rt_interfaces rt')). q = []"
    unfolding rt_queues_def by (metis length_map length_replicate, simp)
  then show ?thesis using rt'(1,2) by (auto simp: rt_route_def)
qed

theorem router_route_drains_witness:
  "\<exists>rt' x y. rt_route (rt_demo [route_8, route_16]) = Inr rt' \<and> rt_interfaces rt' = [x, y] \<and> an_datagrams_out x = [] \<and> an_datagrams_out y = []"
proof -
  have "ad_is_v4 (ad_v4 ip p)" for ip p by (auto simp: ad_is_v4_def)
  then have "rt_ok (rt_demo [route_8, route_16])"
    by (simp add: rt_ok_def rt_demo_def an_ok_def an_of_def ni_demo_def dg_ok_def ih_ok_def dg_demo_def ih_default_def IPv4Header_LENGTH_def route_8_def route_16_def hop_ok_def)
  then obtain rt' where rt': "rt_route (rt_demo [route_8, route_16]) = Inr rt'" "length (rt_interfaces rt') = 2" "\<forall>an \<in> set (rt_interfaces rt'). an_datagrams_out an = []"
    using router_route_drains [of "rt_demo [route_8, route_16]"] by (auto simp: rt_demo_def)
  then obtain x y where "rt_interfaces rt' = [x, y]" by (auto simp: numeral_2_eq_2 length_Suc_conv)
  then show ?thesis using rt' by auto
qed

end
