(* ===== verification/Tcp_Codec.thy ===== *)
theory Tcp_Codec
  imports Tcp_Segment Codec_Lib
begin

text \<open>
  Models \<^verbatim>\<open>libsponge/tcp_helpers/tcp_header.cc\<close> and the parsing and serializing of \<^verbatim>\<open>tcp_segment.cc\<close>. A parser that is a
  method and fills in fields returns the new object beside its result. The payload of a segment is the
  string its buffer shows.
\<close>

unbundle bit_operations_syntax

section \<open>Header\<close>

definition flag_bit :: "u8 \<Rightarrow> u8 \<Rightarrow> bool" where
  "flag_bit b m \<longleftrightarrow> b AND m \<noteq> 0"

definition th_parse :: "NetParser \<Rightarrow> (NetParser \<times> TCPHeader \<times> ParseResult) res" where
  "th_parse p0 =
     bindE (np_u16 p0) (\<lambda>(p1, sport).
     bindE (np_u16 p1) (\<lambda>(p2, dport).
     bindE (np_u32 p2) (\<lambda>(p3, seqno).
     bindE (np_u32 p3) (\<lambda>(p4, ackno).
     bindE (np_u8 p4) (\<lambda>(p5, off).
     bindE (np_u8 p5) (\<lambda>(p6, fl_b).
     bindE (np_u16 p6) (\<lambda>(p7, win).
     bindE (np_u16 p7) (\<lambda>(p8, cksum).
     bindE (np_u16 p8) (\<lambda>(p9, uptr).
       let doff = drop_bit 4 off;
           h = \<lparr>th_sport = sport, th_dport = dport, th_seqno = WrappingInt32 seqno, th_ackno = WrappingInt32 ackno, th_doff = doff,
                th_urg = flag_bit fl_b 0x20, th_ack = flag_bit fl_b 0x10, th_psh = flag_bit fl_b 0x08,
                th_rst = flag_bit fl_b 0x04, th_syn = flag_bit fl_b 0x02, th_fin = flag_bit fl_b 0x01,
                th_win = win, th_cksum = cksum, th_uptr = uptr\<rparr>
       in if doff < 5 then Inr (p9, h, HeaderTooShort)
          else bindE (np_remove_prefix (unat doff * 4 - TCPHeader_LENGTH) p9) (\<lambda>p10.
               Inr (p10, h, if np_has_error p10 then np_error p10 else NoError)))))))))))"

definition th_flags :: "TCPHeader \<Rightarrow> u8" where
  "th_flags h =
     (if th_urg h then 0x20 else 0) OR (if th_ack h then 0x10 else 0) OR (if th_psh h then 0x08 else 0) OR
     (if th_rst h then 0x04 else 0) OR (if th_syn h then 0x02 else 0) OR (if th_fin h then 0x01 else 0)"

definition th_serialize :: "TCPHeader \<Rightarrow> bytes res" where
  "th_serialize h =
     (if th_doff h < 5 then Inl RuntimeError
      else let ret = up_u16 [] (th_sport h);
               ret = up_u16 ret (th_dport h);
               ret = up_u32 ret (raw_value (th_seqno h));
               ret = up_u32 ret (raw_value (th_ackno h));
               ret = up_u8 ret (push_bit 4 (th_doff h));
               ret = up_u8 ret (th_flags h);
               ret = up_u16 ret (th_win h);
               ret = up_u16 ret (th_cksum h);
               ret = up_u16 ret (th_uptr h)
           in Inr (resize (4 * unat (th_doff h)) ret))"

definition th_to_string :: "TCPHeader \<Rightarrow> string" where
  "th_to_string h =
     ''TCP source port: '' @ show_hex (unat (th_sport h)) @ newline @
     ''TCP dest port: '' @ show_hex (unat (th_dport h)) @ newline @
     ''TCP seqno: '' @ show_hex (unat (raw_value (th_seqno h))) @ newline @
     ''TCP ackno: '' @ show_hex (unat (raw_value (th_ackno h))) @ newline @
     ''TCP doff: '' @ show_hex (unat (th_doff h)) @ newline @
     ''Flags: urg: '' @ show_boolalpha (th_urg h) @ '' ack: '' @ show_boolalpha (th_ack h) @
     '' psh: '' @ show_boolalpha (th_psh h) @ '' rst: '' @ show_boolalpha (th_rst h) @
     '' syn: '' @ show_boolalpha (th_syn h) @ '' fin: '' @ show_boolalpha (th_fin h) @ newline @
     ''TCP winsize: '' @ show_hex (unat (th_win h)) @ newline @
     ''TCP cksum: '' @ show_hex (unat (th_cksum h)) @ newline @
     ''TCP uptr: '' @ show_hex (unat (th_uptr h)) @ newline"

definition th_summary :: "TCPHeader \<Rightarrow> string" where
  "th_summary h =
     ''Header(flags='' @ (if th_syn h then ''S'' else []) @ (if th_ack h then ''A'' else []) @
     (if th_rst h then ''R'' else []) @ (if th_fin h then ''F'' else []) @
     '',seqno='' @ show_dec (unat (raw_value (th_seqno h))) @ '',ack='' @ show_dec (unat (raw_value (th_ackno h))) @
     '',win='' @ show_dec (unat (th_win h)) @ '')''"

definition th_eq :: "TCPHeader \<Rightarrow> TCPHeader \<Rightarrow> bool" where
  "th_eq h other \<longleftrightarrow>
     wi_eq (th_seqno h) (th_seqno other) \<and> wi_eq (th_ackno h) (th_ackno other) \<and> th_doff h = th_doff other \<and>
     th_urg h = th_urg other \<and> th_ack h = th_ack other \<and> th_psh h = th_psh other \<and> th_rst h = th_rst other \<and>
     th_syn h = th_syn other \<and> th_fin h = th_fin other \<and> th_win h = th_win other \<and> th_uptr h = th_uptr other"

section \<open>Segment\<close>

definition ts_parse :: "Buffer \<Rightarrow> u32 \<Rightarrow> TCPSegment \<Rightarrow> (TCPSegment \<times> ParseResult) res" where
  "ts_parse buffer datagram_layer_checksum seg =
     (if ck_value (ck_add (bf_str buffer) (ck_new datagram_layer_checksum)) \<noteq> 0 then Inr (seg, BadChecksum)
      else bindE (th_parse (np_new buffer)) (\<lambda>(p, header, _).
           Inr (\<lparr>ts_header = header, ts_payload = bf_str (np_buffer p)\<rparr>, np_error p)))"

definition ts_serialize :: "u32 \<Rightarrow> TCPSegment \<Rightarrow> BufferList res" where
  "ts_serialize datagram_layer_checksum seg =
     (let header_out = (ts_header seg)\<lparr>th_cksum := 0\<rparr>
      in bindE (th_serialize header_out) (\<lambda>s.
         let check = ck_add (ts_payload seg) (ck_add s (ck_new datagram_layer_checksum));
             header_out = header_out\<lparr>th_cksum := ck_value check\<rparr>
         in bindE (th_serialize header_out) (\<lambda>s'.
            Inr (bl_append (bl_of_buffer (bf_new (ts_payload seg))) (bl_append (bl_of_string s') [])))))"

section \<open>The header on the wire\<close>

definition th_ok :: "TCPHeader \<Rightarrow> bool" where
  "th_ok h \<longleftrightarrow> 5 \<le> th_doff h \<and> th_doff h < 16"

text \<open>The bytes before the checksum, after it, and the padding.\<close>

definition th_front :: "TCPHeader \<Rightarrow> bytes" where
  "th_front h = be_bytes 2 (th_sport h) @ be_bytes 2 (th_dport h) @ be_bytes 4 (raw_value (th_seqno h)) @
     be_bytes 4 (raw_value (th_ackno h)) @ be_bytes 1 (push_bit 4 (th_doff h)) @ be_bytes 1 (th_flags h) @ be_bytes 2 (th_win h)"

definition th_back :: "TCPHeader \<Rightarrow> bytes" where
  "th_back h = be_bytes 2 (th_uptr h) @ replicate (4 * unat (th_doff h) - 20) 0"

lemma length_th_front [simp]: "length (th_front h) = 16"
  by (simp add: th_front_def)

lemma th_serialize_eq:
  assumes "5 \<le> th_doff h"
  shows "th_serialize h = Inr (th_front h @ be_bytes 2 (th_cksum h) @ th_back h)"
proof -
  have "5 \<le> unat (th_doff h)" using assms by (simp add: word_le_nat_alt)
  then show ?thesis using assms by (simp add: th_serialize_def Let_def up_eqs resize_def th_front_def th_back_def not_less)
qed

lemma th_serialize_short: "th_doff h < 5 \<Longrightarrow> th_serialize h = Inl RuntimeError"
  by (simp add: th_serialize_def)

lemma flag_bits:
  "flag_bit (th_flags h) 0x20 = th_urg h" "flag_bit (th_flags h) 0x10 = th_ack h" "flag_bit (th_flags h) 0x08 = th_psh h"
  "flag_bit (th_flags h) 0x04 = th_rst h" "flag_bit (th_flags h) 0x02 = th_syn h" "flag_bit (th_flags h) 0x01 = th_fin h"
  by (simp_all add: flag_bit_def th_flags_def)

lemma nibble_high: "d < 16 \<Longrightarrow> drop_bit 4 (push_bit 4 (d :: u8)) = d"
proof -
  assume "d < 16"
  then have "unat d < 16" by (simp add: word_less_nat_alt)
  have "drop_bit 4 (push_bit 4 d) = take_bit 4 d" by (rule bit_word_eqI) (auto simp: bit_simps)
  moreover have "take_bit 4 d = d" using \<open>unat d < 16\<close> by (intro unat_eqI) (simp add: unsigned_take_bit_eq take_bit_nat_eq_self)
  ultimately show ?thesis by simp
qed

lemma th_parse_serialized:
  assumes ok: "th_ok h" and p: "np_ready p (th_front h @ be_bytes 2 (th_cksum h) @ th_back h @ rest)"
  shows "\<exists>p'. th_parse p = Inr (p', h, NoError) \<and> np_ready p' rest"
proof -
  let ?pad = "replicate (4 * unat (th_doff h) - 20) 0 @ rest"
  let ?t9 = "be_bytes 2 (th_uptr h) @ ?pad" let ?t8 = "be_bytes 2 (th_cksum h) @ ?t9" let ?t7 = "be_bytes 2 (th_win h) @ ?t8"
  let ?t6 = "be_bytes 1 (th_flags h) @ ?t7" let ?t5 = "be_bytes 1 (push_bit 4 (th_doff h)) @ ?t6"
  let ?t4 = "be_bytes 4 (raw_value (th_ackno h)) @ ?t5" let ?t3 = "be_bytes 4 (raw_value (th_seqno h)) @ ?t4" let ?t2 = "be_bytes 2 (th_dport h) @ ?t3"
  have "np_ready p (be_bytes 2 (th_sport h) @ ?t2)" using p by (simp add: th_front_def th_back_def)
  from u16.dec_enc [OF TrueI this] obtain p1 where 1: "np_u16 p = Inr (p1, th_sport h)" "np_ready p1 ?t2" by blast
  from u16.dec_enc [OF TrueI 1(2)] obtain p2 where 2: "np_u16 p1 = Inr (p2, th_dport h)" "np_ready p2 ?t3" by blast
  from u32.dec_enc [OF TrueI 2(2)] obtain p3 where 3: "np_u32 p2 = Inr (p3, raw_value (th_seqno h))" "np_ready p3 ?t4" by blast
  from u32.dec_enc [OF TrueI 3(2)] obtain p4 where 4: "np_u32 p3 = Inr (p4, raw_value (th_ackno h))" "np_ready p4 ?t5" by blast
  from u8.dec_enc [OF TrueI 4(2)] obtain p5 where 5: "np_u8 p4 = Inr (p5, push_bit 4 (th_doff h))" "np_ready p5 ?t6" by blast
  from u8.dec_enc [OF TrueI 5(2)] obtain p6 where 6: "np_u8 p5 = Inr (p6, th_flags h)" "np_ready p6 ?t7" by blast
  from u16.dec_enc [OF TrueI 6(2)] obtain p7 where 7: "np_u16 p6 = Inr (p7, th_win h)" "np_ready p7 ?t8" by blast
  from u16.dec_enc [OF TrueI 7(2)] obtain p8 where 8: "np_u16 p7 = Inr (p8, th_cksum h)" "np_ready p8 ?t9" by blast
  from u16.dec_enc [OF TrueI 8(2)] obtain p9 where 9: "np_u16 p8 = Inr (p9, th_uptr h)" "np_ready p9 ?pad" by blast
  have doff: "drop_bit 4 (push_bit 4 (th_doff h)) = th_doff h" "\<not> th_doff h < 5" using ok nibble_high by (auto simp: th_ok_def)
  obtain p10 where 10: "np_remove_prefix (unat (th_doff h) * 4 - TCPHeader_LENGTH) p9 = Inr p10" "np_ready p10 rest"
    using np_remove_prefix_cases [of p9 "unat (th_doff h) * 4 - TCPHeader_LENGTH"] 9(2)
    by (auto simp: np_ready_def TCPHeader_LENGTH_def mult.commute)
  have "WrappingInt32 (raw_value x) = x" for x by (cases x) simp
  then have "th_parse p = Inr (p10, h, NoError)"
    using 10(2) by (simp add: th_parse_def 1 2 3 4 5 6 7 8 9 10 Let_def doff flag_bits np_ready_def np_has_error_def)
  then show ?thesis using 10(2) by blast
qed

text \<open>The parser on arbitrary input.\<close>

lemma th_parse_any:
  assumes "np_wf p"
  obtains p' h r where "th_parse p = Inr (p', h, r)" and "np_wf p'"
    and "r = NoError \<Longrightarrow> np_error p' = NoError \<and> th_ok h"
    and "np_error p' = NoError \<longleftrightarrow>
      np_error p = NoError \<and> 20 \<le> length (np_str p) \<and> (5 \<le> th_doff h \<longrightarrow> 4 * unat (th_doff h) \<le> length (np_str p))"
    and "np_error p' = NoError \<Longrightarrow> np_str p' = drop (if 5 \<le> th_doff h then 4 * unat (th_doff h) else 20) (np_str p)"
    and "th_doff h < 5 \<Longrightarrow> r = HeaderTooShort" and "5 \<le> th_doff h \<Longrightarrow> r = np_error p'"
    and "np_error p = NoError \<Longrightarrow> 20 \<le> length (np_str p) \<Longrightarrow> th_doff h = drop_bit 4 (np_str p ! 12)"
proof -
  obtain p1 sp where 1: "np_u16 p = Inr (p1, sp)" "np_reads 2 p p1" using u16.dec_any [OF assms] by blast
  obtain p2 dp where 2: "np_u16 p1 = Inr (p2, dp)" "np_reads 2 p1 p2" using u16.dec_any [OF np_reads_wf [OF 1(2)]] by blast
  obtain p3 sq where 3: "np_u32 p2 = Inr (p3, sq)" "np_reads 4 p2 p3" using u32.dec_any [OF np_reads_wf [OF 2(2)]] by blast
  obtain p4 ak where 4: "np_u32 p3 = Inr (p4, ak)" "np_reads 4 p3 p4" using u32.dec_any [OF np_reads_wf [OF 3(2)]] by blast
  obtain p5 off where 5: "np_u8 p4 = Inr (p5, off)" "np_reads 1 p4 p5" using u8.dec_any [OF np_reads_wf [OF 4(2)]] by blast
  obtain p6 fl where 6: "np_u8 p5 = Inr (p6, fl)" "np_reads 1 p5 p6" using u8.dec_any [OF np_reads_wf [OF 5(2)]] by blast
  obtain p7 wn where 7: "np_u16 p6 = Inr (p7, wn)" "np_reads 2 p6 p7" using u16.dec_any [OF np_reads_wf [OF 6(2)]] by blast
  obtain p8 ck where 8: "np_u16 p7 = Inr (p8, ck)" "np_reads 2 p7 p8" using u16.dec_any [OF np_reads_wf [OF 7(2)]] by blast
  obtain p9 up where 9: "np_u16 p8 = Inr (p9, up)" "np_reads 2 p8 p9" using u16.dec_any [OF np_reads_wf [OF 8(2)]] by blast
  have r9: "np_reads 20 p p9"
    using np_reads_trans [OF 1(2) np_reads_trans [OF 2(2) np_reads_trans [OF 3(2) np_reads_trans [OF 4(2) np_reads_trans [OF 5(2)
      np_reads_trans [OF 6(2) np_reads_trans [OF 7(2) np_reads_trans [OF 8(2) 9(2)]]]]]]]] by simp
  have r4: "np_reads 12 p p4"
    using np_reads_trans [OF 1(2) np_reads_trans [OF 2(2) np_reads_trans [OF 3(2) 4(2)]]] by simp
  define h where "h = \<lparr>th_sport = sp, th_dport = dp, th_seqno = WrappingInt32 sq, th_ackno = WrappingInt32 ak, th_doff = drop_bit 4 off,
     th_urg = flag_bit fl 0x20, th_ack = flag_bit fl 0x10, th_psh = flag_bit fl 0x08, th_rst = flag_bit fl 0x04,
     th_syn = flag_bit fl 0x02, th_fin = flag_bit fl 0x01, th_win = wn, th_cksum = ck, th_uptr = up\<rparr>"
  have doff: "th_doff h = drop_bit 4 off" by (simp add: h_def)
  have off: "off = np_str p ! 12" if "np_error p = NoError" "20 \<le> length (np_str p)"
    using that np_u8_value [OF np_reads_wf [OF r4] _ 5(1)] r4 r9 by (auto simp: np_reads_def)
  have "unat (drop_bit 4 off) = unat off div 16" by (simp only: unat_drop_bit_eq) (simp add: drop_bit_eq_div)
  then have d16: "unat (th_doff h) < 16" using unat_lt_8 [of off] by (simp add: doff less_mult_imp_div_less)
  have run: "th_parse p = (if th_doff h < 5 then Inr (p9, h, HeaderTooShort)
      else bindE (np_remove_prefix (unat (th_doff h) * 4 - 20) p9) (\<lambda>p10. Inr (p10, h, if np_has_error p10 then np_error p10 else NoError)))"
    by (simp add: th_parse_def 1(1) 2(1) 3(1) 4(1) 5(1) 6(1) 7(1) 8(1) 9(1) Let_def doff TCPHeader_LENGTH_def flip: h_def)
  show thesis
  proof (cases "th_doff h < 5")
    case True
    then have d5: "\<not> 5 \<le> th_doff h" by simp
    show ?thesis by (rule that [of p9 h HeaderTooShort]) (use True d5 run r9 off doff in \<open>simp_all add: np_reads_def\<close>)
  next
    case False
    then have d5: "5 \<le> unat (th_doff h)" "5 \<le> th_doff h" by (simp_all add: word_less_nat_alt word_le_nat_alt)
    obtain p10 where 10: "np_remove_prefix (unat (th_doff h) * 4 - 20) p9 = Inr p10" "np_reads (unat (th_doff h) * 4 - 20) p9 p10"
      using np_remove_prefix_any [OF np_reads_wf [OF r9]] by blast
    have r10: "np_reads (4 * unat (th_doff h)) p p10" using np_reads_trans [OF r9 10(2)] d5 by (simp add: mult.commute)
    have "th_parse p = Inr (p10, h, np_error p10)" using run 10(1) False by (auto simp: np_has_error_def)
    then show ?thesis
      by (rule that) (use r10 d5 d16 False doff off in \<open>auto simp: th_ok_def word_less_nat_alt np_reads_def\<close>)
  qed
qed

section \<open>Properties\<close>

lemma ck_add_append: "ck_add (xs @ ys) c = ck_add ys (ck_add xs c)"
  by (induction xs arbitrary: c) simp_all

lemma ts_roundtrip:
  assumes "5 \<le> th_doff (ts_header seg)" and "th_doff (ts_header seg) < 16" and "length (ts_payload seg) \<le> 65535"
    and "pseudo \<le> 0xfffff"
  shows "\<exists>bl ck. ts_serialize pseudo seg = Inr bl \<and> length (bl_concatenate bl) = 4 * unat (th_doff (ts_header seg)) + length (ts_payload seg) \<and>
    (\<forall>b. bf_wf b \<longrightarrow> bf_str b = bl_concatenate bl \<longrightarrow>
      ts_parse b pseudo seg0 = Inr (seg\<lparr>ts_header := (ts_header seg)\<lparr>th_cksum := ck\<rparr>\<rparr>, NoError))"
proof -
  let ?h = "ts_header seg" 
  let ?a = "th_front ?h" let ?b = "th_back ?h @ ts_payload seg"
  define ck where "ck = ck_value (ck_add (?a @ be_bytes 2 (0 :: u16) @ ?b) (ck_new pseudo))"
  let ?hc = "?h\<lparr>th_cksum := ck\<rparr>" let ?w = "?a @ be_bytes 2 ck @ ?b"
  have parts: "th_front (?h\<lparr>th_cksum := c\<rparr>) = ?a" "th_back (?h\<lparr>th_cksum := c\<rparr>) = th_back ?h" for c
    by (simp_all add: th_front_def th_back_def th_flags_def)
  have ser: "th_serialize (?h\<lparr>th_cksum := c\<rparr>) = Inr (?a @ be_bytes 2 c @ th_back ?h)" for c
    using th_serialize_eq [of "?h\<lparr>th_cksum := c\<rparr>"] assms(1) by (simp add: parts)
  have "ck_value (ck_add (ts_payload seg) (ck_add (?a @ be_bytes 2 (0 :: u16) @ th_back ?h) (ck_new pseudo))) = ck"
    by (simp add: ck_def ck_add_append)
  then have bl: "ts_serialize pseudo seg = Inr [bf_new (?a @ be_bytes 2 ck @ th_back ?h), bf_new (ts_payload seg)]"
    using ser by (simp add: ts_serialize_def Let_def bl_of_buffer_def)
  have d: "unat (th_doff ?h) \<le> 15" using assms(2) by (simp add: word_less_nat_alt)
  then have "length ?b \<le> 65577" using assms(3) by (simp add: th_back_def)
  then have "csum False ?b \<le> 65280 * 65577" using csum_bound [of False ?b] by simp
  moreover have "csum False ?a \<le> 65280 * 16" using csum_bound [of False ?a] by simp
  moreover have "unat pseudo \<le> 1048575" using assms(4) by (simp add: word_le_nat_alt)
  ultimately have ck: "ck_value (ck_add ?w (ck_new pseudo)) = 0"
    unfolding ck_def by (intro ck_verifies) (simp_all del: csum_append)
  have "ts_parse b pseudo seg0 = Inr (\<lparr>ts_header = ?hc, ts_payload = ts_payload seg\<rparr>, NoError)" if b: "bf_wf b" "bf_str b = ?w" for b
  proof -
    have "np_ready (np_new b) (th_front ?hc @ be_bytes 2 (th_cksum ?hc) @ th_back ?hc @ ts_payload seg)"
      using np_ready_new [OF b(1)] b(2) by (simp add: parts)
    then obtain p where "th_parse (np_new b) = Inr (p, ?hc, NoError)" "np_ready p (ts_payload seg)"
      using th_parse_serialized [of ?hc] assms(1,2) by (auto simp: th_ok_def)
    then show ?thesis using ck b(2) by (simp add: ts_parse_def np_ready_def)
  qed
  moreover have "length ?w = 4 * unat (th_doff ?h) + length (ts_payload seg)" using assms(1) by (simp add: th_back_def word_le_nat_alt)
  ultimately show ?thesis using bl
    by (intro exI [of _ "[bf_new (?a @ be_bytes 2 ck @ th_back ?h), bf_new (ts_payload seg)]"] exI [of _ ck]) simp
qed

text \<open>
  C25. The wire format of a segment. A segment whose header length field is between 5 and 15 words and that fits into an IPv4
  datagram is serialized without exception, and parsing the bytes with the same pseudo-header sum returns
  without error the same segment, with the checksum filled in.
\<close>

theorem tcp_segment_roundtrip:
  assumes "5 \<le> th_doff (ts_header seg)" and "th_doff (ts_header seg) < 16" and "length (ts_payload seg) \<le> 65535"
    and "pseudo \<le> 0xfffff"
  shows "\<exists>bl ck. ts_serialize pseudo seg = Inr bl \<and>
    ts_parse (bf_new (bl_concatenate bl)) pseudo seg0 = Inr (seg\<lparr>ts_header := (ts_header seg)\<lparr>th_cksum := ck\<rparr>\<rparr>, NoError)"
proof -
  obtain bl ck where bl: "ts_serialize pseudo seg = Inr bl" and *: "\<forall>b. bf_wf b \<longrightarrow> bf_str b = bl_concatenate bl \<longrightarrow>
      ts_parse b pseudo seg0 = Inr (seg\<lparr>ts_header := (ts_header seg)\<lparr>th_cksum := ck\<rparr>\<rparr>, NoError)"
    using ts_roundtrip [OF assms, of seg0] by (elim exE conjE)
  show ?thesis by (intro exI conjI, rule bl, rule * [rule_format]) simp_all
qed

theorem tcp_segment_roundtrip_witness:
  "\<exists>bl ck. ts_serialize 25 (ts_default\<lparr>ts_payload := [1, 2, 3]\<rparr>) = Inr bl \<and>
     ts_parse (bf_new (bl_concatenate bl)) 25 ts_default =
       Inr (ts_default\<lparr>ts_header := th_default\<lparr>th_cksum := ck\<rparr>, ts_payload := [1, 2, 3]\<rparr>, NoError)"
  using tcp_segment_roundtrip [of "ts_default\<lparr>ts_payload := [1, 2, 3]\<rparr>" 25 ts_default]
  by (simp add: ts_default_def th_default_def TCPHeader_LENGTH_def)

text \<open>
  The header parser on arbitrary bytes: it never throws, whatever the state of the parser; when it reports no error, the header length
  field is between 5 and 15 and the parser stands right behind the header and its options; and it reports
  no error exactly when the bytes hold such a header.
\<close>

theorem tcp_header_parse_type:
  assumes "bf_wf buf"
  shows "\<exists>p h r. th_parse (np_new buf) = Inr (p, h, r) \<and>
    (r = NoError \<longleftrightarrow> 20 \<le> bf_size buf \<and> 5 \<le> th_doff h \<and> 4 * unat (th_doff h) \<le> bf_size buf) \<and>
    (r = NoError \<longrightarrow> th_ok h \<and> bf_str (np_buffer p) = drop (4 * unat (th_doff h)) (bf_str buf))"
proof -
  have wf: "np_wf (np_new buf)" using assms by (simp add: np_wf_def np_new_def)
  obtain p h r where *: "th_parse (np_new buf) = Inr (p, h, r)" "r = NoError \<Longrightarrow> np_error p = NoError \<and> th_ok h"
    "np_error p = NoError \<longleftrightarrow> np_error (np_new buf) = NoError \<and> 20 \<le> length (np_str (np_new buf)) \<and>
       (5 \<le> th_doff h \<longrightarrow> 4 * unat (th_doff h) \<le> length (np_str (np_new buf)))"
    "np_error p = NoError \<Longrightarrow> np_str p = drop (if 5 \<le> th_doff h then 4 * unat (th_doff h) else 20) (np_str (np_new buf))"
    "th_doff h < 5 \<Longrightarrow> r = HeaderTooShort" "5 \<le> th_doff h \<Longrightarrow> r = np_error p"
    by (rule th_parse_any [OF wf]) blast
  have new: "np_error (np_new buf) = NoError" "np_str (np_new buf) = bf_str buf" by (simp_all add: np_new_def)
  have r: "r = NoError \<longleftrightarrow> 20 \<le> bf_size buf \<and> 5 \<le> th_doff h \<and> 4 * unat (th_doff h) \<le> bf_size buf"
    using *(3,5,6) by (cases "5 \<le> th_doff h") (simp_all add: new bf_size_def not_le)
  moreover have "th_ok h \<and> np_str p = drop (4 * unat (th_doff h)) (bf_str buf)" if "r = NoError"
    using *(2,4) that r by (simp add: new)
  ultimately show ?thesis using *(1) by blast
qed

theorem tcp_header_parse_witness:
  "\<exists>p h r. th_parse (np_new (bf_new [])) = Inr (p, h, r) \<and> r \<noteq> NoError"
  using tcp_header_parse_type [of "bf_new []"] by (auto simp: bf_size_def)

text \<open>
  A header length field below the minimum is not noticed by the segment parser: it looks at the parser's error and not
  at the result of the header parser, so that bytes with a correct checksum and such a field give a segment
  without error, whose payload starts after 20 bytes.
\<close>

theorem tcp_segment_short_header_accepted:
  assumes "bf_wf buf" and "20 \<le> bf_size buf" and "ck_value (ck_add (bf_str buf) (ck_new pseudo)) = 0"
    and "drop_bit 4 (bf_str buf ! 12) < 5"
  shows "\<exists>seg'. ts_parse buf pseudo seg = Inr (seg', NoError) \<and> th_doff (ts_header seg') < 5 \<and>
    ts_payload seg' = drop 20 (bf_str buf) \<and> th_serialize (ts_header seg') = Inl RuntimeError"
proof -
  have wf: "np_wf (np_new buf)" using assms by (simp add: np_wf_def np_new_def)
  obtain p h r where *: "th_parse (np_new buf) = Inr (p, h, r)"
    "np_error p = NoError \<longleftrightarrow> np_error (np_new buf) = NoError \<and> 20 \<le> length (np_str (np_new buf)) \<and>
       (5 \<le> th_doff h \<longrightarrow> 4 * unat (th_doff h) \<le> length (np_str (np_new buf)))"
    "np_error p = NoError \<Longrightarrow> np_str p = drop (if 5 \<le> th_doff h then 4 * unat (th_doff h) else 20) (np_str (np_new buf))"
    "np_error (np_new buf) = NoError \<Longrightarrow> 20 \<le> length (np_str (np_new buf)) \<Longrightarrow> th_doff h = drop_bit 4 (np_str (np_new buf) ! 12)"
    by (rule th_parse_any [OF wf]) blast
  have new: "np_error (np_new buf) = NoError" "np_str (np_new buf) = bf_str buf" by (simp_all add: np_new_def)
  have d: "th_doff h < 5" using *(4) assms(2,4) by (simp add: new bf_size_def)
  then have "np_error p = NoError" "np_str p = drop 20 (bf_str buf)" using *(2,3) assms(2) by (auto simp: new bf_size_def not_le [symmetric])
  then show ?thesis using *(1) assms(3) d by (simp add: ts_parse_def th_serialize_short)
qed

definition short_demo :: bytes where
  "short_demo = replicate 16 0 @ [0xff, 0xff, 0, 0]"

theorem tcp_segment_short_header_witness:
  "\<exists>seg'. ts_parse (bf_new short_demo) 0 ts_default = Inr (seg', NoError) \<and> th_doff (ts_header seg') < 5 \<and>
     th_serialize (ts_header seg') = Inl RuntimeError"
proof -
  have "ck_value (ck_add (bf_str (bf_new short_demo)) (ck_new 0)) = 0" by code_simp
  moreover have "20 \<le> bf_size (bf_new short_demo)" "drop_bit 4 (bf_str (bf_new short_demo) ! 12) < 5"
    by (simp_all add: bf_size_def short_demo_def nth_append)
  ultimately show ?thesis using tcp_segment_short_header_accepted [of "bf_new short_demo" 0 ts_default] by auto
qed

end
