(* ===== verification/Tcp_Over_Ip.thy ===== *)
theory Tcp_Over_Ip
  imports Tcp_Codec Ipv4 Net_Address
begin

text \<open>
  Models \<open>FdAdapterConfig\<close> of \<^verbatim>\<open>libsponge/tcp_helpers/tcp_config.hh\<close>, \<open>FdAdapterBase\<close> of \<^verbatim>\<open>fd_adapter.hh\<close> and the two functions of
  \<^verbatim>\<open>tcp_over_ip.cc\<close>, which put a TCP segment into an IPv4 datagram and take it out again. A function that may change the adapter
  returns it.
\<close>

unbundle bit_operations_syntax

section \<open>Adapter state\<close>

record FdAdapterConfig =
  fc_source :: Address
  fc_destination :: Address
  fc_loss_rate_dn :: u16
  fc_loss_rate_up :: u16

definition fc_default :: "libc \<Rightarrow> FdAdapterConfig res" where
  "fc_default lc =
     bindE (ad_of_ip lc ''0'' 0) (\<lambda>source.
     bindE (ad_of_ip lc ''0'' 0) (\<lambda>destination.
       Inr \<lparr>fc_source = source, fc_destination = destination, fc_loss_rate_dn = 0, fc_loss_rate_up = 0\<rparr>))"

record FdAdapterBase =
  fa_cfg :: FdAdapterConfig
  fa_listen :: bool

definition fa_new :: "libc \<Rightarrow> FdAdapterBase res" where
  "fa_new lc = bindE (fc_default lc) (\<lambda>cfg. Inr \<lparr>fa_cfg = cfg, fa_listen = False\<rparr>)"

definition fa_set_listening :: "bool \<Rightarrow> FdAdapterBase \<Rightarrow> FdAdapterBase" where
  "fa_set_listening l a = a\<lparr>fa_listen := l\<rparr>"

definition fa_listening :: "FdAdapterBase \<Rightarrow> bool" where
  "fa_listening a = fa_listen a"

definition fa_config :: "FdAdapterBase \<Rightarrow> FdAdapterConfig" where
  "fa_config a = fa_cfg a"

definition fa_set_config :: "FdAdapterConfig \<Rightarrow> FdAdapterBase \<Rightarrow> FdAdapterBase" where
  "fa_set_config c a = a\<lparr>fa_cfg := c\<rparr>"

definition fa_tick :: "u64 \<Rightarrow> FdAdapterBase \<Rightarrow> FdAdapterBase" where
  "fa_tick ms a = a"

section \<open>Segments in datagrams\<close>

text \<open>The part of \<open>unwrap_tcp_in_ip\<close> that learns the peer from a SYN while listening; nothing is returned when the segment is to be ignored.\<close>

definition ti_learn_peer :: "libc \<Rightarrow> IPv4Datagram \<Rightarrow> TCPSegment \<Rightarrow> FdAdapterBase \<Rightarrow> FdAdapterBase option res" where
  "ti_learn_peer lc d seg a =
     (if fa_listening a
      then if th_syn (ts_header seg) \<and> \<not> th_rst (ts_header seg)
           then bindE (ad_port lc (fc_source (fa_config a))) (\<lambda>port.
                bindE (ad_of_ip lc (lc_inet_ntoa lc (ih_dst (ip_header d))) port) (\<lambda>source.
                bindE (ad_of_ip lc (lc_inet_ntoa lc (ih_src (ip_header d))) (th_sport (ts_header seg))) (\<lambda>destination.
                  Inr (Some (fa_set_listening False
                    (fa_set_config ((fa_config a)\<lparr>fc_source := source, fc_destination := destination\<rparr>) a))))))
           else Inr None
      else Inr (Some a))"

text \<open>Whether a datagram is between the addresses of the connection; a listening adapter does not look.\<close>

definition ti_for_us :: "IPv4Datagram \<Rightarrow> FdAdapterBase \<Rightarrow> bool res" where
  "ti_for_us d a =
     (if fa_listening a then Inr True
      else bindE (ad_ipv4_numeric (fc_source (fa_config a))) (\<lambda>us.
           if ih_dst (ip_header d) \<noteq> us then Inr False
           else bindE (ad_ipv4_numeric (fc_destination (fa_config a))) (\<lambda>peer. Inr (ih_src (ip_header d) = peer))))"

definition unwrap_tcp_in_ip :: "libc \<Rightarrow> IPv4Datagram \<Rightarrow> FdAdapterBase \<Rightarrow> (FdAdapterBase \<times> TCPSegment option) res" where
  "unwrap_tcp_in_ip lc d a =
     bindE (ti_for_us d a) (\<lambda>ours.
       if \<not> ours then Inr (a, None)
       else if ih_proto (ip_header d) \<noteq> PROTO_TCP then Inr (a, None)
       else
         bindE (bl_to_buffer (ip_payload d)) (\<lambda>payload.
         bindE (ts_parse payload (ih_pseudo_cksum (ip_header d)) ts_default) (\<lambda>(seg, result).
           if result \<noteq> NoError then Inr (a, None)
           else
             bindE (ad_port lc (fc_source (fa_config a))) (\<lambda>port.
               if th_dport (ts_header seg) \<noteq> port then Inr (a, None)
               else
                 bindE (ti_learn_peer lc d seg a) (\<lambda>learnt.
                   case learnt of
                     None \<Rightarrow> Inr (a, None)
                   | Some a' \<Rightarrow>
                       bindE (ad_port lc (fc_destination (fa_config a'))) (\<lambda>peer_port.
                         if th_sport (ts_header seg) \<noteq> peer_port then Inr (a', None) else Inr (a', Some seg)))))))"

definition wrap_tcp_in_ip :: "libc \<Rightarrow> TCPSegment \<Rightarrow> FdAdapterBase \<Rightarrow> (TCPSegment \<times> IPv4Datagram) res" where
  "wrap_tcp_in_ip lc seg a =
     bindE (ad_port lc (fc_source (fa_config a))) (\<lambda>sport.
     bindE (ad_port lc (fc_destination (fa_config a))) (\<lambda>dport.
       let seg = seg\<lparr>ts_header := (ts_header seg)\<lparr>th_sport := sport, th_dport := dport\<rparr>\<rparr>
       in bindE (ad_ipv4_numeric (fc_source (fa_config a))) (\<lambda>src.
          bindE (ad_ipv4_numeric (fc_destination (fa_config a))) (\<lambda>dst.
            let h = (ip_header ip_default)\<lparr>ih_src := src, ih_dst := dst\<rparr>;
                h = h\<lparr>ih_len := of_nat (unat (ih_hlen h) * 4 + unat (th_doff (ts_header seg)) * 4 + length (ts_payload seg))\<rparr>
            in bindE (ts_serialize (ih_pseudo_cksum h) seg) (\<lambda>payload.
               Inr (seg, \<lparr>ip_header = h, ip_payload = payload\<rparr>))))))"

section \<open>Lemmas\<close>

text \<open>An adapter between two IPv4 endpoints.\<close>

definition fa_v4 :: "FdAdapterBase \<Rightarrow> u32 \<Rightarrow> u16 \<Rightarrow> u32 \<Rightarrow> u16 \<Rightarrow> bool" where
  "fa_v4 a ip port peer_ip peer_port \<longleftrightarrow> fc_source (fa_cfg a) = ad_v4 ip port \<and> fc_destination (fa_cfg a) = ad_v4 peer_ip peer_port"

lemmas ti_defs = fa_listening_def fa_config_def fa_set_config_def fa_set_listening_def

lemma half_le: "unat (drop_bit 16 (x :: u32)) \<le> 65535" "unat (x AND 0xffff) \<le> 65535"
proof -
  have "unat (drop_bit 16 x) = unat x div 65536" by (simp only: unat_drop_bit_eq) (simp add: drop_bit_eq_div)
  then show "unat (drop_bit 16 x) \<le> 65535" using unat_lt_32 [of x] by (simp add: less_Suc_eq_le [symmetric] div_less_iff_less_mult)
  have "x AND 0xffff \<le> 0xffff" by (rule word_and_le1)
  then show "unat (x AND 0xffff) \<le> 65535" by (simp add: word_le_nat_alt)
qed

lemma unat_add_le: "unat (x :: 'a::len word) \<le> m \<Longrightarrow> unat y \<le> n \<Longrightarrow> unat (x + y) \<le> m + n"
  by (metis add_mono le_trans mod_less_eq_dividend unat_word_ariths(1))

lemma ih_pseudo_cksum_le: "ih_pseudo_cksum h \<le> 0xfffff"
proof -
  have "unat (ih_proto h) \<le> 65535" using unat_lt_8 [of "ih_proto h"] by linarith
  moreover have "unat (ih_payload_length h) \<le> 65535" using unat_lt_16 [of "ih_payload_length h"] by linarith
  ultimately have "unat (ucast (ih_proto h) :: u32) \<le> 65535" "unat (ucast (ih_payload_length h) :: u32) \<le> 65535"
    by (simp_all add: unsigned_ucast_eq take_bit_eq_mod)
  then have "unat (ih_pseudo_cksum h) \<le> 65535 + 65535 + (65535 + 65535) + 65535 + 65535"
    unfolding ih_pseudo_cksum_def Let_def by (intro unat_add_le half_le)
  then show ?thesis by (simp add: word_le_nat_alt)
qed

lemma ih_pseudo_cksum_cong: "ih_pseudo_cksum (h\<lparr>ih_cksum := c\<rparr>) = ih_pseudo_cksum h"
  by (simp add: ih_pseudo_cksum_def ih_payload_length_def)

lemma unat_of_nat_16: "n \<le> 65535 \<Longrightarrow> unat (of_nat n :: u16) = n"
  by (simp add: unat_of_nat take_bit_nat_eq_self)

text \<open>Taking a segment out of a datagram whose payload is known to parse.\<close>

lemma unwrap_parsed:
  assumes lc: "libc_ok lc" and d: "ip_payload d = [b]" "ih_proto (ip_header d) = PROTO_TCP"
    and parsed: "ts_parse b (ih_pseudo_cksum (ip_header d)) ts_default = Inr (seg, NoError)"
    and a: "fa_v4 a ip (th_dport (ts_header seg)) peer peer_port"
  shows "\<not> fa_listen a \<Longrightarrow> ih_dst (ip_header d) = ip \<Longrightarrow> ih_src (ip_header d) = peer \<Longrightarrow> th_sport (ts_header seg) = peer_port \<Longrightarrow>
      unwrap_tcp_in_ip lc d a = Inr (a, Some seg)"
    and "fa_listen a \<Longrightarrow> th_syn (ts_header seg) \<Longrightarrow> \<not> th_rst (ts_header seg) \<Longrightarrow>
      \<exists>a'. unwrap_tcp_in_ip lc d a = Inr (a', Some seg) \<and> \<not> fa_listen a' \<and>
        fa_v4 a' (ih_dst (ip_header d)) (th_dport (ts_header seg)) (ih_src (ip_header d)) (th_sport (ts_header seg))"
  using assms
  by (simp_all add: unwrap_tcp_in_ip_def ti_for_us_def ti_learn_peer_def ti_defs fa_v4_def bl_to_buffer_def ad_port_v4 ad_of_ip_v4)

lemma wrap_v4:
  assumes lc: "libc_ok lc" and a: "fa_v4 a ip port peer peer_port" and seg: "5 \<le> th_doff (ts_header seg)" "th_doff (ts_header seg) < 16"
    "20 + 4 * unat (th_doff (ts_header seg)) + length (ts_payload seg) \<le> 65535"
  obtains d bl d' b ck where "wrap_tcp_in_ip lc seg a = Inr (seg\<lparr>ts_header := (ts_header seg)\<lparr>th_sport := port, th_dport := peer_port\<rparr>\<rparr>, d)"
    and "ip_serialize d = Inr bl" and "ip_parse (bf_new (bl_concatenate bl)) ip_default = Inr (d', NoError)"
    and "ip_payload d' = [b]" and "ih_proto (ip_header d') = PROTO_TCP" and "ih_src (ip_header d') = ip" and "ih_dst (ip_header d') = peer"
    and "ts_parse b (ih_pseudo_cksum (ip_header d')) ts_default =
      Inr (seg\<lparr>ts_header := (ts_header seg)\<lparr>th_sport := port, th_dport := peer_port, th_cksum := ck\<rparr>\<rparr>, NoError)"
proof -
  let ?seg = "seg\<lparr>ts_header := (ts_header seg)\<lparr>th_sport := port, th_dport := peer_port\<rparr>\<rparr>"
  let ?n = "20 + 4 * unat (th_doff (ts_header seg)) + length (ts_payload seg)"
  let ?h = "ih_default\<lparr>ih_src := ip, ih_dst := peer, ih_len := of_nat ?n\<rparr>"
  have hl: "unat (ih_hlen ih_default) * 4 = 20" by (simp add: ih_default_def IPv4Header_LENGTH_def)
  obtain pl ck where pl: "ts_serialize (ih_pseudo_cksum ?h) ?seg = Inr pl"
    "length (bl_concatenate pl) = 4 * unat (th_doff (ts_header ?seg)) + length (ts_payload ?seg)"
    "\<forall>b. bf_wf b \<longrightarrow> bf_str b = bl_concatenate pl \<longrightarrow>
      ts_parse b (ih_pseudo_cksum ?h) ts_default = Inr (?seg\<lparr>ts_header := (ts_header ?seg)\<lparr>th_cksum := ck\<rparr>\<rparr>, NoError)"
    using ts_roundtrip [of ?seg "ih_pseudo_cksum ?h" ts_default] seg ih_pseudo_cksum_le by (auto simp del: bl_concatenate_eq)
  define d where "d = \<lparr>ip_header = ?h, ip_payload = pl\<rparr>"
  have w: "wrap_tcp_in_ip lc seg a = Inr (?seg, d)"
    using lc a pl(1) by (simp add: wrap_tcp_in_ip_def fa_v4_def ti_defs ad_port_v4 ip_default_def hl d_def Let_def mult.commute del: of_nat_add of_nat_mult)
  have "unat (of_nat ?n :: u16) = ?n" using seg(3) by (rule unat_of_nat_16)
  then have "unat (ih_len (ip_header d)) = 4 * unat (ih_hlen (ip_header d)) + bl_size (ip_payload d)"
    using pl(2) hl by (simp add: d_def del: of_nat_add of_nat_mult)
  moreover have "ih_ok (ip_header d)" by (simp add: d_def ih_ok_def ih_default_def IPv4Header_LENGTH_def)
  ultimately obtain bl c where bl: "ip_serialize d = Inr bl" "\<And>b d0 h0. bf_wf b \<Longrightarrow> bf_str b = bl_concatenate bl \<Longrightarrow>
      \<exists>d' p b'. ip_parse b d0 = Inr (d', NoError) \<and> ip_header d' = (ip_header d)\<lparr>ih_cksum := c\<rparr> \<and>
        bl_concatenate (ip_payload d') = bl_concatenate (ip_payload d) \<and> ih_parse h0 (np_new b) = Inr (p, ip_header d', NoError) \<and>
        ip_payload d' = [b'] \<and> bf_wf b'"
    using ip_roundtrip [of d] by metis
  obtain d' b where d': "ip_parse (bf_new (bl_concatenate bl)) ip_default = Inr (d', NoError)" "ip_header d' = (ip_header d)\<lparr>ih_cksum := c\<rparr>"
    "bl_concatenate (ip_payload d') = bl_concatenate (ip_payload d)" "ip_payload d' = [b]" "bf_wf b"
    using bl(2) [of "bf_new (bl_concatenate bl)" ip_default ih_default] by (auto simp del: bl_concatenate_eq)
  have "ts_parse b (ih_pseudo_cksum (ip_header d')) ts_default = Inr (?seg\<lparr>ts_header := (ts_header ?seg)\<lparr>th_cksum := ck\<rparr>\<rparr>, NoError)"
    using pl(3) d'(2-5) by (simp add: ih_pseudo_cksum_cong d_def)
  then show thesis
    by (intro that [OF w bl(1) d'(1,4), of ck]) (simp_all add: d'(2) d_def ih_default_def)
qed

section \<open>Properties\<close>

text \<open>
  C34. From segment to wire and back. An adapter between two IPv4 endpoints puts a segment of at most 65535 bytes with its IP header into a
  datagram; when the serialized datagram is parsed at the other end, the adapter there, connected to the first one or
  listening on the port while the segment is a SYN without RST, takes out the same segment, with the ports and the
  checksum filled in, and is then connected to the first endpoint.
\<close>

theorem tcp_over_ip_roundtrip:
  assumes "libc_ok lc" and "fa_v4 a ip port peer peer_port"
    and "5 \<le> th_doff (ts_header seg)" and "th_doff (ts_header seg) < 16" and "20 + 4 * unat (th_doff (ts_header seg)) + length (ts_payload seg) \<le> 65535"
    and "if fa_listen b then fa_v4 b ip0 peer_port ip1 port1 \<and> th_syn (ts_header seg) \<and> \<not> th_rst (ts_header seg) else fa_v4 b peer peer_port ip port"
  shows "\<exists>seg' d bl d' b' ck. wrap_tcp_in_ip lc seg a = Inr (seg', d) \<and> ip_serialize d = Inr bl \<and>
    ip_parse (bf_new (bl_concatenate bl)) ip_default = Inr (d', NoError) \<and>
    unwrap_tcp_in_ip lc d' b = Inr (b', Some (seg\<lparr>ts_header := (ts_header seg)\<lparr>th_sport := port, th_dport := peer_port, th_cksum := ck\<rparr>\<rparr>)) \<and>
    \<not> fa_listen b' \<and> fa_v4 b' peer peer_port ip port"
proof -
  obtain d bl d' bf ck where w: "wrap_tcp_in_ip lc seg a = Inr (seg\<lparr>ts_header := (ts_header seg)\<lparr>th_sport := port, th_dport := peer_port\<rparr>\<rparr>, d)"
    "ip_serialize d = Inr bl" "ip_parse (bf_new (bl_concatenate bl)) ip_default = Inr (d', NoError)"
    "ip_payload d' = [bf]" "ih_proto (ip_header d') = PROTO_TCP" "ih_src (ip_header d') = ip" "ih_dst (ip_header d') = peer"
    and p: "ts_parse bf (ih_pseudo_cksum (ip_header d')) ts_default =
      Inr (seg\<lparr>ts_header := (ts_header seg)\<lparr>th_sport := port, th_dport := peer_port, th_cksum := ck\<rparr>\<rparr>, NoError)"
    using wrap_v4 [OF assms(1-5)] by blast
  have "\<exists>b'. unwrap_tcp_in_ip lc d' b = Inr (b', Some (seg\<lparr>ts_header := (ts_header seg)\<lparr>th_sport := port, th_dport := peer_port, th_cksum := ck\<rparr>\<rparr>)) \<and>
    \<not> fa_listen b' \<and> fa_v4 b' peer peer_port ip port"
  proof (cases "fa_listen b")
    case True
    then show ?thesis using unwrap_parsed(2) [OF assms(1) w(4,5) p, of b ip0 ip1 port1] assms(6) w(6,7) by simp
  next
    case False
    then show ?thesis using unwrap_parsed(1) [OF assms(1) w(4,5) p, of b peer ip port] assms(6) w(6,7) by simp
  qed
  then show ?thesis using w(1-3) by blast
qed

text \<open>Two endpoints and a SYN between them.\<close>

definition client_demo :: FdAdapterBase where
  "client_demo = \<lparr>fa_cfg = \<lparr>fc_source = ad_v4 0x0a000001 5000, fc_destination = ad_v4 0x0a000002 80, fc_loss_rate_dn = 0, fc_loss_rate_up = 0\<rparr>, fa_listen = False\<rparr>"

definition server_demo :: FdAdapterBase where
  "server_demo = \<lparr>fa_cfg = \<lparr>fc_source = ad_v4 0 80, fc_destination = ad_v4 0 0, fc_loss_rate_dn = 0, fc_loss_rate_up = 0\<rparr>, fa_listen = True\<rparr>"

definition syn_demo :: TCPSegment where
  "syn_demo = \<lparr>ts_header = th_default\<lparr>th_syn := True\<rparr>, ts_payload = []\<rparr>"

lemma demo_facts:
  "fa_v4 client_demo 0x0a000001 5000 0x0a000002 80" "fa_v4 server_demo 0 80 0 0" "fa_listen server_demo" "5 \<le> th_doff (ts_header syn_demo)"
  "th_doff (ts_header syn_demo) < 16" "20 + 4 * unat (th_doff (ts_header syn_demo)) + length (ts_payload syn_demo) \<le> 65535"
  "th_syn (ts_header syn_demo)" "\<not> th_rst (ts_header syn_demo)"
  by (simp_all add: fa_v4_def client_demo_def server_demo_def syn_demo_def th_default_def TCPHeader_LENGTH_def)

theorem tcp_over_ip_roundtrip_witness:
  "\<exists>seg' d bl d' b' ck. wrap_tcp_in_ip libc_demo syn_demo client_demo = Inr (seg', d) \<and> ip_serialize d = Inr bl \<and>
    ip_parse (bf_new (bl_concatenate bl)) ip_default = Inr (d', NoError) \<and>
    unwrap_tcp_in_ip libc_demo d' server_demo =
      Inr (b', Some (syn_demo\<lparr>ts_header := (ts_header syn_demo)\<lparr>th_sport := 5000, th_dport := 80, th_cksum := ck\<rparr>\<rparr>)) \<and>
    \<not> fa_listen b' \<and> fa_v4 b' 0x0a000002 80 0x0a000001 5000"
  using tcp_over_ip_roundtrip [OF libc_demo_ok demo_facts(1,4-6), of server_demo 0 0 0] demo_facts(2,3,7,8) by simp

text \<open>
  C35. What an adapter lets through. A segment is returned only from a TCP datagram to its own port; a connected adapter is not changed and the
  datagram is from the peer's address and port to its own address; a listening adapter returns only a SYN
  without RST and is then connected to exactly the sender of it. When nothing is returned the adapter is as it was.
\<close>

theorem tcp_over_ip_filter:
  assumes "libc_ok lc" and "fa_v4 a ip port peer peer_port" and "unwrap_tcp_in_ip lc d a = Inr (a', r)"
  shows "case r of None \<Rightarrow> a' = a
    | Some seg \<Rightarrow> ih_proto (ip_header d) = PROTO_TCP \<and> th_dport (ts_header seg) = port \<and> \<not> fa_listen a' \<and>
        fa_v4 a' (ih_dst (ip_header d)) port (ih_src (ip_header d)) (th_sport (ts_header seg)) \<and>
        (if fa_listen a then th_syn (ts_header seg) \<and> \<not> th_rst (ts_header seg)
         else a' = a \<and> ih_dst (ip_header d) = ip \<and> ih_src (ip_header d) = peer \<and> th_sport (ts_header seg) = peer_port)"
proof (cases "fa_listen a")
  case True
  then show ?thesis using assms
    by (auto simp: unwrap_tcp_in_ip_def ti_for_us_def ti_learn_peer_def ti_defs fa_v4_def ad_port_v4 ad_of_ip_v4 bindE_Inr_iff split: if_splits)
next
  case False
  then show ?thesis using assms
    by (auto simp: unwrap_tcp_in_ip_def ti_for_us_def ti_learn_peer_def ti_defs fa_v4_def ad_port_v4 bindE_Inr_iff split: if_splits)
qed

theorem tcp_over_ip_filter_witness:
  "\<exists>d a' seg. unwrap_tcp_in_ip libc_demo d server_demo = Inr (a', Some seg) \<and> th_syn (ts_header seg) \<and>
     fa_v4 a' (ih_dst (ip_header d)) 80 (ih_src (ip_header d)) (th_sport (ts_header seg))"
proof -
  obtain d' :: IPv4Datagram and bf ck where w: "ip_payload d' = [bf]" "ih_proto (ip_header d') = PROTO_TCP" and p: "ts_parse bf (ih_pseudo_cksum (ip_header d')) ts_default =
      Inr (syn_demo\<lparr>ts_header := (ts_header syn_demo)\<lparr>th_sport := 5000, th_dport := 80, th_cksum := ck\<rparr>\<rparr>, NoError)"
    by (rule wrap_v4 [OF libc_demo_ok demo_facts(1,4-6)])
  then obtain a' seg where u: "unwrap_tcp_in_ip libc_demo d' server_demo = Inr (a', Some seg)"
    using unwrap_parsed(2) [OF libc_demo_ok w p, of server_demo 0 0 0] demo_facts by auto
  show ?thesis using tcp_over_ip_filter [OF libc_demo_ok demo_facts(2) u] u demo_facts(3) by auto
qed

end
