(* ===== verification/File_Descriptor.thy ===== *)
theory File_Descriptor
  imports Buffers Net_Address
begin

text \<open>
  Models \<open>SystemCall\<close> of \<^verbatim>\<open>libsponge/util/util.cc\<close>, \<^verbatim>\<open>file_descriptor.hh\<close> and \<^verbatim>\<open>file_descriptor.cc\<close>. The operating system is a state of an
  arbitrary type \<open>'w\<close>, and its system calls are the fields of a record \<open>kernel\<close> that the definitions take as an argument: a call changes the state and
  gives a return value and, where the code reads them, the bytes it has filled in. An \<open>FDWrapper\<close> is shared by all handles on it; the operations
  here are on the wrapper, and return it with the new state of the system.
\<close>

unbundle bit_operations_syntax

section \<open>System calls\<close>

record 'w kernel =
  k_errno :: "'w \<Rightarrow> int"
  k_read :: "int \<Rightarrow> nat \<Rightarrow> 'w \<Rightarrow> 'w \<times> int \<times> bytes"
  k_writev :: "int \<Rightarrow> (bytes \<times> nat) list \<Rightarrow> 'w \<Rightarrow> 'w \<times> int"
  k_close :: "int \<Rightarrow> 'w \<Rightarrow> 'w \<times> int"
  k_getfl :: "int \<Rightarrow> 'w \<Rightarrow> 'w \<times> int"
  k_setfl :: "int \<Rightarrow> int \<Rightarrow> 'w \<Rightarrow> 'w \<times> int"
  k_socket :: "int \<Rightarrow> int \<Rightarrow> 'w \<Rightarrow> 'w \<times> int"
  k_getsockopt :: "int \<Rightarrow> int \<Rightarrow> 'w \<Rightarrow> 'w \<times> int \<times> int \<times> nat"
  k_setsockopt :: "int \<Rightarrow> int \<Rightarrow> int \<Rightarrow> int \<Rightarrow> 'w \<Rightarrow> 'w \<times> int"
  k_getsockname :: "int \<Rightarrow> 'w \<Rightarrow> 'w \<times> int \<times> bytes \<times> nat"
  k_getpeername :: "int \<Rightarrow> 'w \<Rightarrow> 'w \<times> int \<times> bytes \<times> nat"
  k_bind :: "int \<Rightarrow> bytes \<Rightarrow> nat \<Rightarrow> 'w \<Rightarrow> 'w \<times> int"
  k_connect :: "int \<Rightarrow> bytes \<Rightarrow> nat \<Rightarrow> 'w \<Rightarrow> 'w \<times> int"
  k_shutdown :: "int \<Rightarrow> int \<Rightarrow> 'w \<Rightarrow> 'w \<times> int"
  k_recvfrom :: "int \<Rightarrow> nat \<Rightarrow> 'w \<Rightarrow> 'w \<times> int \<times> bytes \<times> bytes \<times> nat"
  k_sendmsg :: "int \<Rightarrow> (bytes \<times> nat) option \<Rightarrow> (bytes \<times> nat) list \<Rightarrow> 'w \<Rightarrow> 'w \<times> int"
  k_listen :: "int \<Rightarrow> int \<Rightarrow> 'w \<Rightarrow> 'w \<times> int"
  k_accept :: "int \<Rightarrow> 'w \<Rightarrow> 'w \<times> int"
  k_socketpair :: "int \<Rightarrow> int \<Rightarrow> 'w \<Rightarrow> 'w \<times> int \<times> int \<times> int"
  k_open :: "string \<Rightarrow> int \<Rightarrow> 'w \<Rightarrow> 'w \<times> int"
  k_tunsetiff :: "int \<Rightarrow> u16 \<Rightarrow> bytes \<Rightarrow> 'w \<Rightarrow> 'w \<times> int"
  k_poll :: "(int \<times> u16) list \<Rightarrow> int \<Rightarrow> 'w \<Rightarrow> 'w \<times> int \<times> u16 list"
  k_clock :: "'w \<Rightarrow> 'w \<times> int"
  k_random :: "'w \<Rightarrow> 'w \<times> u32"

text \<open>The conversion of a 64-bit return value to \<open>int\<close>.\<close>

definition to_int32 :: "int \<Rightarrow> int" where
  "to_int32 x = (x + 2 ^ 31) mod 2 ^ 32 - 2 ^ 31"

definition SystemCall :: "'w kernel \<Rightarrow> 'w \<Rightarrow> int \<Rightarrow> int \<Rightarrow> int res" where
  "SystemCall k w return_value errno_mask =
     (if to_int32 return_value \<ge> 0 \<or> k_errno k w = errno_mask then Inr (to_int32 return_value) else Inl RuntimeError)"

text \<open>
  The steady clock is read in nanoseconds. The static variable \<open>program_start\<close> is set when \<open>timestamp_ms\<close> is first called; the conversion to milliseconds
  cuts towards zero.
\<close>

definition timestamp_ms :: "'w kernel \<Rightarrow> int option \<Rightarrow> 'w \<Rightarrow> 'w \<times> int option \<times> u64" where
  "timestamp_ms k program_start w =
     (let (w, start) = (case program_start of None \<Rightarrow> k_clock k w | Some t \<Rightarrow> (w, t));
          (w, now) = k_clock k w;
          d = now - start
      in (w, Some start, of_int (if d < 0 then - (- d div 1000000) else d div 1000000)))"

text \<open>Bytes filled in at the start of a buffer, and \<open>std::string::resize\<close> to a size that may be negative, hence huge.\<close>

definition overlay :: "bytes \<Rightarrow> bytes \<Rightarrow> bytes" where
  "overlay new buf = take (length buf) new @ drop (length new) buf"

definition resize_int :: "int \<Rightarrow> bytes \<Rightarrow> bytes res" where
  "resize_int n s = (if n < 0 then Inl LengthError else Inr (resize (nat n) s))"

section \<open>FDWrapper\<close>

record FDWrapper =
  fw_fd :: int
  fw_eof :: bool
  fw_closed :: bool
  fw_read_count :: u32
  fw_write_count :: u32

definition fw_new :: "int \<Rightarrow> FDWrapper res" where
  "fw_new fd =
     (if fd < 0 then Inl RuntimeError
      else Inr \<lparr>fw_fd = fd, fw_eof = False, fw_closed = False, fw_read_count = 0, fw_write_count = 0\<rparr>)"

definition fw_close :: "'w kernel \<Rightarrow> FDWrapper \<Rightarrow> 'w \<Rightarrow> ('w \<times> FDWrapper) res" where
  "fw_close k f w =
     (let (w, ret) = k_close k (fw_fd f) w
      in bindE (SystemCall k w ret 0) (\<lambda>_. Inr (w, f\<lparr>fw_eof := True, fw_closed := True\<rparr>)))"

text \<open>The destructor swallows an exception of \<open>close\<close>.\<close>

definition fw_destroy :: "'w kernel \<Rightarrow> FDWrapper \<Rightarrow> 'w \<Rightarrow> 'w" where
  "fw_destroy k f w =
     (if fw_closed f then w
      else case fw_close k f w of Inl _ \<Rightarrow> fst (k_close k (fw_fd f) w) | Inr (w', _) \<Rightarrow> w')"

definition fd_register_read :: "FDWrapper \<Rightarrow> FDWrapper" where
  "fd_register_read f = f\<lparr>fw_read_count := fw_read_count f + 1\<rparr>"

definition fd_register_write :: "FDWrapper \<Rightarrow> FDWrapper" where
  "fd_register_write f = f\<lparr>fw_write_count := fw_write_count f + 1\<rparr>"

section \<open>FileDescriptor\<close>

definition BUFFER_SIZE :: nat where
  "BUFFER_SIZE = 1024 * 1024"

definition fd_read :: "'w kernel \<Rightarrow> nat \<Rightarrow> FDWrapper \<Rightarrow> 'w \<Rightarrow> ('w \<times> FDWrapper \<times> bytes) res" where
  "fd_read k limit f w =
     (let size_to_read = min BUFFER_SIZE limit;
          str = replicate size_to_read 0;
          (w, ret, filled) = k_read k (fw_fd f) size_to_read w;
          str = overlay filled str
      in bindE (SystemCall k w ret 0) (\<lambda>bytes_read.
         let f = (if limit > 0 \<and> bytes_read = 0 then f\<lparr>fw_eof := True\<rparr> else f)
         in if bytes_read > int size_to_read then Inl RuntimeError
            else bindE (resize_int bytes_read str) (\<lambda>str. Inr (w, fd_register_read f, str))))"

text \<open>What the loop of \<open>write\<close> relies on: the return value is an \<open>int\<close>, and a prefix that is not empty makes the buffer shorter.\<close>

lemma SystemCall_range: "SystemCall k w r e = Inr m \<Longrightarrow> - (2 ^ 31) \<le> m \<and> m < 2 ^ 31"
  by (auto simp: SystemCall_def to_int32_def split: if_splits)

lemma write_shrinks:
  assumes "SystemCall k w r e = Inr m" "bv_remove_prefix (nat (m mod 18446744073709551616)) b = Inr b'"
    "m = 0 \<longrightarrow> bv_size b = 0" "0 < bv_size b'"
  shows "bv_size b' < bv_size b"
proof -
  let ?n = "nat (m mod 18446744073709551616)"
  have b': "concat b' = drop ?n (concat b) \<and> ?n \<le> bv_size b" using bv.discard_view [OF _ assms(2)] by simp
  have "m \<noteq> 0" using assms(3,4) b' by auto
  moreover have "- (2 ^ 31) \<le> m" "m < 2 ^ 31" using SystemCall_range [OF assms(1)] by auto
  ultimately have "m mod 18446744073709551616 \<noteq> 0" by (cases "0 < m") (auto simp: mod_eq_0_iff_dvd dest: zdvd_not_zless zdvd_imp_le)
  then have "0 < ?n" by (simp add: order_less_le)
  then show ?thesis using b' assms(4) by auto
qed

function fd_write_loop :: "'w kernel \<Rightarrow> bool \<Rightarrow> BufferViewList \<Rightarrow> nat \<Rightarrow> FDWrapper \<Rightarrow> 'w \<Rightarrow> ('w \<times> FDWrapper \<times> nat) res" where
  "fd_write_loop k write_all buffer total_bytes_written f w =
     (let iovecs = bv_as_iovecs buffer;
          r = k_writev k (fw_fd f) iovecs w;
          w = fst r
      in (case SystemCall k w (snd r) 0 of
            Inl e \<Rightarrow> Inl e
          | Inr bytes_written \<Rightarrow>
              (if bytes_written = 0 \<and> bv_size buffer \<noteq> 0 then Inl RuntimeError
               else if bytes_written > int (bv_size buffer) then Inl RuntimeError
               else let f = fd_register_write f;
                        n = nat (bytes_written mod 2 ^ 64)
                    in (case bv_remove_prefix n buffer of
                          Inl e \<Rightarrow> Inl e
                        | Inr buffer' \<Rightarrow>
                            (if write_all \<and> bv_size buffer' \<noteq> 0 then fd_write_loop k write_all buffer' (total_bytes_written + n) f w
                             else Inr (w, f, total_bytes_written + n))))))"
  by pat_completeness auto
termination
  by (relation "measure (\<lambda>(k, write_all, buffer, total_bytes_written, f, w). bv_size buffer)")
    (auto simp del: bv_size_eq bv_as_iovecs_eq intro: write_shrinks)

declare fd_write_loop.simps [simp del]

definition fd_write :: "'w kernel \<Rightarrow> BufferViewList \<Rightarrow> bool \<Rightarrow> FDWrapper \<Rightarrow> 'w \<Rightarrow> ('w \<times> FDWrapper \<times> nat) res" where
  "fd_write k buffer write_all f w = fd_write_loop k write_all buffer 0 f w"

definition fd_write_str :: "'w kernel \<Rightarrow> bytes \<Rightarrow> bool \<Rightarrow> FDWrapper \<Rightarrow> 'w \<Rightarrow> ('w \<times> FDWrapper \<times> nat) res" where
  "fd_write_str k str write_all f w = fd_write k (bv_of_view str) write_all f w"

definition O_NONBLOCK :: u32 where
  "O_NONBLOCK = 0x800"

definition fd_set_blocking :: "'w kernel \<Rightarrow> bool \<Rightarrow> FDWrapper \<Rightarrow> 'w \<Rightarrow> 'w res" where
  "fd_set_blocking k blocking_state f w =
     (let (w, ret) = k_getfl k (fw_fd f) w
      in bindE (SystemCall k w ret 0) (\<lambda>v.
         let flags = (of_int v :: u32);
             flags = (if blocking_state then flags XOR (flags AND O_NONBLOCK) else flags OR O_NONBLOCK);
             (w, ret) = k_setfl k (fw_fd f) (sint flags) w
         in bindE (SystemCall k w ret 0) (\<lambda>_. Inr w)))"

section \<open>Writing\<close>

text \<open>
  What the manual says of \<open>writev\<close> on a descriptor that keeps what is written to it: it fails, sets \<open>errno\<close> and writes nothing, or
  it writes a prefix of the data and returns its length.
\<close>

definition k_writes :: "'w kernel \<Rightarrow> ('w \<Rightarrow> bytes) \<Rightarrow> bool" where
  "k_writes k out \<longleftrightarrow>
     (\<forall>fd vs w w' r. k_writev k fd (bv_as_iovecs vs) w = (w', r) \<longrightarrow>
        - (2 ^ 31) \<le> r \<and> r < 2 ^ 31 \<and>
        (if r < 0 then k_errno k w' \<noteq> 0 \<and> out w' = out w
         else r \<le> int (bv_size vs) \<and> out w' = out w @ take (nat r) (concat vs)))"

text \<open>A call that writes something whenever there is something to write, as a blocking one does.\<close>

definition k_blocks :: "'w kernel \<Rightarrow> bool" where
  "k_blocks k \<longleftrightarrow> (\<forall>fd vs w. if bv_size vs = 0 then snd (k_writev k fd (bv_as_iovecs vs) w) = 0 else 0 < snd (k_writev k fd (bv_as_iovecs vs) w))"

lemma to_int32_id: "- (2 ^ 31) \<le> x \<Longrightarrow> x < 2 ^ 31 \<Longrightarrow> to_int32 x = x"
  by (simp add: to_int32_def)

text \<open>One round of the loop.\<close>

lemma write_round:
  assumes "k_writes k out"
  obtains "fd_write_loop k all vs t f w = Inl RuntimeError" and "\<not> k_blocks k"
  | n w' vs' where "n \<le> bv_size vs" and "n = 0 \<longrightarrow> bv_size vs = 0" and "concat vs' = drop n (concat vs)" and "out w' = out w @ take n (concat vs)"
    and "fd_write_loop k all vs t f w =
      (if all \<and> n < bv_size vs then fd_write_loop k all vs' (t + n) (fd_register_write f) w' else Inr (w', fd_register_write f, t + n))"
proof -
  obtain w' r where c: "k_writev k (fw_fd f) (bv_as_iovecs vs) w = (w', r)" by fastforce
  have r: "- (2 ^ 31) \<le> r" "r < 2 ^ 31" "r < 0 \<Longrightarrow> k_errno k w' \<noteq> 0"
    "\<not> r < 0 \<Longrightarrow> r \<le> int (bv_size vs) \<and> out w' = out w @ take (nat r) (concat vs)"
    using assms c unfolding k_writes_def by (metis, metis, metis, metis)
  have nb: "k_blocks k \<Longrightarrow> 0 \<le> r \<and> (r = 0 \<longrightarrow> bv_size vs = 0)"
    using c unfolding k_blocks_def by (metis (no_types, lifting) less_le_not_le order_refl snd_conv)
  show thesis
  proof (cases "r < 0 \<or> r = 0 \<and> bv_size vs \<noteq> 0")
    case True
    then have "fd_write_loop k all vs t f w = Inl RuntimeError"
      using c r(1-3) by (subst fd_write_loop.simps) (auto simp: SystemCall_def to_int32_id Let_def simp del: bv_size_eq bv_as_iovecs_eq)
    then show thesis using that(1) nb True by force
  next
    case False
    then have r': "0 \<le> r" "r \<le> int (bv_size vs)" "out w' = out w @ take (nat r) (concat vs)" "r = 0 \<longrightarrow> bv_size vs = 0" using r(4) by auto
    then have n: "nat (r mod 2 ^ 64) = nat r" "nat r \<le> bv_size vs" using r(2) by auto
    obtain vs' where vs': "bv_remove_prefix (nat r) vs = Inr vs'" "concat vs' = drop (nat r) (concat vs)"
      using bv_remove_prefix_ok [of "nat r" vs] n(2) by auto
    have "fd_write_loop k all vs t f w =
      (if all \<and> nat r < bv_size vs then fd_write_loop k all vs' (t + nat r) (fd_register_write f) w' else Inr (w', fd_register_write f, t + nat r))"
      using c r(1,2) r' n vs' by (subst fd_write_loop.simps) (auto simp: SystemCall_def to_int32_id Let_def)
    then show thesis using that(2) [of "nat r" vs' w'] r' n(2) vs'(2) by auto
  qed
qed

lemma write_loop_result:
  assumes "k_writes k out"
  shows "(fd_write_loop k all vs t f w = Inl RuntimeError \<and> \<not> k_blocks k) \<or>
    (\<exists>w' f' n. fd_write_loop k all vs t f w = Inr (w', f', t + n) \<and> out w' = out w @ take n (concat vs) \<and> n \<le> bv_size vs \<and>
      (all \<longrightarrow> n = bv_size vs) \<and> (n = 0 \<longrightarrow> bv_size vs = 0))"
proof (induction "bv_size vs" arbitrary: vs t f w rule: less_induct)
  case less
  show ?case
  proof (cases rule: write_round [OF assms, of all vs t f w])
    case 1
    then show ?thesis by blast
  next
    case (2 n w1 vs')
    show ?thesis
    proof (cases "all \<and> n < bv_size vs")
      case True
      have "bv_size vs' = bv_size vs - n" using 2(3) by simp
      moreover have "0 < n" using 2(2) True by (cases n) (simp_all del: bv_size_eq)
      ultimately have lt: "bv_size vs' < bv_size vs" using True by linarith
      have "(fd_write_loop k all vs' (t + n) (fd_register_write f) w1 = Inl RuntimeError \<and> \<not> k_blocks k) \<or>
        (\<exists>w' f' m. fd_write_loop k all vs' (t + n) (fd_register_write f) w1 = Inr (w', f', t + n + m) \<and> out w' = out w1 @ take m (concat vs') \<and>
          m \<le> bv_size vs' \<and> (all \<longrightarrow> m = bv_size vs') \<and> (m = 0 \<longrightarrow> bv_size vs' = 0))"
        by (rule less [OF lt])
      then show ?thesis
      proof (elim disjE exE conjE)
        fix w' f' m
        assume m: "fd_write_loop k all vs' (t + n) (fd_register_write f) w1 = Inr (w', f', t + n + m)" "out w' = out w1 @ take m (concat vs')" "m \<le> bv_size vs'" "all \<longrightarrow> m = bv_size vs'"
        have "out w' = out w @ take (n + m) (concat vs)" using m(2) 2(3,4) by (simp add: take_add)
        then show ?thesis using m 2(5) True \<open>bv_size vs' = bv_size vs - n\<close> \<open>0 < n\<close> by (intro disjI2 exI [of _ w'] exI [of _ f'] exI [of _ "n + m"]) (simp_all del: bv_size_eq)
      qed (use 2(5) True in simp)
    next
      case False
      then show ?thesis using 2 by (intro disjI2 exI [of _ w1] exI [of _ "fd_register_write f"] exI [of _ n]) auto
    qed
  qed
qed

lemma fd_write_ok:
  assumes "k_writes k out" and "k_blocks k"
  obtains w' f' where "fd_write k vs True f w = Inr (w', f', bv_size vs)" and "out w' = out w @ concat vs"
proof -
  have all_data: "take (bv_size vs) (concat vs) = concat vs" by simp
  show thesis using write_loop_result [OF assms(1), of True vs 0 f w] assms(2) all_data that unfolding fd_write_def add_0 by (metis (no_types))
qed

text \<open>What \<open>read\<close> and \<open>writev\<close> return, and what the calls that return have done.\<close>

definition k_returns :: "'w kernel \<Rightarrow> bool" where
  "k_returns k \<longleftrightarrow>
     (\<forall>fd n w w' r filled. k_read k fd n w = (w', r, filled) \<longrightarrow>
        - (2 ^ 31) \<le> r \<and> r < 2 ^ 31 \<and> (if r < 0 then k_errno k w' \<noteq> 0 else r = int (length filled) \<and> length filled \<le> n)) \<and>
     (\<forall>fd vs w w' r. k_writev k fd (bv_as_iovecs vs) w = (w', r) \<longrightarrow>
        - (2 ^ 31) \<le> r \<and> r < 2 ^ 31 \<and> (if r < 0 then k_errno k w' \<noteq> 0 else r \<le> int (bv_size vs)))"

lemma overlay_resize: "length d \<le> length buf \<Longrightarrow> resize (length d) (overlay d buf) = d"
  by (simp add: overlay_def resize_def)

lemma fd_read_returned:
  assumes "k_returns k" and "fd_read k limit f w = Inr (w', f', d)"
  shows "k_read k (fw_fd f) (min BUFFER_SIZE limit) w = (w', int (length d), d) \<and> length d \<le> limit \<and>
    f' = fd_register_read (if limit > 0 \<and> d = [] then f\<lparr>fw_eof := True\<rparr> else f)"
proof -
  define m where "m = min BUFFER_SIZE limit"
  obtain v r e where c: "k_read k (fw_fd f) m w = (v, r, e)" using prod_cases3 by blast
  have r: "- (2 ^ 31) \<le> r" "r < 2 ^ 31" "r < 0 \<Longrightarrow> k_errno k v \<noteq> 0" "\<not> r < 0 \<Longrightarrow> r = int (length e) \<and> length e \<le> m"
    using assms(1) c unfolding k_returns_def by (metis, metis, metis, metis)
  have nn: "\<not> r < 0" using assms(2) r(1-3) unfolding fd_read_def Let_def m_def [symmetric] c by (auto simp: SystemCall_def to_int32_id)
  then have e: "r = int (length e)" "length e \<le> m" "SystemCall k v r 0 = Inr r" using r(1,2,4) by (simp_all add: SystemCall_def to_int32_id)
  have "resize (length e) (overlay e (replicate m 0)) = e" using e(2) by (simp add: overlay_resize)
  then have "fd_read k limit f w = Inr (v, fd_register_read (if limit > 0 \<and> e = [] then f\<lparr>fw_eof := True\<rparr> else f), e)"
    using e unfolding fd_read_def Let_def m_def [symmetric] c by (simp add: resize_int_def)
  then show ?thesis using assms(2) c e(1,2) by (simp add: m_def)
qed

lemma fd_write_returned:
  assumes "k_returns k" and "fd_write k vs False f w = Inr (w', f', n)"
  shows "k_writev k (fw_fd f) (bv_as_iovecs vs) w = (w', int n) \<and> n \<le> bv_size vs \<and> f' = fd_register_write f"
proof -
  obtain v r where c: "k_writev k (fw_fd f) (bv_as_iovecs vs) w = (v, r)" by fastforce
  have r: "- (2 ^ 31) \<le> r" "r < 2 ^ 31" "r < 0 \<Longrightarrow> k_errno k v \<noteq> 0" "\<not> r < 0 \<Longrightarrow> r \<le> int (bv_size vs)"
    using assms(1) c unfolding k_returns_def by (metis, metis, metis, metis)
  have nn: "\<not> r < 0" using assms(2) c r(1-3) unfolding fd_write_def
    by (subst (asm) fd_write_loop.simps) (auto simp: SystemCall_def to_int32_id Let_def simp del: bv_size_eq bv_as_iovecs_eq)
  then have "nat (r mod 2 ^ 64) = nat r" using r(2) by simp
  then show ?thesis using assms(2) c r(1,2,4) nn unfolding fd_write_def
    by (subst (asm) fd_write_loop.simps)
      (auto simp: SystemCall_def to_int32_id Let_def simp del: bv_size_eq bv_as_iovecs_eq split: if_splits sum.splits)
qed

section \<open>Properties\<close>

text \<open>
  C40. Writing to a descriptor always ends. It fails with a \<open>runtime_error\<close>, or a prefix of the data, not empty unless the data is, is written exactly once and in
  order, and its length is returned; with \<open>write_all\<close> the prefix is all of the data. When the system accepts something in every call, \<open>write_all\<close> does
  not fail, however little is accepted at a time.
\<close>

theorem fd_write_all:
  assumes "k_writes k out"
  shows "(fd_write k vs all f w = Inl RuntimeError \<or>
      (\<exists>w' f' n. fd_write k vs all f w = Inr (w', f', n) \<and> out w' = out w @ take n (concat vs) \<and> n \<le> bv_size vs \<and> (n = 0 \<longrightarrow> bv_size vs = 0))) \<and>
    (k_blocks k \<longrightarrow> (\<exists>w' f'. fd_write k vs True f w = Inr (w', f', bv_size vs) \<and> out w' = out w @ concat vs))"
proof -
  have all_data: "take (bv_size vs) (concat vs) = concat vs" by simp
  show ?thesis
    using write_loop_result [OF assms, of all vs 0 f w] write_loop_result [OF assms, of True vs 0 f w] all_data
    unfolding fd_write_def add_0 by (metis (no_types))
qed

text \<open>A system in which every call succeeds and does nothing, and one that accepts at most three bytes at a time.\<close>

definition kernel_null :: "'w kernel" where
  "kernel_null = \<lparr>k_errno = \<lambda>_. 0, k_read = \<lambda>_ _ w. (w, 0, []), k_writev = \<lambda>_ _ w. (w, 0), k_close = \<lambda>_ w. (w, 0), k_getfl = \<lambda>_ w. (w, 0),
     k_setfl = \<lambda>_ _ w. (w, 0), k_socket = \<lambda>_ _ w. (w, 3), k_getsockopt = \<lambda>_ _ w. (w, 0, 1, 4), k_setsockopt = \<lambda>_ _ _ _ w. (w, 0),
     k_getsockname = \<lambda>_ w. (w, 0, [], 0), k_getpeername = \<lambda>_ w. (w, 0, [], 0), k_bind = \<lambda>_ _ _ w. (w, 0), k_connect = \<lambda>_ _ _ w. (w, 0),
     k_shutdown = \<lambda>_ _ w. (w, 0), k_recvfrom = \<lambda>_ _ w. (w, 0, [], [], 0), k_sendmsg = \<lambda>_ _ _ w. (w, 0), k_listen = \<lambda>_ _ w. (w, 0),
     k_accept = \<lambda>_ w. (w, 4), k_socketpair = \<lambda>_ _ w. (w, 0, 5, 6), k_open = \<lambda>_ _ w. (w, 7), k_tunsetiff = \<lambda>_ _ _ w. (w, 0),
     k_poll = \<lambda>fds _ w. (w, int (length fds), map snd fds), k_clock = \<lambda>w. (w, 0), k_random = \<lambda>w. (w, 0)\<rparr>"

definition kernel_demo :: "bytes kernel" where
  "kernel_demo = kernel_null\<lparr>k_writev := \<lambda>_ iov w. (w @ take 3 (concat (map fst iov)), int (min 3 (length (concat (map fst iov)))))\<rparr>"

lemma kernel_demo_ok: "k_writes kernel_demo id" "k_blocks kernel_demo"
proof -
  have "take (min 3 (length xs)) xs = take 3 xs" for xs :: bytes by (simp add: min_def)
  then show "k_writes kernel_demo id" by (auto simp: k_writes_def kernel_demo_def comp_def)
  show "k_blocks kernel_demo" by (auto simp: k_blocks_def kernel_demo_def comp_def min_def simp del: concat_eq_Nil_conv)
qed

theorem fd_write_all_witness:
  "\<exists>w' f'. fd_write kernel_demo [[1, 2], [3, 4, 5, 6, 7]] True \<lparr>fw_fd = 1, fw_eof = False, fw_closed = False, fw_read_count = 0, fw_write_count = 0\<rparr> [9] = Inr (w', f', 7) \<and>
     w' = [9, 1, 2, 3, 4, 5, 6, 7]"
proof -
  let ?f = "\<lparr>fw_fd = 1, fw_eof = False, fw_closed = False, fw_read_count = 0, fw_write_count = 0\<rparr>"
  have n: "bv_size [[1, 2], [3, 4, 5, 6, 7]] = 7" by simp
  show ?thesis
    using conjunct2 [OF fd_write_all [OF kernel_demo_ok(1), of "[[1, 2], [3, 4, 5, 6, 7]]" True ?f "[9]"]] kernel_demo_ok(2)
    unfolding n by simp
qed

end
