(* ===== verification/Sockets.thy ===== *)
theory Sockets
  imports File_Descriptor
begin

text \<open>
  Models \<^verbatim>\<open>libsponge/util/socket.hh\<close>, \<^verbatim>\<open>socket.cc\<close>, \<^verbatim>\<open>tun.hh\<close> and \<^verbatim>\<open>tun.cc\<close>. A socket has no state but that of its
  descriptor, the \<open>FDWrapper\<close>. The three kinds of socket differ in the domain and the type that their constructors ask for or verify.
\<close>

unbundle bit_operations_syntax

section \<open>Socket\<close>

definition AF_UNIX :: int where
  "AF_UNIX = 1"

definition SOCK_STREAM :: int where
  "SOCK_STREAM = 1"

definition SOCK_DGRAM :: int where
  "SOCK_DGRAM = 2"

definition SOL_SOCKET :: int where
  "SOL_SOCKET = 1"

definition SO_REUSEADDR :: int where
  "SO_REUSEADDR = 2"

definition SO_TYPE :: int where
  "SO_TYPE = 3"

definition SO_DOMAIN :: int where
  "SO_DOMAIN = 39"

definition SHUT_RD :: int where
  "SHUT_RD = 0"

definition SHUT_WR :: int where
  "SHUT_WR = 1"

definition SHUT_RDWR :: int where
  "SHUT_RDWR = 2"

definition sock_new :: "'w kernel \<Rightarrow> int \<Rightarrow> int \<Rightarrow> 'w \<Rightarrow> ('w \<times> FDWrapper) res" where
  "sock_new k domain type w =
     (let (w, ret) = k_socket k domain type w
      in bindE (SystemCall k w ret 0) (\<lambda>fd.
         bindE (fw_new fd) (\<lambda>f. Inr (w, f))))"

text \<open>An option of the socket must have the size of an \<open>int\<close> and a given value.\<close>

definition sock_verify :: "'w kernel \<Rightarrow> int \<Rightarrow> int \<Rightarrow> FDWrapper \<Rightarrow> 'w \<Rightarrow> 'w res" where
  "sock_verify k option_name expected f w =
     (let (w, ret, actual_value, len) = k_getsockopt k (fw_fd f) option_name w
      in bindE (SystemCall k w ret 0) (\<lambda>_. if len \<noteq> 4 \<or> actual_value \<noteq> expected then Inl RuntimeError else Inr w))"

definition sock_of_fd :: "'w kernel \<Rightarrow> int \<Rightarrow> int \<Rightarrow> FDWrapper \<Rightarrow> 'w \<Rightarrow> ('w \<times> FDWrapper) res" where
  "sock_of_fd k domain type f w =
     bindE (sock_verify k SO_DOMAIN domain f w) (\<lambda>w.
     bindE (sock_verify k SO_TYPE type f w) (\<lambda>w. Inr (w, f)))"

definition sock_get_address :: "'w kernel \<Rightarrow> (int \<Rightarrow> 'w \<Rightarrow> 'w \<times> int \<times> bytes \<times> nat) \<Rightarrow> FDWrapper \<Rightarrow> 'w \<Rightarrow> ('w \<times> Address) res" where
  "sock_get_address k function f w =
     (let (w, ret, filled, n) = function (fw_fd f) w;
          address = overlay filled (replicate sizeof_storage 0)
      in bindE (SystemCall k w ret 0) (\<lambda>_. bindE (ad_of_sockaddr address n) (\<lambda>a. Inr (w, a))))"

definition sock_local_address :: "'w kernel \<Rightarrow> FDWrapper \<Rightarrow> 'w \<Rightarrow> ('w \<times> Address) res" where
  "sock_local_address k = sock_get_address k (k_getsockname k)"

definition sock_peer_address :: "'w kernel \<Rightarrow> FDWrapper \<Rightarrow> 'w \<Rightarrow> ('w \<times> Address) res" where
  "sock_peer_address k = sock_get_address k (k_getpeername k)"

definition sock_bind :: "'w kernel \<Rightarrow> Address \<Rightarrow> FDWrapper \<Rightarrow> 'w \<Rightarrow> 'w res" where
  "sock_bind k address f w =
     (let (w, ret) = k_bind k (fw_fd f) (ad_storage address) (ad_size address) w
      in bindE (SystemCall k w ret 0) (\<lambda>_. Inr w))"

definition sock_connect :: "'w kernel \<Rightarrow> Address \<Rightarrow> FDWrapper \<Rightarrow> 'w \<Rightarrow> 'w res" where
  "sock_connect k address f w =
     (let (w, ret) = k_connect k (fw_fd f) (ad_storage address) (ad_size address) w
      in bindE (SystemCall k w ret 0) (\<lambda>_. Inr w))"

definition sock_shutdown :: "'w kernel \<Rightarrow> int \<Rightarrow> FDWrapper \<Rightarrow> 'w \<Rightarrow> ('w \<times> FDWrapper) res" where
  "sock_shutdown k how f w =
     (let (w, ret) = k_shutdown k (fw_fd f) how w
      in bindE (SystemCall k w ret 0) (\<lambda>_.
         if how = SHUT_RD then Inr (w, fd_register_read f)
         else if how = SHUT_WR then Inr (w, fd_register_write f)
         else if how = SHUT_RDWR then Inr (w, fd_register_write (fd_register_read f))
         else Inl RuntimeError))"

definition sock_setsockopt :: "'w kernel \<Rightarrow> int \<Rightarrow> int \<Rightarrow> int \<Rightarrow> FDWrapper \<Rightarrow> 'w \<Rightarrow> 'w res" where
  "sock_setsockopt k level option_name option_value f w =
     (let (w, ret) = k_setsockopt k (fw_fd f) level option_name option_value w
      in bindE (SystemCall k w ret 0) (\<lambda>_. Inr w))"

definition sock_set_reuseaddr :: "'w kernel \<Rightarrow> FDWrapper \<Rightarrow> 'w \<Rightarrow> 'w res" where
  "sock_set_reuseaddr k = sock_setsockopt k SOL_SOCKET SO_REUSEADDR 1"

section \<open>UDPSocket\<close>

definition udp_new :: "'w kernel \<Rightarrow> 'w \<Rightarrow> ('w \<times> FDWrapper) res" where
  "udp_new k = sock_new k (int AF_INET) SOCK_DGRAM"

definition udp_of_fd :: "'w kernel \<Rightarrow> FDWrapper \<Rightarrow> 'w \<Rightarrow> ('w \<times> FDWrapper) res" where
  "udp_of_fd k = sock_of_fd k (int AF_INET) SOCK_DGRAM"

record received_datagram =
  rd_source_address :: Address
  rd_payload :: bytes

definition udp_recv_into :: "'w kernel \<Rightarrow> received_datagram \<Rightarrow> nat \<Rightarrow> FDWrapper \<Rightarrow> 'w \<Rightarrow> ('w \<times> FDWrapper \<times> received_datagram) res" where
  "udp_recv_into k datagram mtu f w =
     (let payload = resize mtu (rd_payload datagram);
          (w, ret, filled, from, fromlen) = k_recvfrom k (fw_fd f) (length payload) w;
          payload = overlay filled payload;
          datagram_source_address = overlay from (replicate sizeof_storage 0)
      in bindE (SystemCall k w ret 0) (\<lambda>recv_len.
         if recv_len > int mtu then Inl RuntimeError
         else let f = fd_register_read f
              in bindE (ad_of_sockaddr datagram_source_address fromlen) (\<lambda>source.
                 bindE (resize_int recv_len payload) (\<lambda>payload.
                   Inr (w, f, \<lparr>rd_source_address = source, rd_payload = payload\<rparr>)))))"

definition udp_recv :: "'w kernel \<Rightarrow> nat \<Rightarrow> FDWrapper \<Rightarrow> 'w \<Rightarrow> ('w \<times> FDWrapper \<times> received_datagram) res" where
  "udp_recv k mtu f w =
     bindE (ad_of_sockaddr [] 0) (\<lambda>a. udp_recv_into k \<lparr>rd_source_address = a, rd_payload = []\<rparr> mtu f w)"

definition UDP_MTU :: nat where
  "UDP_MTU = 65536"

definition sendmsg_helper :: "'w kernel \<Rightarrow> int \<Rightarrow> (bytes \<times> nat) option \<Rightarrow> BufferViewList \<Rightarrow> 'w \<Rightarrow> 'w res" where
  "sendmsg_helper k fd_num destination payload w =
     (let iovecs = bv_as_iovecs payload;
          (w, ret) = k_sendmsg k fd_num destination iovecs w
      in bindE (SystemCall k w ret 0) (\<lambda>bytes_sent.
         if nat (bytes_sent mod 2 ^ 64) \<noteq> bv_size payload then Inl RuntimeError else Inr w))"

definition udp_sendto :: "'w kernel \<Rightarrow> Address \<Rightarrow> BufferViewList \<Rightarrow> FDWrapper \<Rightarrow> 'w \<Rightarrow> ('w \<times> FDWrapper) res" where
  "udp_sendto k destination payload f w =
     bindE (sendmsg_helper k (fw_fd f) (Some (ad_storage destination, ad_size destination)) payload w) (\<lambda>w. Inr (w, fd_register_write f))"

definition udp_send :: "'w kernel \<Rightarrow> BufferViewList \<Rightarrow> FDWrapper \<Rightarrow> 'w \<Rightarrow> ('w \<times> FDWrapper) res" where
  "udp_send k payload f w = bindE (sendmsg_helper k (fw_fd f) None payload w) (\<lambda>w. Inr (w, fd_register_write f))"

section \<open>TCPSocket and LocalStreamSocket\<close>

definition tcps_new :: "'w kernel \<Rightarrow> 'w \<Rightarrow> ('w \<times> FDWrapper) res" where
  "tcps_new k = sock_new k (int AF_INET) SOCK_STREAM"

definition tcps_of_fd :: "'w kernel \<Rightarrow> FDWrapper \<Rightarrow> 'w \<Rightarrow> ('w \<times> FDWrapper) res" where
  "tcps_of_fd k = sock_of_fd k (int AF_INET) SOCK_STREAM"

definition tcps_listen :: "'w kernel \<Rightarrow> int \<Rightarrow> FDWrapper \<Rightarrow> 'w \<Rightarrow> 'w res" where
  "tcps_listen k backlog f w =
     (let (w, ret) = k_listen k (fw_fd f) backlog w
      in bindE (SystemCall k w ret 0) (\<lambda>_. Inr w))"

text \<open>The listening socket and the new one are returned.\<close>

definition tcps_accept :: "'w kernel \<Rightarrow> FDWrapper \<Rightarrow> 'w \<Rightarrow> ('w \<times> FDWrapper \<times> FDWrapper) res" where
  "tcps_accept k f w =
     (let f = fd_register_read f;
          (w, ret) = k_accept k (fw_fd f) w
      in bindE (SystemCall k w ret 0) (\<lambda>fd.
         bindE (fw_new fd) (\<lambda>g.
         bindE (tcps_of_fd k g w) (\<lambda>(w, g). Inr (w, f, g)))))"

definition local_stream_of_fd :: "'w kernel \<Rightarrow> FDWrapper \<Rightarrow> 'w \<Rightarrow> ('w \<times> FDWrapper) res" where
  "local_stream_of_fd k = sock_of_fd k AF_UNIX SOCK_STREAM"

section \<open>TunTapFD\<close>

definition CLONEDEV :: string where
  "CLONEDEV = ''/dev/net/tun''"

definition O_RDWR :: int where
  "O_RDWR = 2"

definition IFF_TUN :: u16 where
  "IFF_TUN = 1"

definition IFF_TAP :: u16 where
  "IFF_TAP = 2"

definition IFF_NO_PI :: u16 where
  "IFF_NO_PI = 0x1000"

definition IFNAMSIZ :: nat where
  "IFNAMSIZ = 16"

text \<open>\<open>strncpy\<close> copies up to the first null byte, and fills up with null bytes.\<close>

definition strncpy :: "bytes \<Rightarrow> nat \<Rightarrow> bytes" where
  "strncpy src n = resize n (takeWhile (\<lambda>c. c \<noteq> 0) (take n src))"

definition tuntap_new :: "'w kernel \<Rightarrow> bytes \<Rightarrow> bool \<Rightarrow> 'w \<Rightarrow> ('w \<times> FDWrapper) res" where
  "tuntap_new k devname is_tun w =
     (let (w, ret) = k_open k CLONEDEV O_RDWR w
      in bindE (SystemCall k w ret 0) (\<lambda>fd.
         bindE (fw_new fd) (\<lambda>f.
         let ifr_flags = (if is_tun then IFF_TUN else IFF_TAP) OR IFF_NO_PI;
             ifr_name = strncpy devname (IFNAMSIZ - 1) @ [0];
             (w, ret) = k_tunsetiff k (fw_fd f) ifr_flags ifr_name w
         in bindE (SystemCall k w ret 0) (\<lambda>_. Inr (w, f)))))"

definition tun_new :: "'w kernel \<Rightarrow> bytes \<Rightarrow> 'w \<Rightarrow> ('w \<times> FDWrapper) res" where
  "tun_new k devname = tuntap_new k devname True"

definition tap_new :: "'w kernel \<Rightarrow> bytes \<Rightarrow> 'w \<Rightarrow> ('w \<times> FDWrapper) res" where
  "tap_new k devname = tuntap_new k devname False"

section \<open>Receiving datagrams\<close>

text \<open>
  What the manual says of \<open>recvfrom\<close> with \<open>MSG_TRUNC\<close> on a socket with a queue of datagrams and their senders: it fails and sets \<open>errno\<close>, or it takes the first datagram from
  the queue, returns its length, also when that is more than there is room for, and fills in what there is room for and the address of the sender.
\<close>

definition k_datagrams :: "'w kernel \<Rightarrow> ('w \<Rightarrow> (bytes \<times> Address) list) \<Rightarrow> bool" where
  "k_datagrams k inb \<longleftrightarrow>
     (\<forall>fd n w w' r filled from fromlen. k_recvfrom k fd n w = (w', r, filled, from, fromlen) \<longrightarrow>
        - (2 ^ 31) \<le> r \<and> r < 2 ^ 31 \<and>
        (if r < 0 then k_errno k w' \<noteq> 0
         else \<exists>d src. inb w = (d, src) # inb w' \<and> r = int (length d) \<and> filled = take n d \<and>
                from = take (ad_size src) (ad_storage src) \<and> fromlen = ad_size src \<and> ad_of_sockaddr (ad_storage src) (ad_size src) = Inr src))"

lemma overlay_address:
  assumes "ad_of_sockaddr (ad_storage a) (ad_size a) = Inr a"
  shows "ad_of_sockaddr (overlay (take (ad_size a) (ad_storage a)) (replicate sizeof_storage 0)) (ad_size a) = Inr a"
proof -
  have n: "ad_size a \<le> sizeof_storage" "ad_size a \<le> length (ad_storage a)"
    and a: "a = \<lparr>ad_size = ad_size a, ad_storage = take (ad_size a) (ad_storage a) @ replicate (sizeof_storage - ad_size a) 0\<rparr>"
    using assms by (auto simp: ad_of_sockaddr_def split: if_splits)
  have "overlay (take (ad_size a) (ad_storage a)) (replicate sizeof_storage 0) = take (ad_size a) (ad_storage a) @ replicate (sizeof_storage - ad_size a) 0"
    using n by (simp add: overlay_def min_def)
  then show ?thesis using n a by (simp add: ad_of_sockaddr_def)
qed

lemma udp_recv_cases:
  assumes "k_datagrams k inb"
  obtains "fst (snd (k_recvfrom k (fw_fd f) mtu w)) < 0" and "udp_recv k mtu f w = Inl RuntimeError"
  | w' d src where "0 \<le> fst (snd (k_recvfrom k (fw_fd f) mtu w))" and "inb w = (d, src) # inb w'"
    and "udp_recv k mtu f w = (if mtu < length d then Inl RuntimeError else Inr (w', fd_register_read f, \<lparr>rd_source_address = src, rd_payload = d\<rparr>))"
proof -
  obtain w' r filled frm fromlen where c: "k_recvfrom k (fw_fd f) mtu w = (w', r, filled, frm, fromlen)" using prod_cases5 by blast
  have r: "- (2 ^ 31) \<le> r" "r < 2 ^ 31" "r < 0 \<Longrightarrow> k_errno k w' \<noteq> 0"
    "\<not> r < 0 \<Longrightarrow> \<exists>d src. inb w = (d, src) # inb w' \<and> r = int (length d) \<and> filled = take mtu d \<and>
       frm = take (ad_size src) (ad_storage src) \<and> fromlen = ad_size src \<and> ad_of_sockaddr (ad_storage src) (ad_size src) = Inr src"
    using assms c unfolding k_datagrams_def by (metis, metis, metis, metis)
  have recv: "udp_recv k mtu f w = bindE (SystemCall k w' r 0) (\<lambda>recv_len.
      if recv_len > int mtu then Inl RuntimeError
      else bindE (ad_of_sockaddr (overlay frm (replicate sizeof_storage 0)) fromlen) (\<lambda>source.
           bindE (resize_int recv_len (overlay filled (replicate mtu 0))) (\<lambda>payload.
             Inr (w', fd_register_read f, \<lparr>rd_source_address = source, rd_payload = payload\<rparr>))))"
    using c by (simp add: udp_recv_def udp_recv_into_def ad_of_sockaddr_def resize_def Let_def cong: if_cong)
  show thesis
  proof (cases "r < 0")
    case True
    then show thesis using r(1-3) c by (intro that(1)) (simp_all add: recv SystemCall_def to_int32_id)
  next
    case False
    then obtain d src where d: "inb w = (d, src) # inb w'" "r = int (length d)" "filled = take mtu d"
      "frm = take (ad_size src) (ad_storage src)" "fromlen = ad_size src" "ad_of_sockaddr (ad_storage src) (ad_size src) = Inr src"
      using r(4) by blast
    have "SystemCall k w' r 0 = Inr r" using False r(1,2) by (simp add: SystemCall_def to_int32_id)
    then have "udp_recv k mtu f w =
      (if mtu < length d then Inl RuntimeError else Inr (w', fd_register_read f, \<lparr>rd_source_address = src, rd_payload = d\<rparr>))"
      using d(2-5) by (simp add: recv overlay_address [OF d(6)] resize_int_def overlay_resize)
    then show thesis using d(1) c False that(2) by simp
  qed
qed

text \<open>
  A datagram received from a UDP socket is the first one in the queue, whole and with the address of its sender; one that is longer than the limit is not
  cut but reported as a \<open>runtime_error\<close>, and nothing else is when the system call succeeds.
\<close>

theorem udp_recv_whole:
  assumes "k_datagrams k inb"
  shows "(udp_recv k mtu f w = Inl RuntimeError \<or>
      (\<exists>w' d src. inb w = (d, src) # inb w' \<and> length d \<le> mtu \<and> udp_recv k mtu f w = Inr (w', fd_register_read f, \<lparr>rd_source_address = src, rd_payload = d\<rparr>))) \<and>
    (0 \<le> fst (snd (k_recvfrom k (fw_fd f) mtu w)) \<longrightarrow> (udp_recv k mtu f w = Inl RuntimeError \<longleftrightarrow> mtu < length (fst (hd (inb w)))))"
  by (rule udp_recv_cases [OF assms, of f mtu w]) auto

text \<open>A system whose state is a queue of datagrams.\<close>

definition kernel_udp :: "(bytes \<times> Address) list kernel" where
  "kernel_udp = kernel_null\<lparr>k_errno := \<lambda>_. 11,
     k_recvfrom := \<lambda>_ n w. (case w of
         (d, src) # w' \<Rightarrow> if length d < 65536 \<and> ad_of_sockaddr (ad_storage src) (ad_size src) = Inr src
           then (w', int (length d), take n d, take (ad_size src) (ad_storage src), ad_size src) else (w, - 1, [], [], 0)
       | [] \<Rightarrow> (w, - 1, [], [], 0))\<rparr>"

lemma kernel_udp_ok: "k_datagrams kernel_udp id"
  by (auto simp: k_datagrams_def kernel_udp_def split: list.splits prod.splits if_splits)

theorem udp_recv_witness:
  "udp_recv kernel_udp 2 \<lparr>fw_fd = 1, fw_eof = False, fw_closed = False, fw_read_count = 0, fw_write_count = 0\<rparr> [([1, 2, 3], ad_v4 5 80)] = Inl RuntimeError \<and>
   (\<exists>w' d src. [([1, 2, 3], ad_v4 5 80)] = (d, src) # w' \<and> length d \<le> 3 \<and>
     udp_recv kernel_udp 3 \<lparr>fw_fd = 1, fw_eof = False, fw_closed = False, fw_read_count = 0, fw_write_count = 0\<rparr> [([1, 2, 3], ad_v4 5 80)] =
       Inr (w', fd_register_read \<lparr>fw_fd = 1, fw_eof = False, fw_closed = False, fw_read_count = 0, fw_write_count = 0\<rparr>, \<lparr>rd_source_address = src, rd_payload = d\<rparr>))"
proof -
  let ?f = "\<lparr>fw_fd = 1, fw_eof = False, fw_closed = False, fw_read_count = 0, fw_write_count = 0\<rparr>" and ?w = "[([1, 2, 3], ad_v4 5 80)] :: (bytes \<times> Address) list"
  have "ad_of_sockaddr (ad_storage (ad_v4 5 80)) (ad_size (ad_v4 5 80)) = Inr (ad_v4 5 80)" by code_simp
  then have ok: "0 \<le> fst (snd (k_recvfrom kernel_udp (fw_fd ?f) n ?w))" for n by (simp add: kernel_udp_def)
  show ?thesis
    using udp_recv_whole [OF kernel_udp_ok, of 2 ?f ?w] udp_recv_whole [OF kernel_udp_ok, of 3 ?f ?w] ok [of 2] ok [of 3] unfolding id_def by (simp, elim conjE disjE) simp_all
qed

end
