(* ===== verification/Fd_Adapters.thy ===== *)
theory Fd_Adapters
  imports Tcp_Over_Ip Network_Interface Sockets
begin

text \<open>
  Models \<open>TCPOverUDPSocketAdapter\<close> (\<^verbatim>\<open>fd_adapter.hh\<close>, \<^verbatim>\<open>fd_adapter.cc\<close>), \<open>LossyFdAdapter\<close> (\<^verbatim>\<open>lossy_fd_adapter.hh\<close>) and the adapters for TUN and TAP devices
  (\<^verbatim>\<open>tuntap_adapter.hh\<close>, \<^verbatim>\<open>tuntap_adapter.cc\<close>), all under \<^verbatim>\<open>libsponge/tcp_helpers\<close>. What the template parameter \<open>AdaptT\<close> offers is a record of operations,
  \<open>adapter\<close>; each adapter gives one. The random number generator of a lossy adapter is an argument, so that the theorems hold for any.
\<close>

section \<open>What an adapter offers\<close>

record ('a, 'w) adapter =
  ap_fd :: "'a \<Rightarrow> FDWrapper"
  ap_read :: "'a \<Rightarrow> 'w \<Rightarrow> ('w \<times> 'a \<times> TCPSegment option) res"
  ap_write :: "TCPSegment \<Rightarrow> 'a \<Rightarrow> 'w \<Rightarrow> ('w \<times> 'a \<times> TCPSegment) res"
  ap_config :: "'a \<Rightarrow> FdAdapterConfig"
  ap_set_config :: "FdAdapterConfig \<Rightarrow> 'a \<Rightarrow> 'a"
  ap_set_listening :: "bool \<Rightarrow> 'a \<Rightarrow> 'a"
  ap_tick :: "u64 \<Rightarrow> 'a \<Rightarrow> 'w \<Rightarrow> ('w \<times> 'a) res"

section \<open>Segments in UDP datagrams\<close>

record TCPOverUDPSocketAdapter =
  ua_base :: FdAdapterBase
  ua_sock :: FDWrapper

definition ua_new :: "libc \<Rightarrow> FDWrapper \<Rightarrow> TCPOverUDPSocketAdapter res" where
  "ua_new lc sock = bindE (fa_new lc) (\<lambda>base. Inr \<lparr>ua_base = base, ua_sock = sock\<rparr>)"

definition ua_read :: "'w kernel \<Rightarrow> TCPOverUDPSocketAdapter \<Rightarrow> 'w \<Rightarrow> ('w \<times> TCPOverUDPSocketAdapter \<times> TCPSegment option) res" where
  "ua_read k a w =
     bindE (udp_recv k UDP_MTU (ua_sock a) w) (\<lambda>(w, sock, datagram).
       let a = a\<lparr>ua_sock := sock\<rparr>;
           base = ua_base a
       in if \<not> fa_listening base \<and> ad_neq (rd_source_address datagram) (fc_destination (fa_config base)) then Inr (w, a, None)
          else bindE (ts_parse (bf_new (rd_payload datagram)) 0 ts_default) (\<lambda>(seg, result).
            if result \<noteq> NoError then Inr (w, a, None)
            else if fa_listening base
            then if th_syn (ts_header seg) \<and> \<not> th_rst (ts_header seg)
                 then let cfg = (fa_config base)\<lparr>fc_destination := rd_source_address datagram\<rparr>;
                          base = fa_set_listening False (fa_set_config cfg base)
                      in Inr (w, a\<lparr>ua_base := base\<rparr>, Some seg)
                 else Inr (w, a, None)
            else Inr (w, a, Some seg)))"

definition ua_write :: "libc \<Rightarrow> 'w kernel \<Rightarrow> TCPSegment \<Rightarrow> TCPOverUDPSocketAdapter \<Rightarrow> 'w \<Rightarrow> ('w \<times> TCPOverUDPSocketAdapter \<times> TCPSegment) res" where
  "ua_write lc k seg a w =
     (let cfg = fa_config (ua_base a)
      in bindE (ad_port lc (fc_source cfg)) (\<lambda>sport.
         bindE (ad_port lc (fc_destination cfg)) (\<lambda>dport.
         let seg = seg\<lparr>ts_header := (ts_header seg)\<lparr>th_sport := sport, th_dport := dport\<rparr>\<rparr>
         in bindE (ts_serialize 0 seg) (\<lambda>payload.
            bindE (udp_sendto k (fc_destination cfg) (bv_of_list payload) (ua_sock a) w) (\<lambda>(w, sock).
              Inr (w, a\<lparr>ua_sock := sock\<rparr>, seg))))))"

definition udp_adapter :: "libc \<Rightarrow> 'w kernel \<Rightarrow> (TCPOverUDPSocketAdapter, 'w) adapter" where
  "udp_adapter lc k =
     \<lparr>ap_fd = ua_sock, ap_read = ua_read k, ap_write = ua_write lc k, ap_config = \<lambda>a. fa_config (ua_base a),
      ap_set_config = \<lambda>c a. a\<lparr>ua_base := fa_set_config c (ua_base a)\<rparr>,
      ap_set_listening = \<lambda>l a. a\<lparr>ua_base := fa_set_listening l (ua_base a)\<rparr>,
      ap_tick = \<lambda>ms a w. Inr (w, a\<lparr>ua_base := fa_tick ms (ua_base a)\<rparr>)\<rparr>"

section \<open>Dropping segments at random\<close>

record ('a, 'r) LossyFdAdapter =
  la_rand :: 'r
  la_adapter :: 'a

text \<open>The generator is not used when the rate is zero.\<close>

definition la_should_drop :: "('r \<Rightarrow> 'r \<times> u32) \<Rightarrow> ('a, 'w) adapter \<Rightarrow> bool \<Rightarrow> ('a, 'r) LossyFdAdapter \<Rightarrow> ('a, 'r) LossyFdAdapter \<times> bool" where
  "la_should_drop rng ad uplink a =
     (let cfg = ap_config ad (la_adapter a);
          loss = (if uplink then fc_loss_rate_up cfg else fc_loss_rate_dn cfg)
      in if loss \<noteq> 0
         then let (rand, x) = rng (la_rand a) in (a\<lparr>la_rand := rand\<rparr>, (ucast x :: u16) < loss)
         else (a, False))"

definition la_read :: "('r \<Rightarrow> 'r \<times> u32) \<Rightarrow> ('a, 'w) adapter \<Rightarrow> ('a, 'r) LossyFdAdapter \<Rightarrow> 'w \<Rightarrow> ('w \<times> ('a, 'r) LossyFdAdapter \<times> TCPSegment option) res" where
  "la_read rng ad a w =
     bindE (ap_read ad (la_adapter a) w) (\<lambda>(w, inner, ret).
       let (a, dropped) = la_should_drop rng ad False (a\<lparr>la_adapter := inner\<rparr>)
       in if dropped then Inr (w, a, None) else Inr (w, a, ret))"

definition la_write ::
  "('r \<Rightarrow> 'r \<times> u32) \<Rightarrow> ('a, 'w) adapter \<Rightarrow> TCPSegment \<Rightarrow> ('a, 'r) LossyFdAdapter \<Rightarrow> 'w \<Rightarrow> ('w \<times> ('a, 'r) LossyFdAdapter \<times> TCPSegment) res" where
  "la_write rng ad seg a w =
     (let (a, dropped) = la_should_drop rng ad True a
      in if dropped then Inr (w, a, seg)
         else bindE (ap_write ad seg (la_adapter a) w) (\<lambda>(w, inner, seg). Inr (w, a\<lparr>la_adapter := inner\<rparr>, seg)))"

definition lossy_adapter :: "('r \<Rightarrow> 'r \<times> u32) \<Rightarrow> ('a, 'w) adapter \<Rightarrow> (('a, 'r) LossyFdAdapter, 'w) adapter" where
  "lossy_adapter rng ad =
     \<lparr>ap_fd = \<lambda>a. ap_fd ad (la_adapter a), ap_read = la_read rng ad, ap_write = la_write rng ad, ap_config = \<lambda>a. ap_config ad (la_adapter a),
      ap_set_config = \<lambda>c a. a\<lparr>la_adapter := ap_set_config ad c (la_adapter a)\<rparr>,
      ap_set_listening = \<lambda>l a. a\<lparr>la_adapter := ap_set_listening ad l (la_adapter a)\<rparr>,
      ap_tick = \<lambda>ms a w. bindE (ap_tick ad ms (la_adapter a) w) (\<lambda>(w, inner). Inr (w, a\<lparr>la_adapter := inner\<rparr>))\<rparr>"

section \<open>Segments in datagrams on a TUN device\<close>

definition SIZE_MAX :: nat where
  "SIZE_MAX = 2 ^ 64 - 1"

record TCPOverIPv4OverTunFdAdapter =
  ta_base :: FdAdapterBase
  ta_tun :: FDWrapper

definition ta_new :: "libc \<Rightarrow> FDWrapper \<Rightarrow> TCPOverIPv4OverTunFdAdapter res" where
  "ta_new lc tun = bindE (fa_new lc) (\<lambda>base. Inr \<lparr>ta_base = base, ta_tun = tun\<rparr>)"

definition ta_read ::
  "libc \<Rightarrow> 'w kernel \<Rightarrow> TCPOverIPv4OverTunFdAdapter \<Rightarrow> 'w \<Rightarrow> ('w \<times> TCPOverIPv4OverTunFdAdapter \<times> TCPSegment option) res" where
  "ta_read lc k a w =
     bindE (fd_read k SIZE_MAX (ta_tun a) w) (\<lambda>(w, tun, str).
     bindE (ip_parse (bf_new str) ip_default) (\<lambda>(ip_dgram, result).
       let a = a\<lparr>ta_tun := tun\<rparr>
       in if result \<noteq> NoError then Inr (w, a, None)
          else bindE (unwrap_tcp_in_ip lc ip_dgram (ta_base a)) (\<lambda>(base, seg). Inr (w, a\<lparr>ta_base := base\<rparr>, seg))))"

definition ta_write ::
  "libc \<Rightarrow> 'w kernel \<Rightarrow> TCPSegment \<Rightarrow> TCPOverIPv4OverTunFdAdapter \<Rightarrow> 'w \<Rightarrow> ('w \<times> TCPOverIPv4OverTunFdAdapter \<times> TCPSegment) res" where
  "ta_write lc k seg a w =
     bindE (wrap_tcp_in_ip lc seg (ta_base a)) (\<lambda>(seg, ip_dgram).
     bindE (ip_serialize ip_dgram) (\<lambda>bl.
     bindE (fd_write k (bv_of_list bl) True (ta_tun a) w) (\<lambda>(w, tun, _). Inr (w, a\<lparr>ta_tun := tun\<rparr>, seg))))"

definition tun_adapter :: "libc \<Rightarrow> 'w kernel \<Rightarrow> (TCPOverIPv4OverTunFdAdapter, 'w) adapter" where
  "tun_adapter lc k =
     \<lparr>ap_fd = ta_tun, ap_read = ta_read lc k, ap_write = ta_write lc k, ap_config = \<lambda>a. fa_config (ta_base a),
      ap_set_config = \<lambda>c a. a\<lparr>ta_base := fa_set_config c (ta_base a)\<rparr>,
      ap_set_listening = \<lambda>l a. a\<lparr>ta_base := fa_set_listening l (ta_base a)\<rparr>,
      ap_tick = \<lambda>ms a w. Inr (w, a\<lparr>ta_base := fa_tick ms (ta_base a)\<rparr>)\<rparr>"

section \<open>Segments in datagrams in frames on a TAP device\<close>

record TCPOverIPv4OverEthernetAdapter =
  ea_base :: FdAdapterBase
  ea_tap :: FDWrapper
  ea_interface :: NetworkInterface
  ea_next_hop :: Address

definition ea_new ::
  "libc \<Rightarrow> 'w kernel \<Rightarrow> FDWrapper \<Rightarrow> EthernetAddress \<Rightarrow> Address \<Rightarrow> Address \<Rightarrow> 'w \<Rightarrow> ('w \<times> TCPOverIPv4OverEthernetAdapter) res" where
  "ea_new lc k tap eth_address ip_address next_hop w =
     bindE (fa_new lc) (\<lambda>base.
     bindE (ni_new lc eth_address ip_address) (\<lambda>interf.
     bindE (fd_write k (bv_of_list (ef_serialize ef_default)) True tap w) (\<lambda>(w, tap, _).
       Inr (w, \<lparr>ea_base = base, ea_tap = tap, ea_interface = interf, ea_next_hop = next_hop\<rparr>))))"

text \<open>The loop of \<open>send_pending\<close>: the list is what is left in the queue of the interface.\<close>

primrec ea_send_loop :: "'w kernel \<Rightarrow> EthernetFrame list \<Rightarrow> TCPOverIPv4OverEthernetAdapter \<Rightarrow> 'w \<Rightarrow> ('w \<times> TCPOverIPv4OverEthernetAdapter) res" where
  "ea_send_loop k [] a w = Inr (w, a)"
| "ea_send_loop k (front # frames) a w =
     bindE (fd_write k (bv_of_list (ef_serialize front)) True (ea_tap a) w) (\<lambda>(w, tap, _).
       ea_send_loop k frames (a\<lparr>ea_tap := tap, ea_interface := (ea_interface a)\<lparr>ni_frames_out := frames\<rparr>\<rparr>) w)"

definition ea_send_pending :: "'w kernel \<Rightarrow> TCPOverIPv4OverEthernetAdapter \<Rightarrow> 'w \<Rightarrow> ('w \<times> TCPOverIPv4OverEthernetAdapter) res" where
  "ea_send_pending k a w = ea_send_loop k (ni_frames_out (ea_interface a)) a w"

definition ea_read ::
  "libc \<Rightarrow> 'w kernel \<Rightarrow> TCPOverIPv4OverEthernetAdapter \<Rightarrow> 'w \<Rightarrow> ('w \<times> TCPOverIPv4OverEthernetAdapter \<times> TCPSegment option) res" where
  "ea_read lc k a w =
     bindE (fd_read k SIZE_MAX (ea_tap a) w) (\<lambda>(w, tap, str).
     bindE (ef_parse (bf_new str) ef_default) (\<lambda>(frame, result).
       let a = a\<lparr>ea_tap := tap\<rparr>
       in if result \<noteq> NoError then Inr (w, a, None)
          else
            bindE (ni_recv_frame frame (ea_interface a)) (\<lambda>(interf, ip_dgram).
            bindE (ea_send_pending k (a\<lparr>ea_interface := interf\<rparr>) w) (\<lambda>(w, a).
              case ip_dgram of
                Some d \<Rightarrow> bindE (unwrap_tcp_in_ip lc d (ea_base a)) (\<lambda>(base, seg). Inr (w, a\<lparr>ea_base := base\<rparr>, seg))
              | None \<Rightarrow> Inr (w, a, None)))))"

definition ea_tick :: "'w kernel \<Rightarrow> u64 \<Rightarrow> TCPOverIPv4OverEthernetAdapter \<Rightarrow> 'w \<Rightarrow> ('w \<times> TCPOverIPv4OverEthernetAdapter) res" where
  "ea_tick k ms_since_last_tick a w = ea_send_pending k (a\<lparr>ea_interface := ni_tick ms_since_last_tick (ea_interface a)\<rparr>) w"

definition ea_write ::
  "libc \<Rightarrow> 'w kernel \<Rightarrow> TCPSegment \<Rightarrow> TCPOverIPv4OverEthernetAdapter \<Rightarrow> 'w \<Rightarrow> ('w \<times> TCPOverIPv4OverEthernetAdapter \<times> TCPSegment) res" where
  "ea_write lc k seg a w =
     bindE (wrap_tcp_in_ip lc seg (ea_base a)) (\<lambda>(seg, ip_dgram).
     bindE (ni_send_datagram ip_dgram (ea_next_hop a) (ea_interface a)) (\<lambda>interf.
     bindE (ea_send_pending k (a\<lparr>ea_interface := interf\<rparr>) w) (\<lambda>(w, a). Inr (w, a, seg))))"

definition ethernet_adapter :: "libc \<Rightarrow> 'w kernel \<Rightarrow> (TCPOverIPv4OverEthernetAdapter, 'w) adapter" where
  "ethernet_adapter lc k =
     \<lparr>ap_fd = ea_tap, ap_read = ea_read lc k, ap_write = ea_write lc k, ap_config = \<lambda>a. fa_config (ea_base a),
      ap_set_config = \<lambda>c a. a\<lparr>ea_base := fa_set_config c (ea_base a)\<rparr>,
      ap_set_listening = \<lambda>l a. a\<lparr>ea_base := fa_set_listening l (ea_base a)\<rparr>, ap_tick = ea_tick k\<rparr>"

section \<open>Frames on the device\<close>





section \<open>Losing segments\<close>

text \<open>
  A lossy adapter only loses. What it reads and writes is what the adapter under it does, except that a segment read may be turned into none and a segment written
  may not be written at all; and with a loss rate of zero it does exactly what the adapter under it does.
\<close>

theorem lossy_only_loses:
  shows "(case ap_read ad (la_adapter a) w of
      Inl e \<Rightarrow> la_read rng ad a w = Inl e
    | Inr (w', inner, seg) \<Rightarrow> \<exists>r s. la_read rng ad a w = Inr (w', \<lparr>la_rand = r, la_adapter = inner\<rparr>, s) \<and> s \<in> {seg, None} \<and>
        (fc_loss_rate_dn (ap_config ad inner) = 0 \<longrightarrow> s = seg \<and> r = la_rand a)) \<and>
    ((\<exists>r. la_write rng ad seg a w = Inr (w, a\<lparr>la_rand := r\<rparr>, seg) \<and> fc_loss_rate_up (ap_config ad (la_adapter a)) \<noteq> 0) \<or>
     (case ap_write ad seg (la_adapter a) w of
        Inl e \<Rightarrow> la_write rng ad seg a w = Inl e
      | Inr (w', inner, seg') \<Rightarrow> \<exists>r. la_write rng ad seg a w = Inr (w', \<lparr>la_rand = r, la_adapter = inner\<rparr>, seg')))"
proof (rule conjI, goal_cases)
  case 1
  show ?case by (cases a) (auto simp: la_read_def la_should_drop_def Let_def split: sum.splits prod.splits)
next
  case 2
  show ?case by (cases a) (auto simp: la_write_def la_should_drop_def Let_def split: sum.splits prod.splits)
qed

section \<open>Segments from endpoint to endpoint over UDP\<close>

text \<open>
  What the manual says of \<open>sendmsg\<close> on a datagram socket: it fails and sets \<open>errno\<close>, or it sends the whole datagram to the address and returns its length.
\<close>

definition k_sends :: "'w kernel \<Rightarrow> ('w \<Rightarrow> ((bytes \<times> nat) option \<times> bytes) list) \<Rightarrow> bool" where
  "k_sends k sent \<longleftrightarrow>
     (\<forall>fd dst vs w w' r. k_sendmsg k fd dst (bv_as_iovecs vs) w = (w', r) \<longrightarrow>
        - (2 ^ 31) \<le> r \<and> r < 2 ^ 31 \<and>
        (if r < 0 then k_errno k w' \<noteq> 0 else r = int (bv_size vs) \<and> sent w' = sent w @ [(dst, concat vs)]))"

lemma udp_sendto_sent:
  assumes "k_sends k sent" and "udp_sendto k a vs f w = Inr (w', f')"
  shows "sent w' = sent w @ [(Some (ad_storage a, ad_size a), concat vs)]"
proof -
  obtain w1 r where c: "k_sendmsg k (fw_fd f) (Some (ad_storage a, ad_size a)) (bv_as_iovecs vs) w = (w1, r)" by fastforce
  have r: "- (2 ^ 31) \<le> r" "r < 2 ^ 31" "r < 0 \<Longrightarrow> k_errno k w1 \<noteq> 0" "\<not> r < 0 \<Longrightarrow> sent w1 = sent w @ [(Some (ad_storage a, ad_size a), concat vs)]"
    using assms(1) c unfolding k_sends_def by (metis, metis, metis, metis)
  have "w' = w1" "\<not> r < 0" using assms(2) c r(1-3)
    by (auto simp: udp_sendto_def sendmsg_helper_def SystemCall_def to_int32_id bindE_Inr_iff simp del: bv_as_iovecs_eq split: if_splits)
  then show ?thesis using r(4) by simp
qed

lemma ua_read_segment:
  assumes "k_datagrams k inb" and "inb v = (d, src) # q" and "0 \<le> fst (snd (k_recvfrom k (fw_fd (ua_sock b)) UDP_MTU v))" and "length d \<le> UDP_MTU"
    and "ts_parse (bf_new d) 0 ts_default = Inr (seg, NoError)"
    and "if fa_listen (ua_base b) then th_syn (ts_header seg) \<and> \<not> th_rst (ts_header seg) else ad_eq src (fc_destination (fa_cfg (ua_base b)))"
  shows "\<exists>v' b'. ua_read k b v = Inr (v', b', Some seg) \<and> inb v' = q \<and> \<not> fa_listen (ua_base b') \<and>
    fa_cfg (ua_base b') = (if fa_listen (ua_base b) then (fa_cfg (ua_base b))\<lparr>fc_destination := src\<rparr> else fa_cfg (ua_base b))"
proof -
  obtain v' where v': "udp_recv k UDP_MTU (ua_sock b) v = Inr (v', fd_register_read (ua_sock b), \<lparr>rd_source_address = src, rd_payload = d\<rparr>)" "inb v' = q"
    by (rule udp_recv_cases [OF assms(1), of "ua_sock b" UDP_MTU v]) (use assms(2-4) in auto)
  show ?thesis using assms(5,6) v' by (cases "fa_listen (ua_base b)") (auto simp: ua_read_def ti_defs ad_neq_def Let_def)
qed

text \<open>
  C38. A segment written by one endpoint over UDP is sent as one datagram to the peer; an endpoint that receives this datagram, and is connected to the sender or, for a
  SYN, listening, reads the same segment with the ports and the checksum filled in, and is then connected to the sender.
\<close>

theorem udp_adapter_roundtrip:
  assumes "libc_ok lc" and "k_sends k sent" and "fa_v4 (ua_base a) ip port peer peer_port" and "ua_write lc k seg a w = Inr (w', a', seg')"
    and "5 \<le> th_doff (ts_header seg)" and "th_doff (ts_header seg) < 16" and "4 * unat (th_doff (ts_header seg)) + length (ts_payload seg) \<le> 65535"
    and "k_datagrams k2 inb" and "inb v = (snd (last (sent w')), ad_v4 ip port) # q" and "0 \<le> fst (snd (k_recvfrom k2 (fw_fd (ua_sock b)) UDP_MTU v))"
    and "if fa_listen (ua_base b) then th_syn (ts_header seg) \<and> \<not> th_rst (ts_header seg) else fc_destination (fa_cfg (ua_base b)) = ad_v4 ip port"
  shows "length (sent w') = length (sent w) + 1 \<and> fst (last (sent w')) = Some (ad_storage (ad_v4 peer peer_port), ad_size (ad_v4 peer peer_port)) \<and>
    (\<exists>v' b' ck. ua_read k2 b v = Inr (v', b', Some (seg\<lparr>ts_header := (ts_header seg)\<lparr>th_sport := port, th_dport := peer_port, th_cksum := ck\<rparr>\<rparr>)) \<and>
       inb v' = q \<and> \<not> fa_listen (ua_base b') \<and> fc_destination (fa_cfg (ua_base b')) = ad_v4 ip port)"
proof -
  let ?seg = "seg\<lparr>ts_header := (ts_header seg)\<lparr>th_sport := port, th_dport := peer_port\<rparr>\<rparr>"
  obtain bl ck where bl: "ts_serialize 0 ?seg = Inr bl" "length (bl_concatenate bl) = 4 * unat (th_doff (ts_header ?seg)) + length (ts_payload ?seg)"
    "\<forall>b. bf_wf b \<longrightarrow> bf_str b = bl_concatenate bl \<longrightarrow> ts_parse b 0 ts_default = Inr (?seg\<lparr>ts_header := (ts_header ?seg)\<lparr>th_cksum := ck\<rparr>\<rparr>, NoError)"
    using ts_roundtrip [of ?seg 0 ts_default] assms(5-7) by auto
  have ports: "ad_port lc (fc_source (fa_cfg (ua_base a))) = Inr port" "ad_port lc (ad_v4 peer peer_port) = Inr peer_port"
    "fc_destination (fa_cfg (ua_base a)) = ad_v4 peer peer_port"
    using assms(1,3) by (simp_all add: fa_v4_def ad_port_v4)
  have "\<exists>f'. udp_sendto k (ad_v4 peer peer_port) (bv_of_list bl) (ua_sock a) w = Inr (w', f')"
    using assms(4) by (auto simp: ua_write_def fa_config_def ports bl(1) bindE_Inr_iff Let_def simp del: bv_of_list_eq)
  then have sent: "sent w' = sent w @ [(Some (ad_storage (ad_v4 peer peer_port), ad_size (ad_v4 peer peer_port)), bl_concatenate bl)]"
    using udp_sendto_sent [OF assms(2)] by fastforce
  have p: "ts_parse (bf_new (bl_concatenate bl)) 0 ts_default = Inr (?seg\<lparr>ts_header := (ts_header ?seg)\<lparr>th_cksum := ck\<rparr>\<rparr>, NoError)"
    by (rule bl(3) [rule_format]) simp_all
  have "\<exists>v' b'. ua_read k2 b v = Inr (v', b', Some (?seg\<lparr>ts_header := (ts_header ?seg)\<lparr>th_cksum := ck\<rparr>\<rparr>)) \<and> inb v' = q \<and> \<not> fa_listen (ua_base b') \<and>
    fa_cfg (ua_base b') = (if fa_listen (ua_base b) then (fa_cfg (ua_base b))\<lparr>fc_destination := ad_v4 ip port\<rparr> else fa_cfg (ua_base b))"
    by (rule ua_read_segment [OF assms(8) _ assms(10) _ p]) (use assms(7,9,11) sent bl(2) in \<open>auto simp: UDP_MTU_def ad_eq_def\<close>)
  then show ?thesis using sent assms(11) by auto
qed

section \<open>Two endpoints\<close>

text \<open>A socket that keeps what is sent, the client and the server of an opening connection, and the SYN from one to the other.\<close>

definition kernel_send :: "((bytes \<times> nat) option \<times> bytes) list kernel" where
  "kernel_send = kernel_null\<lparr>k_errno := \<lambda>_. 90, k_sendmsg := \<lambda>_ dst iov w.
     if length (concat (map fst iov)) < 65536 then (w @ [(dst, concat (map fst iov))], int (length (concat (map fst iov)))) else (w, - 1)\<rparr>"

lemma kernel_send_ok: "k_sends kernel_send id"
  by (auto simp: k_sends_def kernel_send_def comp_def)

definition fd_open :: FDWrapper where
  "fd_open = \<lparr>fw_fd = 3, fw_eof = False, fw_closed = False, fw_read_count = 0, fw_write_count = 0\<rparr>"

definition ua_client :: TCPOverUDPSocketAdapter where
  "ua_client = \<lparr>ua_base = client_demo, ua_sock = fd_open\<rparr>"

definition ua_server :: TCPOverUDPSocketAdapter where
  "ua_server = \<lparr>ua_base = server_demo, ua_sock = fd_open\<rparr>"

lemma ad_v4_valid: "ad_of_sockaddr (ad_storage (ad_v4 ip port)) (ad_size (ad_v4 ip port)) = Inr (ad_v4 ip port)"
  by (simp add: ad_of_sockaddr_def ad_v4_def sizeof_storage_def)

lemma ua_client_sends:
  obtains d a' seg' where "ua_write libc_demo kernel_send syn_demo ua_client [] = Inr ([(Some (ad_storage (ad_v4 0x0a000002 80), 16), d)], a', seg')"
    and "\<forall>f. 0 \<le> fst (snd (k_recvfrom kernel_udp f UDP_MTU [(d, ad_v4 0x0a000001 5000)]))"
proof -
  let ?seg = "syn_demo\<lparr>ts_header := (ts_header syn_demo)\<lparr>th_sport := 5000, th_dport := 80\<rparr>\<rparr>"
  obtain bl where bl: "ts_serialize 0 ?seg = Inr bl" "length (bl_concatenate bl) = 20"
    using ts_roundtrip [of ?seg 0 ts_default] by (auto simp: syn_demo_def th_default_def TCPHeader_LENGTH_def)
  have send: "udp_sendto kernel_send (ad_v4 0x0a000002 80) (bv_of_list bl) fd_open [] =
    Inr ([(Some (ad_storage (ad_v4 0x0a000002 80), 16), bl_concatenate bl)], fd_register_write fd_open)"
    using bl(2) by (simp add: udp_sendto_def sendmsg_helper_def kernel_send_def comp_def SystemCall_def to_int32_def ad_v4_def)
  have cfg: "fc_source (fa_config (ua_base ua_client)) = ad_v4 0x0a000001 5000" "fc_destination (fa_config (ua_base ua_client)) = ad_v4 0x0a000002 80"
    "ua_sock ua_client = fd_open" by (simp_all add: ua_client_def client_demo_def fa_config_def)
  have "ua_write libc_demo kernel_send syn_demo ua_client [] =
    Inr ([(Some (ad_storage (ad_v4 0x0a000002 80), 16), bl_concatenate bl)], ua_client\<lparr>ua_sock := fd_register_write fd_open\<rparr>, ?seg)"
    unfolding ua_write_def Let_def cfg ad_port_v4 [OF libc_demo_ok] bindE_simps bl(1) send by simp
  moreover have "0 \<le> fst (snd (k_recvfrom kernel_udp f UDP_MTU [(bl_concatenate bl, ad_v4 0x0a000001 5000)]))" for f
    using bl(2) ad_v4_valid [of "0x0a000001" 5000] by (simp add: kernel_udp_def)
  ultimately show thesis using that by blast
qed

theorem udp_adapter_roundtrip_witness:
  "\<exists>w' a' seg' v v' b' ck. ua_write libc_demo kernel_send syn_demo ua_client [] = Inr (w', a', seg') \<and>
     ua_read kernel_udp ua_server v = Inr (v', b', Some (syn_demo\<lparr>ts_header := (ts_header syn_demo)\<lparr>th_sport := 5000, th_dport := 80, th_cksum := ck\<rparr>\<rparr>)) \<and>
     fc_destination (fa_cfg (ua_base b')) = ad_v4 0x0a000001 5000"
proof -
  obtain d a' seg' where w: "ua_write libc_demo kernel_send syn_demo ua_client [] = Inr ([(Some (ad_storage (ad_v4 0x0a000002 80), 16), d)], a', seg')"
    and r: "\<forall>f. 0 \<le> fst (snd (k_recvfrom kernel_udp f UDP_MTU [(d, ad_v4 0x0a000001 5000)]))" by (rule ua_client_sends)
  have "fa_v4 (ua_base ua_client) 0x0a000001 5000 0x0a000002 80" using demo_facts(1) by (simp add: ua_client_def)
  then show ?thesis
    using udp_adapter_roundtrip [OF libc_demo_ok kernel_send_ok _ w _ _ _ kernel_udp_ok, where ip = "0x0a000001" and port = 5000 and peer = "0x0a000002" and peer_port = 80
        and v = "[(d, ad_v4 0x0a000001 5000)]" and q = "[]" and b = ua_server] demo_facts r w
    by (fastforce simp: ua_server_def)
qed

lemma ua_server_reads:
  obtains v v' b' seg where "ua_read kernel_udp ua_server v = Inr (v', b', Some seg)" and "fc_loss_rate_dn (fa_cfg (ua_base b')) = 0"
proof -
  obtain bl seg where bl: "length (bl_concatenate bl) = 20" "th_syn (ts_header seg)" "\<not> th_rst (ts_header seg)"
    "ts_parse (bf_new (bl_concatenate bl)) 0 ts_default = Inr (seg, NoError)"
    using ts_roundtrip [of syn_demo 0 ts_default] demo_facts(4,5) by (fastforce simp: syn_demo_def th_default_def TCPHeader_LENGTH_def)
  have "\<exists>v' b'. ua_read kernel_udp ua_server [(bl_concatenate bl, ad_v4 1 1)] = Inr (v', b', Some seg) \<and> id v' = [] \<and> \<not> fa_listen (ua_base b') \<and>
    fa_cfg (ua_base b') = (if fa_listen (ua_base ua_server) then (fa_cfg (ua_base ua_server))\<lparr>fc_destination := ad_v4 1 1\<rparr> else fa_cfg (ua_base ua_server))"
    by (rule ua_read_segment [OF kernel_udp_ok _ _ _ bl(4)])
      (use bl(1-3) ad_v4_valid [of 1 1] in \<open>simp_all add: kernel_udp_def UDP_MTU_def ua_server_def server_demo_def\<close>)
  then show thesis using that by (auto simp: ua_server_def server_demo_def)
qed

theorem lossy_only_loses_witness:
  "\<exists>v v' b' seg. la_read (\<lambda>r. (r + 1, 0)) (udp_adapter libc_demo kernel_udp) \<lparr>la_rand = (7 :: nat), la_adapter = ua_server\<rparr> v =
     Inr (v', \<lparr>la_rand = 7, la_adapter = b'\<rparr>, Some seg)"
proof -
  obtain v v' b' seg where r: "ua_read kernel_udp ua_server v = Inr (v', b', Some seg)" "fc_loss_rate_dn (fa_cfg (ua_base b')) = 0" by (rule ua_server_reads)
  show ?thesis
    using conjunct1 [OF lossy_only_loses [where ad = "udp_adapter libc_demo kernel_udp" and a = "\<lparr>la_rand = (7 :: nat), la_adapter = ua_server\<rparr>" and w = v
        and rng = "\<lambda>r. (r + 1, 0)" and seg = seg]] r
    by (auto simp: udp_adapter_def fa_config_def)
qed


end
