(* ===== verification/Event_Loop.thy ===== *)
theory Event_Loop
  imports File_Descriptor "HOL-Library.Sublist"
begin

text \<open>
  Models \<^verbatim>\<open>libsponge/util/eventloop.hh\<close> and \<^verbatim>\<open>eventloop.cc\<close>. The state of the program is a pair of what its callbacks work on and of the system, and a
  callback is a function on such states that can fail. The descriptor of a rule is shared with the callbacks, so that it is a function of the state. Callbacks do
  not add rules to the loop that calls them.
\<close>

unbundle bit_operations_syntax

section \<open>Rules\<close>

datatype Direction = In | Out

definition POLLIN :: u16 where
  "POLLIN = 1"

definition POLLOUT :: u16 where
  "POLLOUT = 4"

definition POLLERR :: u16 where
  "POLLERR = 8"

definition POLLHUP :: u16 where
  "POLLHUP = 0x10"

definition POLLNVAL :: u16 where
  "POLLNVAL = 0x20"

definition EINTR :: int where
  "EINTR = 4"

fun dir_events :: "Direction \<Rightarrow> u16" where
  "dir_events In = POLLIN"
| "dir_events Out = POLLOUT"

record 's Rule =
  ru_fd :: "'s \<Rightarrow> FDWrapper"
  ru_direction :: Direction
  ru_callback :: "'s \<Rightarrow> 's res"
  ru_interest :: "'s \<Rightarrow> bool res"
  ru_cancel :: "'s \<Rightarrow> 's res"

definition ru_service_count :: "'s Rule \<Rightarrow> 's \<Rightarrow> u32" where
  "ru_service_count r s = (if ru_direction r = In then fw_read_count (ru_fd r s) else fw_write_count (ru_fd r s))"

datatype EventResult = Success | Timeout | Exit

definition el_add_rule :: "('s \<Rightarrow> FDWrapper) \<Rightarrow> Direction \<Rightarrow> ('s \<Rightarrow> 's res) \<Rightarrow> ('s \<Rightarrow> bool res) \<Rightarrow> ('s \<Rightarrow> 's res) \<Rightarrow> 's Rule list \<Rightarrow> 's Rule list" where
  "el_add_rule fd direction callback interest cancel rules =
     rules @ [\<lparr>ru_fd = fd, ru_direction = direction, ru_callback = callback, ru_interest = interest, ru_cancel = cancel\<rparr>]"

section \<open>Waiting for the next event\<close>

text \<open>The first loop: the rules that are kept, what is to be polled, and whether there is something to poll.\<close>

fun el_setup :: "'s Rule list \<Rightarrow> 's \<Rightarrow> ('s Rule list \<times> (int \<times> u16) list \<times> bool \<times> 's) res" where
  "el_setup [] s = Inr ([], [], False, s)"
| "el_setup (this_rule # rest) s =
     (if ru_direction this_rule = In \<and> fw_eof (ru_fd this_rule s) then bindE (ru_cancel this_rule s) (el_setup rest)
      else if fw_closed (ru_fd this_rule s) then bindE (ru_cancel this_rule s) (el_setup rest)
      else bindE (ru_interest this_rule s) (\<lambda>interested.
           let pollfd = (fw_fd (ru_fd this_rule s), if interested then dir_events (ru_direction this_rule) else 0)
           in bindE (el_setup rest s) (\<lambda>(rules, pollfds, something_to_poll, s).
              Inr (this_rule # rules, pollfd # pollfds, interested \<or> something_to_poll, s))))"

text \<open>A rule that is ready: the callback is called, and has to read or write the descriptor or to end the interest in it.\<close>

definition el_serve :: "'s Rule \<Rightarrow> 's \<Rightarrow> 's res" where
  "el_serve this_rule s =
     (let count_before = ru_service_count this_rule s
      in bindE (ru_callback this_rule s) (\<lambda>s.
         if count_before = ru_service_count this_rule s
         then bindE (ru_interest this_rule s) (\<lambda>interested. if interested then Inl RuntimeError else Inr s)
         else Inr s))"

text \<open>The second loop: the rules with the events asked for and the events that poll has returned. An index beyond the vector is undefined.\<close>

fun el_results :: "'s Rule list \<Rightarrow> (u16 \<times> u16) list \<Rightarrow> 's \<Rightarrow> ('s Rule list \<times> 's) res" where
  "el_results [] pollfds s = Inr ([], s)"
| "el_results (this_rule # rest) [] s = Inl UB"
| "el_results (this_rule # rest) ((events, revents) # pollfds) s =
     (let poll_error = (revents AND (POLLERR OR POLLNVAL) \<noteq> 0);
          poll_ready = (revents AND events \<noteq> 0);
          poll_hup = (revents AND POLLHUP \<noteq> 0)
      in if poll_error then Inl RuntimeError
         else if poll_hup \<and> events \<noteq> 0 \<and> \<not> poll_ready then bindE (ru_cancel this_rule s) (el_results rest pollfds)
         else bindE (if poll_ready then el_serve this_rule s else Inr s) (\<lambda>s.
              bindE (el_results rest pollfds s) (\<lambda>(rules, s). Inr (this_rule # rules, s))))"

text \<open>The events that poll fills in; where it fills in none they stay zero.\<close>

definition el_revents :: "(int \<times> u16) list \<Rightarrow> u16 list \<Rightarrow> (u16 \<times> u16) list" where
  "el_revents pollfds revents = zip (map snd pollfds) (take (length pollfds) revents @ replicate (length pollfds - length revents) 0)"

definition wait_next_event :: "'w kernel \<Rightarrow> int \<Rightarrow> ('p \<times> 'w) Rule list \<Rightarrow> 'p \<times> 'w \<Rightarrow> (('p \<times> 'w) Rule list \<times> ('p \<times> 'w) \<times> EventResult) res" where
  "wait_next_event k timeout_ms rules s =
     bindE (el_setup rules s) (\<lambda>(rules, pollfds, something_to_poll, (p, w)).
       if \<not> something_to_poll then Inr (rules, (p, w), Exit)
       else
         let (w, ret, revents) = k_poll k pollfds timeout_ms w;
             go = bindE (el_results rules (el_revents pollfds revents) (p, w)) (\<lambda>(rules, s). Inr (rules, s, Success))
         in case SystemCall k w ret 0 of
              Inr v \<Rightarrow> if v = 0 then Inr (rules, (p, w), Timeout) else go
            | Inl _ \<Rightarrow> if k_errno k w = EINTR then Inr (rules, (p, w), Exit) else go)"

section \<open>What the loop keeps\<close>

lemma subseq_set: "subseq xs ys \<Longrightarrow> set xs \<subseteq> set ys"
  by (auto elim: list_emb_set)

lemma el_setup_Cons:
  assumes "el_setup (r # rs) s = Inr (rs', fds, b, s')"
  obtains s1 where "ru_cancel r s = Inr s1" and "el_setup rs s1 = Inr (rs', fds, b, s')"
  | rs'' fds' b' where "rs' = r # rs''" and "length fds = Suc (length fds')" and "el_setup rs s = Inr (rs'', fds', b', s')"
proof (cases "ru_direction r = In \<and> fw_eof (ru_fd r s) \<or> fw_closed (ru_fd r s)")
  case True
  then show ?thesis using assms that(1) by (auto simp: bindE_Inr_iff split: if_splits)
next
  case False
  then obtain y where y: "el_setup rs s = Inr y" "rs' = r # fst y" "length fds = Suc (length (fst (snd y)))" "s' = snd (snd (snd y))"
    using assms by (cases "ru_interest r s"; cases "el_setup rs s") (auto simp: Let_def split: prod.splits)
  then show ?thesis using that(2) [of "fst y" "fst (snd y)" "fst (snd (snd y))"] by simp
qed

lemma el_setup_length: "el_setup rs s = Inr (rs', fds, b, s') \<Longrightarrow> length fds = length rs'"
proof (induction rs arbitrary: s rs' fds b s')
  case (Cons r rs)
  from Cons.prems show ?case by (rule el_setup_Cons) (use Cons.IH in \<open>fastforce\<close>)+
qed simp

lemma el_serve_Inr: "el_serve r s = Inr s' \<Longrightarrow> ru_callback r s = Inr s'"
  by (auto simp: el_serve_def Let_def bindE_Inr_iff split: if_splits)

lemma el_results_Cons:
  assumes "el_results (r # rs) (x # pfs) s = Inr (rs', s')"
  obtains s1 where "ru_cancel r s = Inr s1" and "el_results rs pfs s1 = Inr (rs', s')"
  | s1 rs'' where "s1 = s \<or> ru_callback r s = Inr s1" and "rs' = r # rs''" and "el_results rs pfs s1 = Inr (rs'', s')"
proof (cases x)
  case (Pair ev rev)
  show ?thesis using assms that unfolding Pair by (auto simp: bindE_Inr_iff Let_def split: if_splits dest: el_serve_Inr)
qed

lemma wait_next_event_cases:
  assumes "wait_next_event k t rs s = Inr (rs', s', result)"
  obtains fds where "el_setup rs s = Inr (rs', fds, False, s')" and "result = Exit"
  | rs1 p fds w w' ret rev where "el_setup rs s = Inr (rs1, fds, True, (p, w))" and "k_poll k fds t w = (w', ret, rev)" and "rs' = rs1" and "s' = (p, w')" and "result \<noteq> Success"
  | rs1 p fds w w' ret rev where "el_setup rs s = Inr (rs1, fds, True, (p, w))" and "k_poll k fds t w = (w', ret, rev)" and "el_results rs1 (el_revents fds rev) (p, w') = Inr (rs', s')" and "result = Success"
proof -
  obtain rs1 fds b p w where stp: "el_setup rs s = Inr (rs1, fds, b, (p, w))" using assms by (auto simp: wait_next_event_def bindE_Inr_iff)
  obtain w' ret rev where poll: "k_poll k fds t w = (w', ret, rev)" using prod_cases3 by blast
  show thesis
  proof (cases b)
    case False
    then show thesis using assms that(1) stp by (simp add: wait_next_event_def)
  next
    case True
    have "(rs' = rs1 \<and> s' = (p, w') \<and> result \<noteq> Success) \<or> (el_results rs1 (el_revents fds rev) (p, w') = Inr (rs', s') \<and> result = Success)"
      using assms unfolding wait_next_event_def stp bindE_simps by (auto simp: True poll bindE_Inr_iff Let_def split: sum.splits if_splits prod.splits)
    moreover have "el_setup rs s = Inr (rs1, fds, True, (p, w))" using stp True by simp
    ultimately show thesis using that(2,3) poll by blast
  qed
qed

text \<open>
  The contract of a program that runs in a loop: an invariant that every callback, every cancellation and every call of poll
  keeps.
\<close>

locale looped =
  fixes k :: "'w kernel" and rules :: "('p \<times> 'w) Rule list" and I :: "'p \<times> 'w \<Rightarrow> bool"
  assumes callback_keeps: "r \<in> set rules \<Longrightarrow> I s \<Longrightarrow> ru_callback r s = Inr s' \<Longrightarrow> I s'"
    and cancel_keeps: "r \<in> set rules \<Longrightarrow> I s \<Longrightarrow> ru_cancel r s = Inr s' \<Longrightarrow> I s'"
    and poll_keeps: "I (p, w) \<Longrightarrow> k_poll k fds t w = (w', ret, evs) \<Longrightarrow> I (p, w')"
begin

lemma setup_keeps: "set rs \<subseteq> set rules \<Longrightarrow> I s \<Longrightarrow> el_setup rs s = Inr (rs', fds, b, s') \<Longrightarrow> I s' \<and> subseq rs' rs"
proof (induction rs arbitrary: s rs' fds b s')
  case (Cons r rs)
  then have r: "r \<in> set rules" and rs: "set rs \<subseteq> set rules" by simp_all
  from Cons.prems(3) show ?case
    by (rule el_setup_Cons) (use Cons.IH [OF rs] cancel_keeps [OF r] Cons.prems(2) in \<open>blast\<close>)+
qed simp

lemma results_keeps: "set rs \<subseteq> set rules \<Longrightarrow> I s \<Longrightarrow> el_results rs pfs s = Inr (rs', s') \<Longrightarrow> I s' \<and> subseq rs' rs"
proof (induction rs arbitrary: s pfs rs' s')
  case (Cons r rs)
  then have r: "r \<in> set rules" and rs: "set rs \<subseteq> set rules" by simp_all
  obtain x pfs' where pfs: "pfs = x # pfs'" using Cons.prems(3) by (cases pfs) simp_all
  from Cons.prems(3) [unfolded pfs] show ?case
    by (rule el_results_Cons) (use Cons.IH [OF rs] cancel_keeps [OF r] callback_keeps [OF r] Cons.prems(2) in \<open>blast\<close>)+
qed simp

lemma wait_keeps:
  assumes "set rs \<subseteq> set rules" "I s" "wait_next_event k t rs s = Inr (rs', s', result)"
  shows "I s' \<and> subseq rs' rs"
  using assms(3)
proof (cases rule: wait_next_event_cases)
  case (1 fds)
  then show ?thesis using setup_keeps [OF assms(1,2)] by blast
next
  case (2 rs1 p fds w w' ret rev)
  then show ?thesis using setup_keeps [OF assms(1,2) 2(1)] poll_keeps by blast
next
  case (3 rs1 p fds w w' ret rev)
  have s: "I (p, w')" "subseq rs1 rs" using setup_keeps [OF assms(1,2) 3(1)] poll_keeps [OF _ 3(2)] by blast+
  have "set rs1 \<subseteq> set rules" using s(2) assms(1) subseq_set by blast
  then show ?thesis using results_keeps [OF _ s(1) 3(3)] s(2) subseq_order.trans by blast
qed

end

section \<open>Progress\<close>





text \<open>
  An error of poll other than an interruption is not reported: nothing is served, and the loop returns \<open>Success\<close>.
\<close>

theorem event_loop_poll_error:
  assumes "el_setup rules (p, w) = Inr (rs, fds, True, (p', w'))" and "k_poll k fds t w' = (w'', - 1, revents)" and "set revents \<subseteq> {0}"
    and "k_errno k w'' \<noteq> 0" and "k_errno k w'' \<noteq> EINTR"
  shows "wait_next_event k t rules (p, w) = Inr (rs, (p', w''), Success)"
proof -
  have "el_results rs (map (\<lambda>e. (e, 0)) es) (p', w'') = Inr (rs, (p', w''))" if "length es = length rs" for es
    using that by (induction rs arbitrary: es) (auto simp: length_Suc_conv)
  moreover have "take (length fds) revents @ replicate (length fds - length revents) 0 = replicate (length fds) 0"
    using assms(3) by (intro replicate_eqI) (auto dest!: in_set_takeD)
  then have "el_revents fds revents = map (\<lambda>e. (e, 0)) (map snd fds)" by (simp add: el_revents_def zip_replicate2)
  ultimately have go: "el_results rs (el_revents fds revents) (p', w'') = Inr (rs, (p', w''))" using el_setup_length [OF assms(1)] by (simp del: map_map)
  then show ?thesis using assms(1,2,4,5) by (auto simp: wait_next_event_def SystemCall_def to_int32_def)
qed

text \<open>A program with one rule: it reads from its descriptor.\<close>

definition el_demo :: "(FDWrapper \<times> bytes) Rule list" where
  "el_demo = el_add_rule fst In (\<lambda>(f, w). bindE (fd_read kernel_demo 10 f w) (\<lambda>(w, f, str). Inr (f, w))) (\<lambda>_. Inr True) Inr []"

definition fd_demo :: FDWrapper where
  "fd_demo = \<lparr>fw_fd = 3, fw_eof = False, fw_closed = False, fw_read_count = 0, fw_write_count = 0\<rparr>"





definition kernel_fault :: "bytes kernel" where
  "kernel_fault = kernel_demo\<lparr>k_errno := \<lambda>_. 14, k_poll := \<lambda>_ _ w. (w, - 1, [])\<rparr>"

theorem event_loop_poll_error_witness: "wait_next_event kernel_fault 10 el_demo (fd_demo, []) = Inr (el_demo, (fd_demo, []), Success)"
proof (rule event_loop_poll_error)
  show "el_setup el_demo (fd_demo, []) = Inr (el_demo, [(3, POLLIN)], True, (fd_demo, []))" by (simp add: el_demo_def el_add_rule_def fd_demo_def)
  show "k_poll kernel_fault [(3, POLLIN)] 10 [] = ([], - 1, [])" by (simp add: kernel_fault_def)
qed (simp_all add: kernel_fault_def EINTR_def)

end
