(* ===== verification/Tcp_State.thy ===== *)
theory Tcp_State
  imports Tcp_Receiver Tcp_Sender
begin

text \<open>
  Models \<^verbatim>\<open>libsponge/tcp_helpers/tcp_state.hh\<close> and \<^verbatim>\<open>tcp_state.cc\<close>: the summary of a connection as two
  strings and two flags, and its comparison with the official TCP states.
\<close>

section \<open>Model\<close>

record TCPState =
  st_sender :: string
  st_receiver :: string
  st_active :: bool
  st_linger_after_streams_finish :: bool

definition TCPState_eq :: "TCPState \<Rightarrow> TCPState \<Rightarrow> bool" where
  "TCPState_eq s other \<longleftrightarrow>
     st_active s = st_active other \<and> st_linger_after_streams_finish s = st_linger_after_streams_finish other \<and>
     st_sender s = st_sender other \<and> st_receiver s = st_receiver other"

definition TCPState_neq :: "TCPState \<Rightarrow> TCPState \<Rightarrow> bool" where
  "TCPState_neq s other \<longleftrightarrow> \<not> TCPState_eq s other"

datatype State =
    LISTEN | SYN_RCVD | SYN_SENT | ESTABLISHED | CLOSE_WAIT | LAST_ACK
  | FIN_WAIT_1 | FIN_WAIT_2 | CLOSING | TIME_WAIT | CLOSED | RESET

definition R_ERROR :: string where "R_ERROR = ''error (connection was reset)''"
definition R_LISTEN :: string where "R_LISTEN = ''waiting for SYN: ackno is empty''"
definition R_SYN_RECV :: string where "R_SYN_RECV = ''SYN received (ackno exists), and input to stream hasn't ended''"
definition R_FIN_RECV :: string where "R_FIN_RECV = ''input to stream has ended''"

definition S_ERROR :: string where "S_ERROR = ''error (connection was reset)''"
definition S_CLOSED :: string where "S_CLOSED = ''waiting for stream to begin (no SYN sent)''"
definition S_SYN_SENT :: string where "S_SYN_SENT = ''stream started but nothing acknowledged''"
definition S_SYN_ACKED :: string where "S_SYN_ACKED = ''stream ongoing''"
definition S_FIN_SENT :: string where "S_FIN_SENT = ''stream finished (FIN sent) but not fully acknowledged''"
definition S_FIN_ACKED :: string where "S_FIN_ACKED = ''stream finished and fully acknowledged''"

definition bool_to_string :: "bool \<Rightarrow> string" where
  "bool_to_string b = (if b then ''1'' else ''0'')"

definition TCPState_name :: "TCPState \<Rightarrow> string" where
  "TCPState_name s =
     ''sender=`'' @ st_sender s @ ''`, receiver=`'' @ st_receiver s @ ''`, active='' @ bool_to_string (st_active s) @
     '', linger_after_streams_finish='' @ bool_to_string (st_linger_after_streams_finish s)"

text \<open>The constructor from an official state; the flags start as \<open>true\<close>.\<close>

fun TCPState_official :: "State \<Rightarrow> TCPState" where
  "TCPState_official LISTEN =
     \<lparr>st_sender = S_CLOSED, st_receiver = R_LISTEN, st_active = True, st_linger_after_streams_finish = True\<rparr>"
| "TCPState_official SYN_RCVD =
     \<lparr>st_sender = S_SYN_SENT, st_receiver = R_SYN_RECV, st_active = True, st_linger_after_streams_finish = True\<rparr>"
| "TCPState_official SYN_SENT =
     \<lparr>st_sender = S_SYN_SENT, st_receiver = R_LISTEN, st_active = True, st_linger_after_streams_finish = True\<rparr>"
| "TCPState_official ESTABLISHED =
     \<lparr>st_sender = S_SYN_ACKED, st_receiver = R_SYN_RECV, st_active = True, st_linger_after_streams_finish = True\<rparr>"
| "TCPState_official CLOSE_WAIT =
     \<lparr>st_sender = S_SYN_ACKED, st_receiver = R_FIN_RECV, st_active = True, st_linger_after_streams_finish = False\<rparr>"
| "TCPState_official LAST_ACK =
     \<lparr>st_sender = S_FIN_SENT, st_receiver = R_FIN_RECV, st_active = True, st_linger_after_streams_finish = False\<rparr>"
| "TCPState_official CLOSING =
     \<lparr>st_sender = S_FIN_SENT, st_receiver = R_FIN_RECV, st_active = True, st_linger_after_streams_finish = True\<rparr>"
| "TCPState_official FIN_WAIT_1 =
     \<lparr>st_sender = S_FIN_SENT, st_receiver = R_SYN_RECV, st_active = True, st_linger_after_streams_finish = True\<rparr>"
| "TCPState_official FIN_WAIT_2 =
     \<lparr>st_sender = S_FIN_ACKED, st_receiver = R_SYN_RECV, st_active = True, st_linger_after_streams_finish = True\<rparr>"
| "TCPState_official TIME_WAIT =
     \<lparr>st_sender = S_FIN_ACKED, st_receiver = R_FIN_RECV, st_active = True, st_linger_after_streams_finish = True\<rparr>"
| "TCPState_official RESET =
     \<lparr>st_sender = S_ERROR, st_receiver = R_ERROR, st_active = False, st_linger_after_streams_finish = False\<rparr>"
| "TCPState_official CLOSED =
     \<lparr>st_sender = S_FIN_ACKED, st_receiver = R_FIN_RECV, st_active = False, st_linger_after_streams_finish = False\<rparr>"

definition rcv_state_summary :: "TCPReceiver \<Rightarrow> string" where
  "rcv_state_summary receiver =
     (if bs_error (rcv_stream_out receiver) then R_ERROR
      else if rcv_ackno receiver = None then R_LISTEN
      else if bs_input_ended (rcv_stream_out receiver) then R_FIN_RECV
      else R_SYN_RECV)"

definition snd_state_summary :: "TCPSender \<Rightarrow> string" where
  "snd_state_summary sender =
     (if bs_error (snd_stream sender) then S_ERROR
      else if snd_next_seqno sender = 0 then S_CLOSED
      else if snd_next_seqno sender = snd_bytes_in_flight sender then S_SYN_SENT
      else if \<not> bs_eof (snd_stream sender) then S_SYN_ACKED
      else if snd_next_seqno sender < bs_bytes_written (snd_stream sender) + 2 then S_SYN_ACKED
      else if snd_bytes_in_flight sender \<noteq> 0 then S_FIN_SENT
      else S_FIN_ACKED)"

definition TCPState_of :: "TCPSender \<Rightarrow> TCPReceiver \<Rightarrow> bool \<Rightarrow> bool \<Rightarrow> TCPState" where
  "TCPState_of sender receiver active linger =
     \<lparr>st_sender = snd_state_summary sender, st_receiver = rcv_state_summary receiver, st_active = active,
      st_linger_after_streams_finish = (if active then linger else False)\<rparr>"

section \<open>Lemmas\<close>

lemmas summary_defs =
  R_ERROR_def R_LISTEN_def R_SYN_RECV_def R_FIN_RECV_def
  S_ERROR_def S_CLOSED_def S_SYN_SENT_def S_SYN_ACKED_def S_FIN_SENT_def S_FIN_ACKED_def

lemma TCPState_eq_iff: "TCPState_eq s t \<longleftrightarrow> s = t"
  by (auto simp: TCPState_eq_def)

lemma summaries_distinct [simp]:
  "distinct [R_ERROR, R_LISTEN, R_SYN_RECV, R_FIN_RECV]" 
  "distinct [S_ERROR, S_CLOSED, S_SYN_SENT, S_SYN_ACKED, S_FIN_SENT, S_FIN_ACKED]"
  by (simp_all add: summary_defs)

text \<open>What the names of the two summaries say about the counters of the sender and the receiver.\<close>

lemma snd_state_summary_closed: "snd_state_summary s = S_CLOSED \<longleftrightarrow> \<not> bs_error (snd_stream s) \<and> snd_next_seqno s = 0"
  using summaries_distinct(2) by (auto simp: snd_state_summary_def)

lemma snd_state_summary_fin_acked:
  "snd_state_summary s = S_FIN_ACKED \<longleftrightarrow> \<not> bs_error (snd_stream s) \<and> snd_next_seqno s \<noteq> 0 \<and> bs_eof (snd_stream s) \<and>
     bs_bytes_written (snd_stream s) + 2 \<le> snd_next_seqno s \<and> snd_bytes_in_flight s = 0"
  using summaries_distinct(2) by (auto simp: snd_state_summary_def not_less)

end
