(* ===== verification/Tcp_Connection.thy ===== *)
theory Tcp_Connection
  imports Tcp_State
begin

text \<open>
  Models \<^verbatim>\<open>libsponge/tcp_connection.hh\<close> and \<^verbatim>\<open>tcp_connection.cc\<close>: the endpoint that joins a sender and a
  receiver, answers segments, and decides when the connection is over. The operations return
  \<open>res\<close> where the receiver or the timer of the sender can fail.
\<close>

section \<open>Model\<close>

record TCPConnection =
  cn_cfg :: TCPConfig
  cn_receiver :: TCPReceiver
  cn_sender :: TCPSender
  cn_segments_out :: "TCPSegment list"
  cn_linger_after_streams_finish :: bool
  cn_lingering :: bool
  cn_fin_acked :: bool
  cn_newest_seg_time :: u64
  cn_first_send_fin :: bool
  cn_first_receive_fin :: bool
  cn_self_fin_seqno :: u64
  cn_self_fin_acked :: bool
  cn_peer_fin_seqno :: u64
  cn_peer_fin_acking :: bool
  cn_rst :: bool

definition cn_new :: "TCPConfig \<Rightarrow> u32 \<Rightarrow> TCPConnection" where
  "cn_new cfg random =
     \<lparr>cn_cfg = cfg, cn_receiver = rcv_new (cfg_recv_capacity cfg),
      cn_sender = snd_new (cfg_send_capacity cfg) (cfg_rt_timeout cfg) (cfg_fixed_isn cfg) random,
      cn_segments_out = [], cn_linger_after_streams_finish = True, cn_lingering = False, cn_fin_acked = False,
      cn_newest_seg_time = 0, cn_first_send_fin = False, cn_first_receive_fin = False, cn_self_fin_seqno = 0,
      cn_self_fin_acked = False, cn_peer_fin_seqno = 0, cn_peer_fin_acking = False, cn_rst = False\<rparr>"

definition cn_remaining_outbound_capacity :: "TCPConnection \<Rightarrow> u64" where
  "cn_remaining_outbound_capacity c = bs_remaining_capacity (snd_stream (cn_sender c))"

definition cn_bytes_in_flight :: "TCPConnection \<Rightarrow> u64" where
  "cn_bytes_in_flight c = snd_bytes_in_flight (cn_sender c)"

definition cn_unassembled_bytes :: "TCPConnection \<Rightarrow> u64" where
  "cn_unassembled_bytes c = rcv_unassembled_bytes (cn_receiver c)"

definition cn_time_since_last_segment_received :: "TCPConnection \<Rightarrow> u64" where
  "cn_time_since_last_segment_received c = cn_newest_seg_time c"

definition cn_inbound_stream :: "TCPConnection \<Rightarrow> ByteStream" where
  "cn_inbound_stream c = rcv_stream_out (cn_receiver c)"

definition cn_active :: "TCPConnection \<Rightarrow> bool" where
  "cn_active c \<longleftrightarrow> \<not> (cn_self_fin_acked c \<and> cn_peer_fin_acking c \<and> \<not> cn_lingering c) \<and> \<not> cn_rst c"

definition cn_state :: "TCPConnection \<Rightarrow> TCPState" where
  "cn_state c = TCPState_of (cn_sender c) (cn_receiver c) (cn_active c) (cn_linger_after_streams_finish c)"

text \<open>The two streams of the connection, as the code updates them in place.\<close>

definition cn_map_stream_in :: "(ByteStream \<Rightarrow> ByteStream) \<Rightarrow> TCPConnection \<Rightarrow> TCPConnection" where
  "cn_map_stream_in f c = c\<lparr>cn_sender := (cn_sender c)\<lparr>snd_stream := f (snd_stream (cn_sender c))\<rparr>\<rparr>"

definition cn_map_stream_out :: "(ByteStream \<Rightarrow> ByteStream) \<Rightarrow> TCPConnection \<Rightarrow> TCPConnection" where
  "cn_map_stream_out f c = c\<lparr>cn_receiver := rcv_set_stream_out (f (rcv_stream_out (cn_receiver c))) (cn_receiver c)\<rparr>"

definition cn_unwrap_sender :: "WrappingInt32 \<Rightarrow> TCPConnection \<Rightarrow> u64" where
  "cn_unwrap_sender number c = unwrap number (snd_isn (cn_sender c)) (snd_next_seqno (cn_sender c))"

definition cn_unwrap_receiver :: "WrappingInt32 \<Rightarrow> TCPConnection \<Rightarrow> u64" where
  "cn_unwrap_receiver number c = unwrap number (rcv_isn (cn_receiver c)) (rcv_abs_ackno (cn_receiver c))"

definition cn_reset :: "bool \<Rightarrow> TCPConnection \<Rightarrow> TCPConnection" where
  "cn_reset is_active c =
     (let c1 = cn_map_stream_out bs_set_error (cn_map_stream_in bs_set_error c);
          c2 = c1\<lparr>cn_linger_after_streams_finish := False, cn_rst := True\<rparr>
      in if is_active
         then c2\<lparr>cn_segments_out := cn_segments_out c2 @ [ts_default\<lparr>ts_header := th_default\<lparr>th_rst := True\<rparr>\<rparr>]\<rparr>
         else c2)"

definition cn_check_linger :: "TCPConnection \<Rightarrow> TCPConnection" where
  "cn_check_linger c =
     (if cn_self_fin_acked c \<and> cn_peer_fin_acking c
      then if cn_linger_after_streams_finish c then c\<lparr>cn_lingering := True\<rparr>
           else cn_map_stream_out bs_end_input (cn_map_stream_in bs_end_input c)
      else c)"

definition cn_fill_seg_fields :: "TCPConnection \<Rightarrow> TCPSegment \<Rightarrow> TCPSegment" where
  "cn_fill_seg_fields c seg =
     (let header = (ts_header seg)\<lparr>th_win := ucast (rcv_window_size (cn_receiver c))\<rparr>;
          header' = (case rcv_ackno (cn_receiver c) of
                       Some ackno \<Rightarrow> header\<lparr>th_ack := True, th_ackno := ackno\<rparr>
                     | None \<Rightarrow> header)
      in seg\<lparr>ts_header := header'\<rparr>)"

text \<open>The first statement of \<open>check_send_fin\<close> and of \<open>check_rcv_fin\<close>: a FIN is noted.\<close>

definition cn_note_send_fin :: "TCPSegment \<Rightarrow> TCPConnection \<Rightarrow> TCPConnection" where
  "cn_note_send_fin seg c =
     (if th_fin (ts_header seg)
      then let c0 = (if \<not> cn_first_receive_fin c then c\<lparr>cn_first_send_fin := True\<rparr> else c)
           in c0\<lparr>cn_self_fin_seqno := cn_unwrap_sender (th_seqno (ts_header seg)) c0 + length_in_sequence_space seg\<rparr>
      else c)"

definition cn_check_send_fin :: "TCPSegment \<Rightarrow> TCPConnection \<Rightarrow> TCPConnection" where
  "cn_check_send_fin seg c =
     (let c1 = cn_note_send_fin seg c
      in if cn_peer_fin_seqno c1 > 0 \<and> th_ack (ts_header seg) \<and>
            cn_unwrap_receiver (th_ackno (ts_header seg)) c1 \<ge> cn_peer_fin_seqno c1
         then cn_check_linger (c1\<lparr>cn_peer_fin_acking := True\<rparr>)
         else c1)"

definition cn_note_rcv_fin :: "TCPSegment \<Rightarrow> TCPConnection \<Rightarrow> TCPConnection" where
  "cn_note_rcv_fin seg c =
     (if th_fin (ts_header seg)
      then let c0 = (if \<not> cn_first_send_fin c
                     then c\<lparr>cn_first_receive_fin := True, cn_linger_after_streams_finish := False\<rparr> else c)
           in c0\<lparr>cn_peer_fin_seqno := cn_unwrap_receiver (th_seqno (ts_header seg)) c0 + length_in_sequence_space seg\<rparr>
      else c)"

definition cn_check_rcv_fin :: "TCPSegment \<Rightarrow> TCPConnection \<Rightarrow> TCPConnection" where
  "cn_check_rcv_fin seg c =
     (let c1 = cn_note_rcv_fin seg c
      in if cn_self_fin_seqno c1 > 0 \<and> th_ack (ts_header seg) \<and>
            cn_unwrap_sender (th_ackno (ts_header seg)) c1 \<ge> cn_self_fin_seqno c1
         then cn_check_linger (c1\<lparr>cn_self_fin_acked := True\<rparr>)
         else c1)"

text \<open>The body and the loop of \<open>send_segs\<close>: the list is what is left in the queue of the sender.\<close>

definition cn_send_one :: "TCPSegment \<Rightarrow> TCPSegment list \<Rightarrow> TCPConnection \<Rightarrow> TCPConnection" where
  "cn_send_one front seg_queue c =
     (let seg = cn_fill_seg_fields c front;
          c1 = cn_check_send_fin seg c
      in c1\<lparr>cn_sender := (cn_sender c1)\<lparr>snd_segments_out := seg_queue\<rparr>, cn_segments_out := cn_segments_out c1 @ [seg]\<rparr>)"

primrec cn_send_loop :: "TCPSegment list \<Rightarrow> TCPConnection \<Rightarrow> TCPConnection" where
  "cn_send_loop [] c = c"
| "cn_send_loop (front # seg_queue) c = cn_send_loop seg_queue (cn_send_one front seg_queue c)"

definition cn_send_segs :: "TCPConnection \<Rightarrow> TCPConnection" where
  "cn_send_segs c = cn_send_loop (snd_segments_out (cn_sender c)) c"

definition cn_map_sender :: "(TCPSender \<Rightarrow> TCPSender) \<Rightarrow> TCPConnection \<Rightarrow> TCPConnection" where
  "cn_map_sender f c = c\<lparr>cn_sender := f (cn_sender c)\<rparr>"

text \<open>Whether the segment has to be answered by an empty one, and what it does to the sender.\<close>

definition cn_must_ack :: "TCPSegment \<Rightarrow> TCPConnection \<Rightarrow> bool" where
  "cn_must_ack seg c \<longleftrightarrow>
     snd_next_seqno (cn_sender c) > 0 \<and> snd_segments_out (cn_sender c) = [] \<and>
     (length_in_sequence_space seg > 0 \<or>
      (case rcv_ackno (cn_receiver c) of
         Some ackno \<Rightarrow> th_seqno (ts_header seg) = wi_minus ackno 1
       | None \<Rightarrow> False))"

definition cn_to_sender :: "TCPSegment \<Rightarrow> TCPConnection \<Rightarrow> TCPConnection" where
  "cn_to_sender seg c =
     (if th_ack (ts_header seg) then cn_map_sender (snd_ack_received (th_ackno (ts_header seg)) (th_win (ts_header seg))) c
      else if th_syn (ts_header seg) then cn_map_sender snd_fill_window c
      else c)"

definition cn_segment_received :: "TCPSegment \<Rightarrow> TCPConnection \<Rightarrow> TCPConnection res" where
  "cn_segment_received seg c =
     (if th_rst (ts_header seg) then Inr (cn_reset False c)
      else let c1 = cn_check_rcv_fin seg c
           in bindE (rcv_segment_received seg (cn_receiver c1)) (\<lambda>r.
              let c2 = cn_to_sender seg (c1\<lparr>cn_receiver := r\<rparr>);
                  c3 = (if cn_must_ack seg c2 then cn_map_sender snd_send_empty_segment c2 else c2)
              in Inr (cn_send_segs (c3\<lparr>cn_newest_seg_time := 0\<rparr>))))"

definition cn_write :: "bytes \<Rightarrow> TCPConnection \<Rightarrow> TCPConnection \<times> u64" where
  "cn_write data c =
     (if data = [] then (c, 0)
      else let (st, res) = bs_write data (snd_stream (cn_sender c));
               c1 = cn_map_stream_in (\<lambda>_. st) c
           in (cn_send_segs (cn_map_sender snd_fill_window c1), res))"

definition cn_tick :: "u64 \<Rightarrow> TCPConnection \<Rightarrow> TCPConnection res" where
  "cn_tick ms_since_last_tick c0 =
     (let c = c0\<lparr>cn_newest_seg_time := cn_newest_seg_time c0 + ms_since_last_tick\<rparr>
      in if snd_fail_count (cn_sender c) \<ge> ucast MAX_RETX_ATTEMPTS then Inr (cn_reset True c)
         else if \<not> cn_lingering c
         then bindE (snd_tick ms_since_last_tick (cn_sender c)) (\<lambda>s. Inr (cn_send_segs (c\<lparr>cn_sender := s\<rparr>)))
         else if cn_newest_seg_time c \<ge> 10 * ucast (cfg_rt_timeout (cn_cfg c))
         then Inr (cn_send_segs ((cn_map_stream_out bs_end_input c)\<lparr>cn_lingering := False\<rparr>))
         else Inr (cn_send_segs c))"

definition cn_end_input_stream :: "TCPConnection \<Rightarrow> TCPConnection" where
  "cn_end_input_stream c = cn_send_segs (cn_map_sender snd_fill_window (cn_map_stream_in bs_end_input c))"

definition cn_connect :: "TCPConnection \<Rightarrow> TCPConnection" where
  "cn_connect c = cn_send_segs (cn_map_sender snd_fill_window c)"

text \<open>The destructor: an active connection is reset.\<close>

definition cn_destroy :: "TCPConnection \<Rightarrow> TCPConnection" where
  "cn_destroy c = (if cn_active c then cn_reset True c else c)"

end
