(* ===== verification/Sponge_Socket.thy ===== *)
theory Sponge_Socket
  imports Fd_Adapters Event_Loop Tcp_Connection
begin

text \<open>
  Models \<^verbatim>\<open>libsponge/tcp_helpers/tcp_sponge_socket.hh\<close> and \<^verbatim>\<open>tcp_sponge_socket.cc\<close>: the socket that runs a TCP connection between a stream socket
  to its owner and an adapter. The adapter is a record of operations, for the template parameter \<open>AdaptT\<close>. The event loop is kept beside the other members, since its rules are
  functions on them. The model is that of the thread that runs the connection; the flag \<open>_abort\<close>, which the owner's thread can set at any time, is a function of the state of the
  system. A loop is given the number of rounds it may make and says whether it has ended. Text for \<open>cerr\<close> is left out, the calls that make it and can throw are not.
\<close>

unbundle bit_operations_syntax

section \<open>State\<close>

record 'a TCPSpongeSocket =
  sp_socket :: FDWrapper
  sp_thread_data :: FDWrapper
  sp_datagram_adapter :: 'a
  sp_tcp :: "TCPConnection option"
  sp_inbound_shutdown :: bool
  sp_outbound_shutdown :: bool
  sp_fully_acked :: bool
  sp_tcp_thread :: bool
  sp_program_start :: "int option"

type_synonym ('a, 'w) sp_state = "'a TCPSpongeSocket \<times> 'w"

text \<open>Access to the connection with an arrow, and with \<open>value\<close>.\<close>

definition sp_deref :: "'a TCPSpongeSocket \<Rightarrow> TCPConnection res" where
  "sp_deref p = (case sp_tcp p of Some c \<Rightarrow> Inr c | None \<Rightarrow> Inl UB)"

definition sp_value :: "'a TCPSpongeSocket \<Rightarrow> TCPConnection res" where
  "sp_value p = (case sp_tcp p of Some c \<Rightarrow> Inr c | None \<Rightarrow> Inl BadOptionalAccess)"

text \<open>The address that debugging output prints.\<close>

definition sp_print_destination :: "libc \<Rightarrow> ('a, 'w) adapter \<Rightarrow> 'a TCPSpongeSocket \<Rightarrow> string res" where
  "sp_print_destination lc ad p = ad_to_string lc (fc_destination (ap_config ad (sp_datagram_adapter p)))"

section \<open>The four rules\<close>

text \<open>Rule 1: segments from the adapter are given to the connection.\<close>

definition sp_read_segment :: "libc \<Rightarrow> ('a, 'w) adapter \<Rightarrow> ('a, 'w) sp_state \<Rightarrow> ('a, 'w) sp_state res" where
  "sp_read_segment lc ad = (\<lambda>(p, w).
     bindE (ap_read ad (sp_datagram_adapter p) w) (\<lambda>(w, a, seg).
     let p = p\<lparr>sp_datagram_adapter := a\<rparr>
     in bindE (case seg of
                 None \<Rightarrow> Inr p
               | Some seg \<Rightarrow> bindE (sp_deref p) (\<lambda>c. bindE (cn_segment_received seg c) (\<lambda>c. Inr (p\<lparr>sp_tcp := Some c\<rparr>)))) (\<lambda>p.
        if \<not> fw_eof (sp_thread_data p) then Inr (p, w)
        else bindE (sp_value p) (\<lambda>c.
             if cn_bytes_in_flight c = 0 \<and> \<not> sp_fully_acked p
             then bindE (sp_print_destination lc ad p) (\<lambda>_. Inr (p\<lparr>sp_fully_acked := True\<rparr>, w))
             else Inr (p, w)))))"

definition sp_wants_segment :: "('a, 'w) sp_state \<Rightarrow> bool res" where
  "sp_wants_segment = (\<lambda>(p, w). bindE (sp_deref p) (\<lambda>c. Inr (cn_active c)))"

text \<open>Rule 2: bytes from the owner are given to the connection.\<close>

definition sp_end_outbound :: "('a, 'w) sp_state \<Rightarrow> ('a, 'w) sp_state res" where
  "sp_end_outbound = (\<lambda>(p, w). bindE (sp_deref p) (\<lambda>c. Inr (p\<lparr>sp_tcp := Some (cn_end_input_stream c), sp_outbound_shutdown := True\<rparr>, w)))"

definition sp_read_data :: "libc \<Rightarrow> 'w kernel \<Rightarrow> ('a, 'w) adapter \<Rightarrow> ('a, 'w) sp_state \<Rightarrow> ('a, 'w) sp_state res" where
  "sp_read_data lc k ad = (\<lambda>(p, w).
     bindE (sp_deref p) (\<lambda>c.
     bindE (fd_read k (unat (cn_remaining_outbound_capacity c)) (sp_thread_data p) w) (\<lambda>(w, f, data).
     let (c, amount_written) = cn_write data c;
         p = p\<lparr>sp_thread_data := f, sp_tcp := Some c\<rparr>
     in if amount_written \<noteq> of_nat (length data) then Inl RuntimeError
        else if fw_eof (sp_thread_data p)
        then bindE (sp_end_outbound (p, w)) (\<lambda>(p, w). bindE (sp_print_destination lc ad p) (\<lambda>_. Inr (p, w)))
        else Inr (p, w))))"

definition sp_wants_data :: "('a, 'w) sp_state \<Rightarrow> bool res" where
  "sp_wants_data = (\<lambda>(p, w). bindE (sp_deref p) (\<lambda>c. Inr (cn_active c \<and> \<not> sp_outbound_shutdown p \<and> cn_remaining_outbound_capacity c > 0)))"

text \<open>Rule 3: bytes that the connection has reassembled are given to the owner.\<close>

definition sp_write_data :: "libc \<Rightarrow> 'w kernel \<Rightarrow> ('a, 'w) adapter \<Rightarrow> ('a, 'w) sp_state \<Rightarrow> ('a, 'w) sp_state res" where
  "sp_write_data lc k ad = (\<lambda>(p, w).
     bindE (sp_deref p) (\<lambda>c.
     let inbound = cn_inbound_stream c;
         amount_to_write = min 65536 (bs_buffer_size inbound);
         buffer = bs_peek_output amount_to_write inbound
     in bindE (fd_write_str k buffer False (sp_thread_data p) w) (\<lambda>(w, f, bytes_written).
        let c = cn_map_stream_out (bs_pop_output (of_nat bytes_written)) c;
            inbound = cn_inbound_stream c;
            p = p\<lparr>sp_thread_data := f, sp_tcp := Some c\<rparr>
        in if bs_eof inbound \<or> bs_error inbound
           then bindE (sock_shutdown k SHUT_WR (sp_thread_data p) w) (\<lambda>(w, f).
                let p = p\<lparr>sp_thread_data := f, sp_inbound_shutdown := True\<rparr>
                in bindE (sp_print_destination lc ad p) (\<lambda>_. Inr (p, w)))
           else Inr (p, w))))"

definition sp_wants_output :: "('a, 'w) sp_state \<Rightarrow> bool res" where
  "sp_wants_output = (\<lambda>(p, w).
     bindE (sp_deref p) (\<lambda>c.
     let inbound = cn_inbound_stream c
     in Inr (\<not> bs_buffer_empty inbound \<or> (bs_eof inbound \<or> bs_error inbound) \<and> \<not> sp_inbound_shutdown p)))"

text \<open>Rule 4: segments of the connection are given to the adapter; the list is what is left in the queue.\<close>

primrec sp_write_loop :: "('a, 'w) adapter \<Rightarrow> TCPSegment list \<Rightarrow> ('a, 'w) sp_state \<Rightarrow> ('a, 'w) sp_state res" where
  "sp_write_loop ad [] s = Inr s"
| "sp_write_loop ad (seg # segs) s =
     (case s of (p, w) \<Rightarrow>
        bindE (ap_write ad seg (sp_datagram_adapter p) w) (\<lambda>(w, a, _).
        bindE (sp_deref p) (\<lambda>c.
          sp_write_loop ad segs (p\<lparr>sp_datagram_adapter := a, sp_tcp := Some (c\<lparr>cn_segments_out := segs\<rparr>)\<rparr>, w))))"

definition sp_write_segments :: "('a, 'w) adapter \<Rightarrow> ('a, 'w) sp_state \<Rightarrow> ('a, 'w) sp_state res" where
  "sp_write_segments ad = (\<lambda>(p, w). bindE (sp_deref p) (\<lambda>c. sp_write_loop ad (cn_segments_out c) (p, w)))"

definition sp_has_segments :: "('a, 'w) sp_state \<Rightarrow> bool res" where
  "sp_has_segments = (\<lambda>(p, w). bindE (sp_deref p) (\<lambda>c. Inr (cn_segments_out c \<noteq> [])))"

definition sp_rules :: "libc \<Rightarrow> 'w kernel \<Rightarrow> ('a, 'w) adapter \<Rightarrow> ('a, 'w) sp_state Rule list \<Rightarrow> ('a, 'w) sp_state Rule list" where
  "sp_rules lc k ad rules =
     (let rules = el_add_rule (\<lambda>(p, w). ap_fd ad (sp_datagram_adapter p)) In (sp_read_segment lc ad) sp_wants_segment Inr rules;
          rules = el_add_rule (\<lambda>(p, w). sp_thread_data p) In (sp_read_data lc k ad) sp_wants_data sp_end_outbound rules;
          rules = el_add_rule (\<lambda>(p, w). sp_thread_data p) Out (sp_write_data lc k ad) sp_wants_output Inr rules
      in el_add_rule (\<lambda>(p, w). ap_fd ad (sp_datagram_adapter p)) Out (sp_write_segments ad) sp_has_segments Inr rules)"

text \<open>The connection draws its initial sequence number from the random device.\<close>

definition sp_initialize_TCP ::
  "libc \<Rightarrow> 'w kernel \<Rightarrow> ('a, 'w) adapter \<Rightarrow> TCPConfig \<Rightarrow> ('a, 'w) sp_state Rule list \<Rightarrow> ('a, 'w) sp_state \<Rightarrow> ('a, 'w) sp_state Rule list \<times> ('a, 'w) sp_state" where
  "sp_initialize_TCP lc k ad config rules = (\<lambda>(p, w).
     let (w, random) = k_random k w
     in (sp_rules lc k ad rules, (p\<lparr>sp_tcp := Some (cn_new config random)\<rparr>, w)))"

section \<open>Running the connection\<close>

definition TCP_TICK_MS :: int where
  "TCP_TICK_MS = 10"

definition sp_timestamp :: "'w kernel \<Rightarrow> ('a, 'w) sp_state \<Rightarrow> ('a, 'w) sp_state \<times> u64" where
  "sp_timestamp k = (\<lambda>(p, w). let (w, start, t) = timestamp_ms k (sp_program_start p) w in ((p\<lparr>sp_program_start := start\<rparr>, w), t))"

text \<open>What a round of the loop does after the event: time passes for an active connection and for the adapter.\<close>

definition sp_pass_time :: "'w kernel \<Rightarrow> ('a, 'w) adapter \<Rightarrow> u64 \<Rightarrow> ('a, 'w) sp_state \<Rightarrow> (u64 \<times> ('a, 'w) sp_state) res" where
  "sp_pass_time k ad base_time s =
     bindE (sp_value (fst s)) (\<lambda>c.
       if \<not> cn_active c then Inr (base_time, s)
       else
         let ((p, w), next_time) = sp_timestamp k s
         in bindE (sp_value p) (\<lambda>c.
            bindE (cn_tick (next_time - base_time) c) (\<lambda>c.
            bindE (ap_tick ad (next_time - base_time) (sp_datagram_adapter p) w) (\<lambda>(w, a).
              Inr (next_time, (p\<lparr>sp_tcp := Some c, sp_datagram_adapter := a\<rparr>, w))))))"

fun sp_loop_rounds ::
  "'w kernel \<Rightarrow> ('w \<Rightarrow> bool) \<Rightarrow> ('a, 'w) adapter \<Rightarrow> (('a, 'w) sp_state \<Rightarrow> bool res) \<Rightarrow> nat \<Rightarrow> u64 \<Rightarrow> ('a, 'w) sp_state Rule list \<Rightarrow> ('a, 'w) sp_state \<Rightarrow>
   (bool \<times> ('a, 'w) sp_state Rule list \<times> ('a, 'w) sp_state) res" where
  "sp_loop_rounds k abrt ad condition 0 base_time rules s = Inr (False, rules, s)"
| "sp_loop_rounds k abrt ad condition (Suc rounds) base_time rules s =
     bindE (condition s) (\<lambda>go_on.
       if \<not> go_on then Inr (True, rules, s)
       else
         bindE (wait_next_event k TCP_TICK_MS rules s) (\<lambda>(rules, s, ret).
           if ret = Exit \<or> abrt (snd s) then Inr (True, rules, s)
           else bindE (sp_pass_time k ad base_time s) (\<lambda>(base_time, s). sp_loop_rounds k abrt ad condition rounds base_time rules s)))"

definition sp_tcp_loop ::
  "'w kernel \<Rightarrow> ('w \<Rightarrow> bool) \<Rightarrow> ('a, 'w) adapter \<Rightarrow> (('a, 'w) sp_state \<Rightarrow> bool res) \<Rightarrow> nat \<Rightarrow> ('a, 'w) sp_state Rule list \<Rightarrow> ('a, 'w) sp_state \<Rightarrow>
   (bool \<times> ('a, 'w) sp_state Rule list \<times> ('a, 'w) sp_state) res" where
  "sp_tcp_loop k abrt ad condition rounds rules s = (let (s, base_time) = sp_timestamp k s in sp_loop_rounds k abrt ad condition rounds base_time rules s)"

definition sp_state_in :: "State list \<Rightarrow> ('a, 'w) sp_state \<Rightarrow> bool res" where
  "sp_state_in sts s = bindE (sp_deref (fst s)) (\<lambda>c. Inr (list_ex (\<lambda>st. TCPState_eq (cn_state c) (TCPState_official st)) sts))"

text \<open>The thread of the connection. The connection is destroyed at the end, and what its destructor queues with it.\<close>

definition sp_tcp_main ::
  "'w kernel \<Rightarrow> ('w \<Rightarrow> bool) \<Rightarrow> ('a, 'w) adapter \<Rightarrow> nat \<Rightarrow> ('a, 'w) sp_state Rule list \<Rightarrow> ('a, 'w) sp_state \<Rightarrow> (bool \<times> ('a, 'w) sp_state Rule list \<times> ('a, 'w) sp_state) res" where
  "sp_tcp_main k abrt ad rounds rules s =
     (if sp_tcp (fst s) = None then Inl RuntimeError
      else bindE (sp_tcp_loop k abrt ad (\<lambda>_. Inr True) rounds rules s) (\<lambda>(ended, rules, (p, w)).
           if \<not> ended then Inr (False, rules, (p, w))
           else bindE (sock_shutdown k SHUT_RDWR (sp_socket p) w) (\<lambda>(w, f).
                bindE (sp_value p) (\<lambda>_. Inr (True, rules, (p\<lparr>sp_socket := f, sp_tcp := None\<rparr>, w))))))"

section \<open>The interface to the owner\<close>

definition socket_pair_helper :: "'w kernel \<Rightarrow> int \<Rightarrow> 'w \<Rightarrow> ('w \<times> FDWrapper \<times> FDWrapper) res" where
  "socket_pair_helper k type w =
     (let (w, ret, fd0, fd1) = k_socketpair k AF_UNIX type w
      in bindE (SystemCall k w ret 0) (\<lambda>_. bindE (fw_new fd0) (\<lambda>f. bindE (fw_new fd1) (\<lambda>g. Inr (w, f, g)))))"

definition sp_of_pair :: "'w kernel \<Rightarrow> FDWrapper \<times> FDWrapper \<Rightarrow> 'a \<Rightarrow> 'w \<Rightarrow> ('a, 'w) sp_state res" where
  "sp_of_pair k data_socket_pair datagram_interface w =
     bindE (local_stream_of_fd k (fst data_socket_pair) w) (\<lambda>(w, f).
     bindE (local_stream_of_fd k (snd data_socket_pair) w) (\<lambda>(w, g).
     bindE (fd_set_blocking k False g w) (\<lambda>w.
       Inr (\<lparr>sp_socket = f, sp_thread_data = g, sp_datagram_adapter = datagram_interface, sp_tcp = None, sp_inbound_shutdown = False,
             sp_outbound_shutdown = False, sp_fully_acked = False, sp_tcp_thread = False, sp_program_start = None\<rparr>, w))))"

definition sp_new :: "'w kernel \<Rightarrow> 'a \<Rightarrow> 'w \<Rightarrow> ('a, 'w) sp_state res" where
  "sp_new k datagram_interface w =
     bindE (socket_pair_helper k SOCK_STREAM w) (\<lambda>(w, f, g). sp_of_pair k (f, g) datagram_interface w)"

definition sp_connect ::
  "libc \<Rightarrow> 'w kernel \<Rightarrow> ('w \<Rightarrow> bool) \<Rightarrow> ('a, 'w) adapter \<Rightarrow> TCPConfig \<Rightarrow> FdAdapterConfig \<Rightarrow> nat \<Rightarrow> ('a, 'w) sp_state Rule list \<Rightarrow> ('a, 'w) sp_state \<Rightarrow>
   (bool \<times> ('a, 'w) sp_state Rule list \<times> ('a, 'w) sp_state) res" where
  "sp_connect lc k abrt ad c_tcp c_ad rounds rules s =
     (if sp_tcp (fst s) \<noteq> None then Inl RuntimeError
      else
        let (rules, (p, w)) = sp_initialize_TCP lc k ad c_tcp rules s;
            p = p\<lparr>sp_datagram_adapter := ap_set_config ad c_ad (sp_datagram_adapter p)\<rparr>
        in bindE (ad_to_string lc (fc_destination c_ad)) (\<lambda>_.
           bindE (sp_deref p) (\<lambda>c.
           let c = cn_connect c;
               p = p\<lparr>sp_tcp := Some c\<rparr>
           in if TCPState_neq (cn_state c) (TCPState_official SYN_SENT) then Inl RuntimeError
              else
                bindE (sp_tcp_loop k abrt ad (sp_state_in [SYN_SENT]) rounds rules (p, w)) (\<lambda>(ended, rules, (p, w)).
                  if \<not> ended then Inr (False, rules, (p, w))
                  else bindE (ad_to_string lc (fc_destination c_ad)) (\<lambda>_. Inr (True, rules, (p\<lparr>sp_tcp_thread := True\<rparr>, w)))))))"

definition sp_listen_and_accept ::
  "libc \<Rightarrow> 'w kernel \<Rightarrow> ('w \<Rightarrow> bool) \<Rightarrow> ('a, 'w) adapter \<Rightarrow> TCPConfig \<Rightarrow> FdAdapterConfig \<Rightarrow> nat \<Rightarrow> ('a, 'w) sp_state Rule list \<Rightarrow> ('a, 'w) sp_state \<Rightarrow>
   (bool \<times> ('a, 'w) sp_state Rule list \<times> ('a, 'w) sp_state) res" where
  "sp_listen_and_accept lc k abrt ad c_tcp c_ad rounds rules s =
     (if sp_tcp (fst s) \<noteq> None then Inl RuntimeError
      else
        let (rules, (p, w)) = sp_initialize_TCP lc k ad c_tcp rules s;
            p = p\<lparr>sp_datagram_adapter := ap_set_listening ad True (ap_set_config ad c_ad (sp_datagram_adapter p))\<rparr>
        in bindE (sp_tcp_loop k abrt ad (sp_state_in [LISTEN, SYN_RCVD, SYN_SENT]) rounds rules (p, w)) (\<lambda>(ended, rules, (p, w)).
             if \<not> ended then Inr (False, rules, (p, w))
             else bindE (sp_print_destination lc ad p) (\<lambda>_. Inr (True, rules, (p\<lparr>sp_tcp_thread := True\<rparr>, w)))))"

text \<open>
  The calls of the owner that join the thread of the connection: what that thread does until it ends, after the shutdown or after \<open>_abort\<close> is set, is an argument. An exception
  in it ends the program.
\<close>

definition sp_wait_until_closed :: "'w kernel \<Rightarrow> (('a, 'w) sp_state \<Rightarrow> ('a, 'w) sp_state res) \<Rightarrow> ('a, 'w) sp_state \<Rightarrow> ('a, 'w) sp_state res" where
  "sp_wait_until_closed k rest = (\<lambda>(p, w).
     bindE (sock_shutdown k SHUT_RDWR (sp_socket p) w) (\<lambda>(w, f).
     let p = p\<lparr>sp_socket := f\<rparr>
     in if sp_tcp_thread p then bindE (rest (p, w)) (\<lambda>(p, w). Inr (p\<lparr>sp_tcp_thread := False\<rparr>, w)) else Inr (p, w)))"

definition sp_destroy :: "(('a, 'w) sp_state \<Rightarrow> ('a, 'w) sp_state res) \<Rightarrow> ('a, 'w) sp_state \<Rightarrow> ('a, 'w) sp_state res" where
  "sp_destroy rest_after_abort = (\<lambda>(p, w).
     if sp_tcp_thread p then bindE (rest_after_abort (p, w)) (\<lambda>(p, w). Inr (p\<lparr>sp_tcp_thread := False\<rparr>, w)) else Inr (p, w))"

section \<open>CS144TCPSocket and FullStackSocket\<close>

text \<open>The arguments of the constructors are evaluated in the order in which they are written.\<close>

definition ascii :: "string \<Rightarrow> bytes" where
  "ascii s = map of_char s"

definition cs144_new :: "libc \<Rightarrow> 'w kernel \<Rightarrow> 'w \<Rightarrow> (TCPOverIPv4OverTunFdAdapter, 'w) sp_state res" where
  "cs144_new lc k w =
     bindE (tun_new k (ascii ''tun144'') w) (\<lambda>(w, tun).
     bindE (ta_new lc tun) (\<lambda>a. sp_new k a w))"

text \<open>The configuration for a connection from an address and a random port.\<close>

definition random_source_config :: "libc \<Rightarrow> 'w kernel \<Rightarrow> string \<Rightarrow> Address \<Rightarrow> 'w \<Rightarrow> ('w \<times> FdAdapterConfig) res" where
  "random_source_config lc k ip address w =
     bindE (fc_default lc) (\<lambda>multiplexer_config.
     let (w, x) = k_random k w
     in bindE (ad_of_host lc ip (show_dec (unat (ucast x :: u16)))) (\<lambda>source.
        Inr (w, multiplexer_config\<lparr>fc_source := source, fc_destination := address\<rparr>)))"

definition cs144_connect ::
  "libc \<Rightarrow> 'w kernel \<Rightarrow> ('w \<Rightarrow> bool) \<Rightarrow> Address \<Rightarrow> nat \<Rightarrow> (TCPOverIPv4OverTunFdAdapter, 'w) sp_state Rule list \<Rightarrow> (TCPOverIPv4OverTunFdAdapter, 'w) sp_state \<Rightarrow>
   (bool \<times> (TCPOverIPv4OverTunFdAdapter, 'w) sp_state Rule list \<times> (TCPOverIPv4OverTunFdAdapter, 'w) sp_state) res" where
  "cs144_connect lc k abrt address rounds rules = (\<lambda>(p, w).
     let tcp_config = cfg_default\<lparr>cfg_rt_timeout := 100\<rparr>
     in bindE (random_source_config lc k ''169.254.144.9'' address w) (\<lambda>(w, multiplexer_config).
          sp_connect lc k abrt (tun_adapter lc k) tcp_config multiplexer_config rounds rules (p, w)))"

definition LOCAL_TAP_IP_ADDRESS :: string where
  "LOCAL_TAP_IP_ADDRESS = ''169.254.10.9''"

definition LOCAL_TAP_NEXT_HOP_ADDRESS :: string where
  "LOCAL_TAP_NEXT_HOP_ADDRESS = ''169.254.10.1''"

primrec random_bytes :: "'w kernel \<Rightarrow> nat \<Rightarrow> 'w \<Rightarrow> 'w \<times> bytes" where
  "random_bytes k 0 w = (w, [])"
| "random_bytes k (Suc n) w =
     (let (w, x) = k_random k w;
          (w, bs) = random_bytes k n w
      in (w, ucast x # bs))"

definition random_private_ethernet_address :: "'w kernel \<Rightarrow> 'w \<Rightarrow> 'w \<times> EthernetAddress" where
  "random_private_ethernet_address k w =
     (let (w, addr) = random_bytes k 6 w;
          addr = addr[0 := addr ! 0 OR 0x02];
          addr = addr[0 := addr ! 0 AND 0xfe]
      in (w, addr))"

definition full_stack_new :: "libc \<Rightarrow> 'w kernel \<Rightarrow> 'w \<Rightarrow> (TCPOverIPv4OverEthernetAdapter, 'w) sp_state res" where
  "full_stack_new lc k w =
     bindE (tap_new k (ascii ''tap10'') w) (\<lambda>(w, tap).
     let (w, eth_address) = random_private_ethernet_address k w
     in bindE (ad_of_host lc LOCAL_TAP_IP_ADDRESS ''0'') (\<lambda>ip_address.
        bindE (ad_of_host lc LOCAL_TAP_NEXT_HOP_ADDRESS ''0'') (\<lambda>next_hop.
        bindE (ea_new lc k tap eth_address ip_address next_hop w) (\<lambda>(w, a). sp_new k a w))))"

definition full_stack_connect ::
  "libc \<Rightarrow> 'w kernel \<Rightarrow> ('w \<Rightarrow> bool) \<Rightarrow> Address \<Rightarrow> nat \<Rightarrow> (TCPOverIPv4OverEthernetAdapter, 'w) sp_state Rule list \<Rightarrow> (TCPOverIPv4OverEthernetAdapter, 'w) sp_state \<Rightarrow>
   (bool \<times> (TCPOverIPv4OverEthernetAdapter, 'w) sp_state Rule list \<times> (TCPOverIPv4OverEthernetAdapter, 'w) sp_state) res" where
  "full_stack_connect lc k abrt address rounds rules = (\<lambda>(p, w).
     let tcp_config = cfg_default\<lparr>cfg_rt_timeout := 100\<rparr>
     in bindE (random_source_config lc k LOCAL_TAP_IP_ADDRESS address w) (\<lambda>(w, multiplexer_config).
          sp_connect lc k abrt (ethernet_adapter lc k) tcp_config multiplexer_config rounds rules (p, w)))"

end
