(* ===== verification/Connection_Correct.thy ===== *)
theory Connection_Correct
  imports Tcp_Connection Sender_Correct Receiver_Correct
begin

text \<open>
  Correctness of one endpoint (\<^verbatim>\<open>tcp_connection.cc\<close>): what the segments it sends carry, how it ends (linger,
  reset, too many retransmissions), the three-way handshake, and the meaning of the summaries
  of \<^verbatim>\<open>tcp_state.cc\<close> under the invariant of the sender.
\<close>

section \<open>Frames\<close>

text \<open>What \<open>check_send_fin\<close>, \<open>check_rcv_fin\<close> and \<open>_check_linger\<close> leave alone: the streams may be ended, the flags may change.\<close>

definition cn_frame :: "TCPConnection \<Rightarrow> TCPConnection \<Rightarrow> bool" where
  "cn_frame c c' \<longleftrightarrow>
     cn_cfg c' = cn_cfg c \<and> cn_rst c' = cn_rst c \<and> cn_segments_out c' = cn_segments_out c \<and>
     cn_newest_seg_time c' = cn_newest_seg_time c \<and>
     (cn_sender c' = cn_sender c \<or> cn_sender c' = cn_sender (cn_map_stream_in bs_end_input c)) \<and>
     (cn_receiver c' = cn_receiver c \<or> cn_receiver c' = cn_receiver (cn_map_stream_out bs_end_input c))"

lemma rcv_set_stream_out_simps [simp]:
  "rcv_stream_out (rcv_set_stream_out st r) = st" "rcv_capacity (rcv_set_stream_out st r) = rcv_capacity r"
  "rcv_ackno (rcv_set_stream_out st r) = rcv_ackno r" "rcv_received_syn (rcv_set_stream_out st r) = rcv_received_syn r"
  "rcv_received_fin (rcv_set_stream_out st r) = rcv_received_fin r" "rcv_isn (rcv_set_stream_out st r) = rcv_isn r"
  "rcv_ack_no_64 (rcv_set_stream_out st r) = rcv_ack_no_64 r" "rcv_last_no (rcv_set_stream_out st r) = rcv_last_no r"
  by (simp_all add: rcv_set_stream_out_def rcv_stream_out_def rcv_ackno_def)

lemma cn_map_stream_simps [simp]:
  "cn_sender (cn_map_stream_out f c) = cn_sender c" "cn_receiver (cn_map_stream_in f c) = cn_receiver c"
  "cn_sender (cn_map_stream_in f c) = (cn_sender c)\<lparr>snd_stream := f (snd_stream (cn_sender c))\<rparr>"
  "cn_receiver (cn_map_stream_out f c) = rcv_set_stream_out (f (rcv_stream_out (cn_receiver c))) (cn_receiver c)"
  by (simp_all add: cn_map_stream_in_def cn_map_stream_out_def)

lemma bs_end_input_idem [simp]: "bs_end_input (bs_end_input st) = bs_end_input st"
  by (simp add: bs_end_input_def)

lemma rcv_set_stream_out_twice [simp]: "rcv_set_stream_out st (rcv_set_stream_out st' r) = rcv_set_stream_out st r"
  by (simp add: rcv_set_stream_out_def)

lemma cn_frame_refl [simp]: "cn_frame c c"
  by (simp add: cn_frame_def)

lemma cn_frame_trans: "cn_frame c c' \<Longrightarrow> cn_frame c' c'' \<Longrightarrow> cn_frame c c''"
  unfolding cn_frame_def cn_map_stream_simps by (elim conjE disjE) simp_all

lemma cn_frame_flags [simp]:
  "cn_frame c (d\<lparr>cn_lingering := b\<rparr>) = cn_frame c d" "cn_frame c (d\<lparr>cn_linger_after_streams_finish := b\<rparr>) = cn_frame c d"
  "cn_frame c (d\<lparr>cn_first_send_fin := b\<rparr>) = cn_frame c d" "cn_frame c (d\<lparr>cn_first_receive_fin := b\<rparr>) = cn_frame c d"
  "cn_frame c (d\<lparr>cn_self_fin_seqno := n\<rparr>) = cn_frame c d" "cn_frame c (d\<lparr>cn_self_fin_acked := b\<rparr>) = cn_frame c d"
  "cn_frame c (d\<lparr>cn_peer_fin_seqno := n\<rparr>) = cn_frame c d" "cn_frame c (d\<lparr>cn_peer_fin_acking := b\<rparr>) = cn_frame c d"
  by (simp_all add: cn_frame_def)

lemma cn_frame_end_streams: "cn_frame c (cn_map_stream_out bs_end_input (cn_map_stream_in bs_end_input c))"
  by (simp add: cn_frame_def cn_map_stream_in_def cn_map_stream_out_def)

lemma cn_check_linger_frame: "cn_frame c (cn_check_linger c)"
  by (simp add: cn_check_linger_def cn_frame_end_streams)

lemma cn_note_fin_frame [simp]: "cn_frame c (cn_note_send_fin seg c)" "cn_frame c (cn_note_rcv_fin seg c)"
  by (simp_all add: cn_note_send_fin_def cn_note_rcv_fin_def Let_def)

lemma cn_check_fin_frame: "cn_frame c (cn_check_send_fin seg c)" "cn_frame c (cn_check_rcv_fin seg c)"
  by (auto simp: cn_check_send_fin_def cn_check_rcv_fin_def Let_def intro: cn_frame_trans [OF _ cn_check_linger_frame])

section \<open>What is sent\<close>

lemma cn_frame_fill: "cn_frame c c' \<Longrightarrow> cn_fill_seg_fields c' = cn_fill_seg_fields c"
proof -
  assume "cn_frame c c'"
  then have "rcv_ackno (cn_receiver c') = rcv_ackno (cn_receiver c)" "rcv_window_size (cn_receiver c') = rcv_window_size (cn_receiver c)"
    by (auto simp: cn_frame_def rcv_window_size_def bs_bytes_not_read_def bs_remaining_capacity_def)
  then show ?thesis by (simp add: fun_eq_iff cn_fill_seg_fields_def)
qed

lemma cn_send_one_simps:
  "cn_segments_out (cn_send_one front q c) = cn_segments_out c @ [cn_fill_seg_fields c front]"
  "snd_segments_out (cn_sender (cn_send_one front q c)) = q"
  "cn_fill_seg_fields (cn_send_one front q c) = cn_fill_seg_fields c"
proof -
  let ?c1 = "cn_check_send_fin (cn_fill_seg_fields c front) c"
  have fr: "cn_frame c ?c1" by (rule cn_check_fin_frame)
  have "cn_fill_seg_fields (cn_send_one front q c) = cn_fill_seg_fields ?c1"
    by (simp add: fun_eq_iff cn_fill_seg_fields_def cn_send_one_def Let_def)
  then show "cn_fill_seg_fields (cn_send_one front q c) = cn_fill_seg_fields c" using cn_frame_fill [OF fr] by simp
qed (use cn_check_fin_frame(1) [of c "cn_fill_seg_fields c front"] in \<open>auto simp: cn_send_one_def Let_def cn_frame_def\<close>)

lemma cn_send_loop_out: "cn_segments_out (cn_send_loop q c) = cn_segments_out c @ map (cn_fill_seg_fields c) q"
  by (induction q arbitrary: c) (simp_all add: cn_send_one_simps)

lemma cn_send_loop_queue: "snd_segments_out (cn_sender c) = q \<Longrightarrow> snd_segments_out (cn_sender (cn_send_loop q c)) = []"
  by (induction q arbitrary: c) (simp_all add: cn_send_one_simps)

text \<open>What the loop keeps.\<close>

lemma cn_send_loop_keeps:
  assumes "P c" and "\<And>front q c. front \<in> set Q \<Longrightarrow> P c \<Longrightarrow> P (cn_send_one front q c)"
  shows "P (cn_send_loop Q c)"
  using assms by (induction Q arbitrary: c) simp_all

lemma cn_send_segs_idle [simp]: "snd_segments_out (cn_sender c) = [] \<Longrightarrow> cn_send_segs c = c"
  by (simp add: cn_send_segs_def)

lemma cn_send_segs_out:
  "cn_segments_out (cn_send_segs c) = cn_segments_out c @ map (cn_fill_seg_fields c) (snd_segments_out (cn_sender c))"
  "snd_segments_out (cn_sender (cn_send_segs c)) = []"
  by (simp_all add: cn_send_segs_def cn_send_loop_out cn_send_loop_queue)

section \<open>Well-formed connections\<close>

text \<open>
  The side that sends its FIN first is the active closer and may linger; the side that receives a FIN first
  is the passive closer and never does. Between two calls the queue of the sender is empty.
\<close>

definition cn_flags_ok :: "TCPConnection \<Rightarrow> bool" where
  "cn_flags_ok c \<longleftrightarrow>
     \<not> (cn_first_send_fin c \<and> cn_first_receive_fin c) \<and>
     (cn_linger_after_streams_finish c \<longleftrightarrow> \<not> cn_first_receive_fin c \<and> \<not> cn_rst c) \<and>
     (0 < cn_self_fin_seqno c \<or> cn_self_fin_acked c \<longrightarrow> cn_first_send_fin c \<or> cn_first_receive_fin c) \<and>
     (cn_lingering c \<longrightarrow> cn_first_send_fin c \<and> cn_self_fin_acked c \<and> cn_peer_fin_acking c)"

definition cn_wf :: "TCPConnection \<Rightarrow> bool" where
  "cn_wf c \<longleftrightarrow> cn_flags_ok c \<and> snd_segments_out (cn_sender c) = []"

lemma cn_flags_ok_frame [simp]:
  "cn_flags_ok (cn_map_stream_in f c) = cn_flags_ok c" "cn_flags_ok (cn_map_stream_out f c) = cn_flags_ok c"
  "cn_flags_ok (cn_map_sender g c) = cn_flags_ok c" "cn_flags_ok (c\<lparr>cn_receiver := r\<rparr>) = cn_flags_ok c"
  "cn_flags_ok (c\<lparr>cn_sender := s\<rparr>) = cn_flags_ok c" "cn_flags_ok (c\<lparr>cn_segments_out := q\<rparr>) = cn_flags_ok c"
  "cn_flags_ok (c\<lparr>cn_newest_seg_time := t\<rparr>) = cn_flags_ok c"
  by (simp_all add: cn_flags_ok_def cn_map_stream_in_def cn_map_stream_out_def cn_map_sender_def)

lemma cn_flags_ok_linger: "cn_flags_ok c \<Longrightarrow> cn_flags_ok (cn_check_linger c)"
  by (auto simp: cn_check_linger_def cn_flags_ok_def cn_map_stream_in_def cn_map_stream_out_def)

lemma cn_flags_ok_note: "cn_flags_ok c \<Longrightarrow> cn_flags_ok (cn_note_send_fin seg c)" "cn_flags_ok c \<Longrightarrow> cn_flags_ok (cn_note_rcv_fin seg c)"
  by (auto simp: cn_note_send_fin_def cn_note_rcv_fin_def Let_def cn_flags_ok_def)

lemma cn_flags_ok_check: "cn_flags_ok c \<Longrightarrow> cn_flags_ok (cn_check_send_fin seg c)" "cn_flags_ok c \<Longrightarrow> cn_flags_ok (cn_check_rcv_fin seg c)"
proof -
  assume ok: "cn_flags_ok c"
  have "cn_flags_ok d \<Longrightarrow> cn_flags_ok (d\<lparr>cn_peer_fin_acking := True\<rparr>)" for d by (simp add: cn_flags_ok_def)
  then show "cn_flags_ok (cn_check_send_fin seg c)"
    using cn_flags_ok_note [OF ok] by (auto simp: cn_check_send_fin_def Let_def intro: cn_flags_ok_linger)
  have "cn_flags_ok d \<Longrightarrow> 0 < cn_self_fin_seqno d \<Longrightarrow> cn_flags_ok (d\<lparr>cn_self_fin_acked := True\<rparr>)" for d by (simp add: cn_flags_ok_def)
  then show "cn_flags_ok (cn_check_rcv_fin seg c)"
    using cn_flags_ok_note [OF ok] by (auto simp: cn_check_rcv_fin_def Let_def intro: cn_flags_ok_linger)
qed

lemma cn_wf_send: "cn_flags_ok c \<Longrightarrow> cn_wf (cn_send_segs c)"
  using cn_send_segs_out(2) [of c] cn_send_loop_keeps [of cn_flags_ok c "snd_segments_out (cn_sender c)"]
  by (simp add: cn_wf_def cn_send_segs_def cn_send_one_def Let_def cn_flags_ok_check)

lemma cn_wf_reset: "cn_wf c \<Longrightarrow> cn_wf (cn_reset b c)"
  by (auto simp: cn_reset_def Let_def cn_wf_def cn_flags_ok_def cn_map_stream_in_def cn_map_stream_out_def)

section \<open>Runs of one endpoint\<close>

text \<open>Anything the owner, the application and the network can do to a connection; segments are arbitrary.\<close>

inductive cn_step :: "TCPConnection \<Rightarrow> TCPConnection \<Rightarrow> bool" where
  receive: "cn_segment_received seg c = Inr c' \<Longrightarrow> cn_step c c'"
| app_write: "cn_write d c = (c', n) \<Longrightarrow> cn_step c c'"
| app_close: "cn_step c (cn_end_input_stream c)"
| app_connect: "cn_step c (cn_connect c)"
| app_read: "bs_read n (cn_inbound_stream c) = (st, d) \<Longrightarrow> cn_step c (cn_map_stream_out (\<lambda>_. st) c)"
| tick: "cn_tick ms c = Inr c' \<Longrightarrow> cn_step c c'"
| take_out: "cn_step c (c\<lparr>cn_segments_out := []\<rparr>)"

lemma cn_flags_ok_to_sender [simp]: "cn_flags_ok (cn_to_sender seg c) = cn_flags_ok c"
  by (simp add: cn_to_sender_def)

lemma cn_wf_step:
  assumes wf: "cn_wf c" and step: "cn_step c c'"
  shows "cn_wf c'"
proof -
  have ok: "cn_flags_ok c" and idle: "snd_segments_out (cn_sender c) = []" using wf by (auto simp: cn_wf_def)
  from step show ?thesis
  proof cases
    case (receive seg)
    then show ?thesis
      using cn_flags_ok_check(2) [OF ok, of seg] cn_wf_reset [OF wf]
      by (auto simp: cn_segment_received_def Let_def bindE_Inr_iff cn_wf_send split: if_splits)
  next
    case (app_write d n)
    then show ?thesis using wf ok by (auto simp: cn_write_def cn_wf_send split: if_splits prod.splits)
  next
    case (app_read n st d)
    then show ?thesis using wf by (simp add: cn_wf_def)
  next
    case (tick ms)
    let ?c = "c\<lparr>cn_newest_seg_time := cn_newest_seg_time c + ms\<rparr>"
    have "cn_wf ?c" using wf by (simp add: cn_wf_def)
    moreover have "cn_wf (cn_send_segs ((cn_map_stream_out bs_end_input ?c)\<lparr>cn_lingering := False\<rparr>))"
      using ok by (intro cn_wf_send) (simp add: cn_flags_ok_def cn_map_stream_out_def)
    ultimately show ?thesis using tick ok
      by (auto simp: cn_tick_def Let_def bindE_Inr_iff cn_wf_send cn_wf_reset split: if_splits)
  next
    case take_out
    then show ?thesis using wf by (simp add: cn_wf_def)
  qed (use ok in \<open>simp_all add: cn_end_input_stream_def cn_connect_def cn_wf_send\<close>)
qed

interpretation cnx: invariant_system "\<lambda>c. c = cn_new cfg rnd" cn_step cn_wf for cfg rnd
  by unfold_locales (simp add: cn_wf_def cn_flags_ok_def cn_new_def snd_new_def, rule cn_wf_step)

text \<open>A reset is final.\<close>

lemma cn_rst_send: "cn_rst (cn_send_segs c) = cn_rst c"
  unfolding cn_send_segs_def
  by (rule cn_send_loop_keeps [where P = "\<lambda>d. cn_rst d = cn_rst c"])
     (use cn_check_fin_frame(1) in \<open>auto simp: cn_send_one_def Let_def cn_frame_def\<close>)

lemma cn_rst_frame [simp]:
  "cn_rst (cn_map_stream_in f c) = cn_rst c" "cn_rst (cn_map_stream_out f c) = cn_rst c" "cn_rst (cn_map_sender g c) = cn_rst c"
  "cn_rst (cn_to_sender seg c) = cn_rst c" "cn_rst (cn_check_rcv_fin seg c) = cn_rst c" "cn_rst (cn_reset b c)"
  using cn_check_fin_frame(2) [of c seg]
  by (simp_all add: cn_map_stream_in_def cn_map_stream_out_def cn_map_sender_def cn_to_sender_def cn_reset_def Let_def cn_frame_def)



section \<open>Lingering\<close>

fun cn_ticks :: "u64 list \<Rightarrow> TCPConnection \<Rightarrow> TCPConnection res" where
  "cn_ticks [] c = Inr c"
| "cn_ticks (ms # mss) c = bindE (cn_tick ms c) (cn_ticks mss)"

lemma unat_linger_limit: "unat (10 * ucast (x :: u16) :: u64) = 10 * unat x"
proof -
  have "10 * unat x < 655360" using unat_lt_16 [of x] by linarith
  then have "10 * unat x < 2 ^ 64" by (rule less_trans) simp
  then show ?thesis by (subst unat_mult_lem [THEN iffD1]) simp_all
qed

lemma cn_tick_linger:
  assumes "cn_wf c" "cn_lingering c" "snd_fail_count (cn_sender c) < 8"
  shows "cn_tick ms c = Inr (let c' = c\<lparr>cn_newest_seg_time := cn_newest_seg_time c + ms\<rparr>
     in if cn_newest_seg_time c + ms \<ge> 10 * ucast (cfg_rt_timeout (cn_cfg c))
        then (cn_map_stream_out bs_end_input c')\<lparr>cn_lingering := False\<rparr> else c')"
proof -
  have "\<not> (ucast MAX_RETX_ATTEMPTS :: u64) \<le> snd_fail_count (cn_sender c)"
    using assms(3) by (simp add: MAX_RETX_ATTEMPTS_def not_le)
  then show ?thesis using assms(1,2) by (simp add: cn_tick_def Let_def cn_wf_def)
qed

lemma cn_ticks_linger:
  assumes "cn_wf c" "cn_lingering c" "snd_fail_count (cn_sender c) < 8"
    and "unat (cn_newest_seg_time c) + sum_list (map unat mss) < 10 * unat (cfg_rt_timeout (cn_cfg c))"
  shows "cn_ticks mss c = Inr (c\<lparr>cn_newest_seg_time := cn_newest_seg_time c + sum_list mss\<rparr>)"
  using assms
proof (induction mss arbitrary: c)
  case (Cons ms mss)
  let ?c = "c\<lparr>cn_newest_seg_time := cn_newest_seg_time c + ms\<rparr>" and ?lim = "10 * ucast (cfg_rt_timeout (cn_cfg c)) :: u64"
  have lim: "unat ?lim = 10 * unat (cfg_rt_timeout (cn_cfg c))" by (rule unat_linger_limit)
  have "unat (cn_newest_seg_time c) + unat ms < 10 * unat (cfg_rt_timeout (cn_cfg c))" using Cons.prems(4) by simp
  then have "unat (cn_newest_seg_time c) + unat ms < 655360" using unat_lt_16 [of "cfg_rt_timeout (cn_cfg c)"] by linarith
  then have sum: "unat (cn_newest_seg_time c + ms) = unat (cn_newest_seg_time c) + unat ms" by (intro unat_add_nowrap) simp
  then have "\<not> ?lim \<le> cn_newest_seg_time c + ms" using Cons.prems(4) lim by (simp add: word_le_nat_alt)
  then have "cn_tick ms c = Inr ?c" using cn_tick_linger [OF Cons.prems(1,2,3), of ms] by (simp add: Let_def)
  moreover have "cn_ticks mss ?c = Inr (?c\<lparr>cn_newest_seg_time := cn_newest_seg_time ?c + sum_list mss\<rparr>)"
    by (rule Cons.IH) (use Cons.prems sum in \<open>simp_all add: cn_wf_def\<close>)
  ultimately show ?case by (simp add: add.assoc)
qed simp

section \<open>Giving up\<close>

text \<open>While the FIN is not acknowledged, \<open>send_segs\<close> only moves the queue.\<close>

lemma cn_send_segs_open:
  assumes "\<not> cn_self_fin_acked c"
  shows "cn_sender (cn_send_segs c) = (cn_sender c)\<lparr>snd_segments_out := []\<rparr>" and "cn_receiver (cn_send_segs c) = cn_receiver c"
    and "\<not> cn_self_fin_acked (cn_send_segs c)" and "cn_lingering (cn_send_segs c) = cn_lingering c"
proof -
  let ?P = "\<lambda>d. (\<exists>q. cn_sender d = (cn_sender c)\<lparr>snd_segments_out := q\<rparr>) \<and> cn_receiver d = cn_receiver c \<and>
    \<not> cn_self_fin_acked d \<and> cn_lingering d = cn_lingering c"
  have nt: "cn_sender (cn_note_send_fin g d) = cn_sender d" "cn_receiver (cn_note_send_fin g d) = cn_receiver d"
    "cn_self_fin_acked (cn_note_send_fin g d) = cn_self_fin_acked d" "cn_lingering (cn_note_send_fin g d) = cn_lingering d" for g d
    by (simp_all add: cn_note_send_fin_def Let_def)
  have "?P (cn_send_loop (snd_segments_out (cn_sender c)) c)"
  proof (rule cn_send_loop_keeps)
    show "?P c" using assms by (auto intro: exI [of _ "snd_segments_out (cn_sender c)"])
    show "?P (cn_send_one front q d)" if "?P d" for front q d
      using that by (auto simp: cn_send_one_def cn_check_send_fin_def cn_check_linger_def nt Let_def)
  qed
  then have P: "?P (cn_send_segs c)" by (simp add: cn_send_segs_def)
  then show "cn_sender (cn_send_segs c) = (cn_sender c)\<lparr>snd_segments_out := []\<rparr>" using cn_send_segs_out(2) [of c] by auto
  show "cn_receiver (cn_send_segs c) = cn_receiver c" "\<not> cn_self_fin_acked (cn_send_segs c)"
    "cn_lingering (cn_send_segs c) = cn_lingering c" using P by blast+
qed

text \<open>Time passes until the timer expires, \<open>n\<close> times in a row.\<close>

fun cn_timeouts :: "nat \<Rightarrow> TCPConnection \<Rightarrow> TCPConnection res" where
  "cn_timeouts 0 c = Inr c"
| "cn_timeouts (Suc n) c = bindE (cn_tick (tm_rto (snd_timer (cn_sender c))) c) (cn_timeouts n)"

definition cn_waiting :: "nat \<Rightarrow> TCPSegment \<Rightarrow> TCPConnection \<Rightarrow> bool" where
  "cn_waiting k seg c \<longleftrightarrow> tm_at k (snd_timer (cn_sender c)) \<and> snd_received_window_size (cn_sender c) \<noteq> 0 \<and>
     (\<exists>segs. snd_outstanding_buffer (cn_sender c) = seg # segs) \<and> snd_segments_out (cn_sender c) = [] \<and>
     \<not> cn_self_fin_acked c \<and> \<not> cn_lingering c"

lemma snd_fail_count_at: "tm_at k (snd_timer s) \<Longrightarrow> k < 65536 \<Longrightarrow> unat (snd_fail_count s) = k"
  by (simp add: snd_fail_count_def tm_at_def unat_of_nat take_bit_nat_eq_self)

lemma cn_tick_waiting:
  assumes w: "cn_waiting k seg c" and k: "k < 8"
  shows "\<exists>c'. cn_tick (tm_rto (snd_timer (cn_sender c))) c = Inr c' \<and> cn_waiting (Suc k) seg c' \<and>
    cn_segments_out c' = cn_segments_out c @ [cn_fill_seg_fields c seg] \<and> cn_fill_seg_fields c' = cn_fill_seg_fields c \<and> cn_rst c' = cn_rst c"
proof -
  let ?s = "cn_sender c" let ?ms = "tm_rto (snd_timer ?s)"
  obtain segs where at: "tm_at k (snd_timer ?s)" "snd_received_window_size ?s \<noteq> 0" "snd_outstanding_buffer ?s = seg # segs"
    and idle: "snd_segments_out ?s = []" and op: "\<not> cn_self_fin_acked c" "\<not> cn_lingering c"
    using w by (auto simp: cn_waiting_def)
  obtain t where t: "snd_tick ?ms ?s = Inr (?s\<lparr>snd_timer := t, snd_segments_out := [seg]\<rparr>)" "tm_at (Suc k) t"
    using snd_tick_at [OF at(1) _ at(2,3)] k idle by auto
  let ?c = "c\<lparr>cn_newest_seg_time := cn_newest_seg_time c + ?ms, cn_sender := ?s\<lparr>snd_timer := t, snd_segments_out := [seg]\<rparr>\<rparr>"
  have few: "\<not> (ucast MAX_RETX_ATTEMPTS :: u64) \<le> snd_fail_count ?s"
    using snd_fail_count_at [OF at(1)] k by (simp add: MAX_RETX_ATTEMPTS_def word_le_nat_alt)
  have run: "cn_tick ?ms c = Inr (cn_send_segs ?c)" using few op t(1) by (simp add: cn_tick_def Let_def)
  have op': "\<not> cn_self_fin_acked ?c" using op by simp
  note out = cn_send_segs_open [OF op']
  have "cn_fill_seg_fields ?c = cn_fill_seg_fields c" by (simp add: fun_eq_iff cn_fill_seg_fields_def)
  moreover have "cn_fill_seg_fields (cn_send_segs ?c) = cn_fill_seg_fields c" using out(2) by (simp add: fun_eq_iff cn_fill_seg_fields_def)
  moreover have "cn_waiting (Suc k) seg (cn_send_segs ?c)" unfolding cn_waiting_def out(1,4) using out(3) op t(2) at by simp
  ultimately show ?thesis using run by (simp add: cn_send_segs_out cn_rst_send)
qed

lemma cn_timeouts_waiting:
  assumes "cn_waiting k seg c" and "k + n \<le> 8"
  shows "\<exists>c'. cn_timeouts n c = Inr c' \<and> cn_waiting (k + n) seg c' \<and>
    cn_segments_out c' = cn_segments_out c @ replicate n (cn_fill_seg_fields c seg) \<and> cn_rst c' = cn_rst c"
  using assms
proof (induction n arbitrary: k c)
  case (Suc n)
  obtain c1 where c1: "cn_tick (tm_rto (snd_timer (cn_sender c))) c = Inr c1" "cn_waiting (Suc k) seg c1"
    "cn_segments_out c1 = cn_segments_out c @ [cn_fill_seg_fields c seg]" "cn_fill_seg_fields c1 = cn_fill_seg_fields c" "cn_rst c1 = cn_rst c"
    using cn_tick_waiting [OF Suc.prems(1)] Suc.prems(2) by auto
  show ?case using Suc.IH [OF c1(2)] Suc.prems(2) c1 by auto
qed simp

section \<open>The handshake\<close>

lemma bs_pop_output_0 [simp]: "bs_pop_output 0 st = st"
  by (simp add: bs_pop_output_eq)

lemma snd_fill_new:
  "snd_fill_window (snd_new cap rto isn rnd) =
     (let s = snd_new cap rto isn rnd;
          syn = \<lparr>ts_header = th_default\<lparr>th_seqno := snd_isn s, th_syn := True\<rparr>, ts_payload = []\<rparr>
      in s\<lparr>snd_segments_out := [syn], snd_next_seqno := 1, snd_timer := tm_start (snd_timer s),
           snd_outstanding_buffer := [syn], snd_peer_window_size := 0, snd_syn_sent := True, snd_bytes_in_flight := 1\<rparr>)"
  by (simp add: snd_new_def snd_fill_window.simps snd_fill_cond_def snd_fill_body_def snd_fill_too_long_def snd_fill_cut_def
      snd_fill_seg_def snd_fill_send_def length_in_sequence_space_def get_data_eq bs_eof_def bs_new_def th_default_def tm_new_def
      Let_def)

text \<open>The sender after its SYN has been handed on, and after the SYN has been acknowledged.\<close>

definition snd_opened :: "u64 \<Rightarrow> u16 \<Rightarrow> WrappingInt32 option \<Rightarrow> u32 \<Rightarrow> TCPSender" where
  "snd_opened cap rto isn rnd = (snd_fill_window (snd_new cap rto isn rnd))\<lparr>snd_segments_out := []\<rparr>"

lemma snd_opened_simps:
  fixes cap rto isn rnd defines "s \<equiv> snd_opened cap rto isn rnd"
  shows "snd_isn s = snd_isn (snd_new cap rto isn rnd)" "snd_segments_out s = []" "snd_stream s = bs_new cap" "snd_next_seqno s = 1"
    "snd_acked_next s = 0" "snd_timer s = tm_start (tm_new (ucast (ucast rto :: u32)))"
    "snd_outstanding_buffer s = [\<lparr>ts_header = th_default\<lparr>th_seqno := snd_isn s, th_syn := True\<rparr>, ts_payload = []\<rparr>]"
    "snd_syn_sent s" "\<not> snd_fin_sent s" "snd_bytes_in_flight s = 1"
  by (simp_all add: s_def snd_opened_def snd_fill_new Let_def) (simp_all add: snd_new_def)

lemma unwrap_first: "unwrap (wrap 1 isn) isn 0 = 1" "unwrap isn isn 0 = 0"
  by (simp_all add: sq.to_abs_to_rel unwrap_self near_def)

lemma snd_fill_nothing:
  assumes "snd_syn_sent s" "bs_buf (snd_stream s) = []" "\<not> bs_is_end (snd_stream s)"
  shows "snd_fill_window s = s"
proof -
  have "bs_pop_output n (snd_stream s) = snd_stream s" for n using assms(2) by (simp add: bs_pop_output_eq)
  then show ?thesis using assms by (simp add: snd_fill_window.simps [of s] snd_fill_cond_def get_data_eq bs_eof_def)
qed

lemma snd_opened_ack:
  "snd_ack_received (wrap 1 (snd_isn (snd_opened cap rto isn rnd))) w (snd_opened cap rto isn rnd) =
     (snd_opened cap rto isn rnd)\<lparr>snd_received_window_size := ucast w, snd_outstanding_buffer := [], snd_acked_next := 1,
        snd_bytes_in_flight := 0, snd_peer_window_size := (if w = 0 then 1 else w),
        snd_timer := tm_new (ucast (ucast rto :: u32))\<rparr>"
proof -
  have "0 < (ucast (if w = 0 then 1 else w) :: u64)" by (simp add: word_less_nat_alt) (metis gr0I unsigned_0 word_unat_eq_iff)
  moreover have "(ucast (ucast w :: u64) :: u16) = w" by (rule bit_word_eqI) (simp add: bit_simps)
  ultimately show ?thesis
    by (simp add: snd_ack_received_def Let_def snd_opened_simps unwrap_first length_in_sequence_space_def th_default_def
        snd_fill_nothing bs_new_def tm_start_def tm_new_def tm_stop_def tm_reset_def)
qed

definition rcv_opened :: "u64 \<Rightarrow> WrappingInt32 \<Rightarrow> TCPReceiver" where
  "rcv_opened cap isn = (rcv_new cap)\<lparr>rcv_isn := isn, rcv_ack_no_64 := 1, rcv_state := 1, rcv_received_syn := True\<rparr>"

lemma rcv_plain:
  "ts_payload seg = [] \<Longrightarrow> \<not> th_fin (ts_header seg) \<Longrightarrow> \<not> rcv_received_fin r \<Longrightarrow>
   rcv_segment_received seg r = Inr (rcv_syn_part (ts_header seg) r)"
  by (simp add: rcv_segment_received_def rcv_data_part_def rcv_fin_part_def rcv_syn_part_def Let_def)

lemma rcv_syn_new: "th_syn h \<Longrightarrow> rcv_syn_part h (rcv_new cap) = rcv_opened cap (th_seqno h)"
  by (simp add: rcv_syn_part_def rcv_opened_def rcv_new_def unwrap_first)

lemma rcv_syn_opened: "rcv_syn_part h (rcv_opened cap isn) = rcv_opened cap isn"
  by (simp add: rcv_syn_part_def rcv_opened_def)

lemma rcv_opened_simps [simp]:
  "\<not> rcv_received_fin (rcv_new cap)" "\<not> rcv_received_fin (rcv_opened cap isn)" "rcv_isn (rcv_opened cap isn) = isn"
  "rcv_ackno (rcv_opened cap isn) = Some (wrap 1 isn)" "rcv_ackno (rcv_new cap) = None"
  "\<not> bs_err (rcv_stream_out (rcv_opened cap isn))" "\<not> bs_is_end (rcv_stream_out (rcv_opened cap isn))" "\<not> bs_err (rcv_stream_out (rcv_new cap))"
  by (simp_all add: rcv_opened_def rcv_new_def rcv_ackno_def rcv_stream_out_def sr_new_def bs_new_def)

lemma cn_send_plain:
  "cn_peer_fin_seqno c = 0 \<Longrightarrow> \<not> th_fin (ts_header seg) \<Longrightarrow> snd_segments_out (cn_sender c) = [seg] \<Longrightarrow>
   cn_send_segs c = c\<lparr>cn_sender := (cn_sender c)\<lparr>snd_segments_out := []\<rparr>,
                      cn_segments_out := cn_segments_out c @ [cn_fill_seg_fields c seg]\<rparr>"
  by (simp add: cn_send_segs_def cn_send_one_def cn_check_send_fin_def cn_note_send_fin_def cn_fill_seg_fields_def Let_def split: option.splits)

lemma cn_check_rcv_plain: "\<not> th_fin (ts_header seg) \<Longrightarrow> cn_self_fin_seqno c = 0 \<Longrightarrow> cn_check_rcv_fin seg c = c"
  by (simp add: cn_check_rcv_fin_def cn_note_rcv_fin_def)

text \<open>The endpoint while it opens: nothing but the sender, the receiver and the clock moves.\<close>

definition cn_opening :: "TCPConfig \<Rightarrow> u32 \<Rightarrow> TCPSender \<Rightarrow> TCPReceiver \<Rightarrow> TCPSegment list \<Rightarrow> TCPConnection" where
  "cn_opening cfg rnd s r out = (cn_new cfg rnd)\<lparr>cn_sender := s, cn_receiver := r, cn_segments_out := out\<rparr>"

abbreviation cn_syn_sent :: "TCPConfig \<Rightarrow> u32 \<Rightarrow> TCPSender" where
  "cn_syn_sent cfg rnd \<equiv> snd_opened (cfg_send_capacity cfg) (cfg_rt_timeout cfg) (cfg_fixed_isn cfg) rnd"

definition syn_seg :: "WrappingInt32 \<Rightarrow> TCPSegment" where
  "syn_seg isn = \<lparr>ts_header = th_default\<lparr>th_seqno := isn, th_syn := True\<rparr>, ts_payload = []\<rparr>"

lemma syn_seg_simps [simp]:
  "th_syn (ts_header (syn_seg isn))" "\<not> th_fin (ts_header (syn_seg isn))" "\<not> th_rst (ts_header (syn_seg isn))"
  "\<not> th_ack (ts_header (syn_seg isn))" "ts_payload (syn_seg isn) = []" "th_seqno (ts_header (syn_seg isn)) = isn"
  by (simp_all add: syn_seg_def th_default_def)

lemma cn_fill_simps [simp]:
  "th_syn (ts_header (cn_fill_seg_fields c seg)) = th_syn (ts_header seg)" "th_fin (ts_header (cn_fill_seg_fields c seg)) = th_fin (ts_header seg)"
  "th_rst (ts_header (cn_fill_seg_fields c seg)) = th_rst (ts_header seg)" "ts_payload (cn_fill_seg_fields c seg) = ts_payload seg"
  "th_seqno (ts_header (cn_fill_seg_fields c seg)) = th_seqno (ts_header seg)"
  "length_in_sequence_space (cn_fill_seg_fields c seg) = length_in_sequence_space seg"
  "th_ack (ts_header (cn_fill_seg_fields c seg)) = (th_ack (ts_header seg) \<or> rcv_ackno (cn_receiver c) \<noteq> None)"
  "rcv_ackno (cn_receiver c) = Some k \<Longrightarrow> th_ackno (ts_header (cn_fill_seg_fields c seg)) = k"
  by (simp_all add: cn_fill_seg_fields_def Let_def length_in_sequence_space_def split: option.splits)

lemma cn_connect_new:
  "cn_connect (cn_new cfg rnd) =
     cn_opening cfg rnd (cn_syn_sent cfg rnd) (rcv_new (cfg_recv_capacity cfg))
       [cn_fill_seg_fields (cn_new cfg rnd) (syn_seg (snd_isn (cn_syn_sent cfg rnd)))]"
proof -
  let ?c = "cn_map_sender snd_fill_window (cn_new cfg rnd)"
  let ?syn = "syn_seg (snd_isn (cn_syn_sent cfg rnd))"
  have "snd_segments_out (cn_sender ?c) = [?syn]"
    by (simp add: cn_map_sender_def cn_new_def snd_fill_new Let_def syn_seg_def snd_opened_simps)
  moreover have "cn_peer_fin_seqno ?c = 0" by (simp add: cn_map_sender_def cn_new_def)
  ultimately show ?thesis unfolding cn_connect_def
    by (subst cn_send_plain) (simp_all add: cn_map_sender_def cn_new_def cn_opening_def snd_opened_def cn_fill_seg_fields_def)
qed

lemma cn_receive_syn:
  assumes "ts_payload seg = []" "\<not> th_fin (ts_header seg)" "\<not> th_rst (ts_header seg)" "th_syn (ts_header seg)" "\<not> th_ack (ts_header seg)"
  shows "\<exists>c. cn_segment_received seg (cn_new cfg rnd) = Inr (cn_opening cfg rnd (cn_syn_sent cfg rnd)
    (rcv_opened (cfg_recv_capacity cfg) (th_seqno (ts_header seg))) [cn_fill_seg_fields c (syn_seg (snd_isn (cn_syn_sent cfg rnd)))]) \<and>
    rcv_ackno (cn_receiver c) = Some (wrap 1 (th_seqno (ts_header seg)))"
proof -
  let ?r = "rcv_opened (cfg_recv_capacity cfg) (th_seqno (ts_header seg))" and ?syn = "syn_seg (snd_isn (cn_syn_sent cfg rnd))"
  let ?c = "cn_map_sender snd_fill_window ((cn_new cfg rnd)\<lparr>cn_receiver := ?r\<rparr>)"
  have chk: "cn_check_rcv_fin seg (cn_new cfg rnd) = cn_new cfg rnd" using assms by (simp add: cn_check_rcv_plain cn_new_def)
  have rcv: "rcv_segment_received seg (cn_receiver (cn_new cfg rnd)) = Inr ?r"
    using assms by (simp add: rcv_plain rcv_syn_new cn_new_def)
  have q: "snd_segments_out (cn_sender ?c) = [?syn]" "cn_peer_fin_seqno ?c = 0" "cn_newest_seg_time ?c = 0"
    by (simp_all add: cn_map_sender_def cn_new_def snd_fill_new Let_def syn_seg_def snd_opened_simps)
  have "cn_segment_received seg (cn_new cfg rnd) = Inr (cn_send_segs (?c\<lparr>cn_newest_seg_time := 0\<rparr>))"
    using assms q by (simp add: cn_segment_received_def Let_def chk rcv cn_to_sender_def cn_must_ack_def)
  also have "cn_send_segs (?c\<lparr>cn_newest_seg_time := 0\<rparr>) =
      cn_opening cfg rnd (cn_syn_sent cfg rnd) ?r [cn_fill_seg_fields ?c ?syn]"
    using q by (subst cn_send_plain) (simp_all add: cn_map_sender_def cn_new_def cn_opening_def snd_opened_def cn_fill_seg_fields_def)
  finally show ?thesis by (intro exI [of _ ?c] conjI) (simp_all add: cn_map_sender_def)
qed

abbreviation cn_syn_acked :: "TCPConfig \<Rightarrow> u32 \<Rightarrow> u16 \<Rightarrow> TCPSender" where
  "cn_syn_acked cfg rnd w \<equiv> snd_ack_received (wrap 1 (snd_isn (cn_syn_sent cfg rnd))) w (cn_syn_sent cfg rnd)"

lemma cn_opening_simps [simp]:
  "cn_sender (cn_opening cfg rnd s r out) = s" "cn_receiver (cn_opening cfg rnd s r out) = r"
  "cn_segments_out (cn_opening cfg rnd s r out) = out" "cn_self_fin_seqno (cn_opening cfg rnd s r out) = 0"
  "cn_peer_fin_seqno (cn_opening cfg rnd s r out) = 0" "cn_newest_seg_time (cn_opening cfg rnd s r out) = 0"
  "(cn_opening cfg rnd s r out)\<lparr>cn_receiver := r'\<rparr> = cn_opening cfg rnd s r' out"
  "(cn_opening cfg rnd s r out)\<lparr>cn_segments_out := out'\<rparr> = cn_opening cfg rnd s r out'"
  "(cn_opening cfg rnd s r out)\<lparr>cn_newest_seg_time := 0\<rparr> = cn_opening cfg rnd s r out"
  "cn_map_sender f (cn_opening cfg rnd s r out) = cn_opening cfg rnd (f s) r out"
  by (simp_all add: cn_opening_def cn_map_sender_def cn_new_def)

lemma cn_opening_send:
  "snd_segments_out s = [seg] \<Longrightarrow> \<not> th_fin (ts_header seg) \<Longrightarrow>
   cn_send_segs (cn_opening cfg rnd s r out) =
     cn_opening cfg rnd (s\<lparr>snd_segments_out := []\<rparr>) r (out @ [cn_fill_seg_fields (cn_opening cfg rnd s r out) seg])"
  by (subst cn_send_plain) (simp_all add: cn_opening_def cn_new_def)

lemma snd_queue_empty: "snd_segments_out s = [] \<Longrightarrow> s\<lparr>snd_segments_out := []\<rparr> = s"
  by (cases s) simp

lemma cn_receive_synack:
  fixes cap :: u64
  assumes "ts_payload seg = []" "\<not> th_fin (ts_header seg)" "\<not> th_rst (ts_header seg)" "th_syn (ts_header seg)" "th_ack (ts_header seg)"
    and "th_ackno (ts_header seg) = wrap 1 (snd_isn (cn_syn_sent cfg rnd))"
  defines "r \<equiv> rcv_opened cap (th_seqno (ts_header seg))" and "s \<equiv> cn_syn_acked cfg rnd (th_win (ts_header seg))"
  shows "\<exists>c. cn_segment_received seg (cn_opening cfg rnd (cn_syn_sent cfg rnd) (rcv_new cap) []) =
      Inr (cn_opening cfg rnd s r [cn_fill_seg_fields c (ts_default\<lparr>ts_header := th_default\<lparr>th_seqno := snd_next_seqno_rel s\<rparr>\<rparr>)]) \<and>
    rcv_ackno (cn_receiver c) = Some (wrap 1 (th_seqno (ts_header seg)))"
proof -
  let ?c = "cn_opening cfg rnd (cn_syn_sent cfg rnd) (rcv_new cap) []"
  let ?c' = "cn_opening cfg rnd (snd_send_empty_segment s) r []"
  let ?e = "ts_default\<lparr>ts_header := th_default\<lparr>th_seqno := snd_next_seqno_rel s\<rparr>\<rparr>"
  have s: "snd_segments_out s = []" "snd_next_seqno s = 1" unfolding s_def snd_opened_ack by (simp_all add: snd_opened_simps)
  have rcv: "rcv_segment_received seg (rcv_new cap) = Inr r" using assms(1-4) by (simp add: rcv_plain rcv_syn_new r_def)
  have len: "0 < length_in_sequence_space seg" using assms(1,2,4) by (simp add: length_in_sequence_space_def)
  have snd: "cn_to_sender seg (cn_opening cfg rnd (cn_syn_sent cfg rnd) r []) = cn_opening cfg rnd s r []"
    using assms(5,6) by (simp add: cn_to_sender_def s_def)
  have "cn_segment_received seg ?c = Inr (cn_send_segs ?c')"
    using assms(1-3) by (simp add: cn_segment_received_def Let_def cn_check_rcv_plain rcv snd cn_must_ack_def s len)
  moreover have "cn_send_segs ?c' = cn_opening cfg rnd s r [cn_fill_seg_fields ?c' ?e]"
    using s by (subst cn_opening_send [of _ ?e]) (simp_all add: snd_send_empty_segment_def snd_next_seqno_rel_def ts_default_def th_default_def snd_queue_empty)
  ultimately show ?thesis by (intro exI [of _ ?c'] conjI) (simp_all add: r_def)
qed

lemma wi_minus_1 [simp]: "x \<noteq> wi_minus x 1"
  by (cases x) (simp add: wi_minus_def wi_plus_def)

lemma cn_receive_ack:
  assumes "ts_payload seg = []" "\<not> th_fin (ts_header seg)" "\<not> th_rst (ts_header seg)" "\<not> th_syn (ts_header seg)" "th_ack (ts_header seg)"
    and "th_ackno (ts_header seg) = wrap 1 (snd_isn (cn_syn_sent cfg rnd))" and "th_seqno (ts_header seg) = wrap 1 isn"
  shows "cn_segment_received seg (cn_opening cfg rnd (cn_syn_sent cfg rnd) (rcv_opened cap isn) []) =
    Inr (cn_opening cfg rnd (cn_syn_acked cfg rnd (th_win (ts_header seg))) (rcv_opened cap isn) [])"
proof -
  let ?s = "cn_syn_acked cfg rnd (th_win (ts_header seg))"
  have s: "snd_segments_out ?s = []" unfolding snd_opened_ack by (simp add: snd_opened_simps)
  have rcv: "rcv_segment_received seg (rcv_opened cap isn) = Inr (rcv_opened cap isn)"
    using assms(1-4) by (simp add: rcv_plain rcv_syn_opened)
  have "length_in_sequence_space seg = 0" using assms(1,2,4) by (simp add: length_in_sequence_space_def)
  then have "\<not> cn_must_ack seg (cn_opening cfg rnd ?s (rcv_opened cap isn) [])" by (simp add: cn_must_ack_def assms(7))
  then show ?thesis
    using assms(1-6) s by (simp add: cn_segment_received_def Let_def cn_check_rcv_plain rcv cn_to_sender_def)
qed

text \<open>The states of an opening connection.\<close>

lemma cn_opening_state:
  "\<not> bs_err (rcv_stream_out r) \<Longrightarrow> \<not> bs_is_end (rcv_stream_out r) \<Longrightarrow> cn_state (cn_opening cfg rnd (cn_syn_sent cfg rnd) r out) =
     TCPState_official (if rcv_ackno r = None then SYN_SENT else SYN_RCVD)"
  "\<not> bs_err (rcv_stream_out r) \<Longrightarrow> \<not> bs_is_end (rcv_stream_out r) \<Longrightarrow> rcv_ackno r \<noteq> None \<Longrightarrow>
     cn_state (cn_opening cfg rnd (cn_syn_acked cfg rnd w) r out) = TCPState_official ESTABLISHED"
  unfolding cn_state_def TCPState_of_def cn_opening_simps snd_opened_ack
  by (auto simp: snd_opened_simps cn_active_def cn_opening_def cn_new_def snd_state_summary_def rcv_state_summary_def
      bs_error_def bs_input_ended_def bs_eof_def bs_new_def)

text \<open>What is waiting at one endpoint is delivered to the other, in order.\<close>

fun cn_receive_all :: "TCPSegment list \<Rightarrow> TCPConnection \<Rightarrow> TCPConnection res" where
  "cn_receive_all [] c = Inr c"
| "cn_receive_all (seg # segs) c = bindE (cn_segment_received seg c) (cn_receive_all segs)"

definition cn_flush :: "TCPConnection \<Rightarrow> TCPConnection \<Rightarrow> (TCPConnection \<times> TCPConnection) res" where
  "cn_flush x y = bindE (cn_receive_all (cn_segments_out x) y) (\<lambda>y'. Inr (x\<lparr>cn_segments_out := []\<rparr>, y'))"

section \<open>The summary of the sender\<close>

lemma snd_written_fill [simp]: "bs_total_bytes_written (snd_stream (snd_fill_window s)) = bs_total_bytes_written (snd_stream s)"
  by (rule snd_fill_window_keeps [of "\<lambda>s. bs_total_bytes_written (snd_stream s)"])
     (auto simp: snd_fill_cond_def get_data_eq snd_fill_body_frame bs_pop_output_eq split: if_splits)

lemma snd_written_ack [simp]: "bs_total_bytes_written (snd_stream (snd_ack_received ackno w s)) = bs_total_bytes_written (snd_stream s)"
  by (simp add: snd_ack_received_def Let_def split: prod.splits)

definition snd_count_inv :: "TCPSender \<times> bytes \<times> TCPSegment list \<Rightarrow> bool" where
  "snd_count_inv c \<longleftrightarrow> bs_total_bytes_written (snd_stream (fst c)) = of_nat (length (fst (snd c)))"

lemma snd_count_inv_step: "snd_count_inv c \<Longrightarrow> snd_step c c' \<Longrightarrow> snd_count_inv c'"
proof (erule snd_step.cases)
  fix d s st n S hist
  assume *: "snd_count_inv c" "c = (s, S, hist)" "c' = (s\<lparr>snd_stream := st\<rparr>, S @ take (unat n) d, hist)" "bs_write d (snd_stream s) = (st, n)"
  have "unat n \<le> length d"
    using *(4) by (auto simp: bs_write_eq Let_def unat_of_nat intro: order_trans [OF take_bit_nat_less_eq_self] split: if_splits)
  then have "of_nat (length (take (unat n) d)) = n" by simp
  moreover have "bs_total_bytes_written st = bs_total_bytes_written (snd_stream s) + n"
    using *(4) bs_total_bytes_written_write [of d "snd_stream s"] by simp
  ultimately show "snd_count_inv c'" using *(1-3) by (simp add: snd_count_inv_def)
qed (auto simp: snd_count_inv_def snd_tick_def snd_send_empty_segment_def bs_end_input_def Let_def bindE_Inr_iff split: if_splits)

interpretation sct: invariant_system "\<lambda>c. c = (snd_new cap rto (Some isn) rnd, [], [])" snd_step snd_count_inv for cap rto isn rnd
  by unfold_locales (simp add: snd_count_inv_def snd_new_def bs_new_def, rule snd_count_inv_step)

section \<open>Properties\<close>

text \<open>
  C15. The roles in the closing of a connection, for any run of an endpoint against any peer: it is never both the active
  and the passive closer, it keeps the intention to linger exactly while it is not the passive closer and
  not reset, only an active closer whose FIN is acknowledged and who acknowledges the peer's FIN lingers, and between two calls
  nothing is left in the queue of the sender.
\<close>

theorem connection_roles:
  assumes "reach (\<lambda>c. c = cn_new cfg rnd) cn_step c"
  shows "\<not> (cn_first_send_fin c \<and> cn_first_receive_fin c) \<and>
     (cn_linger_after_streams_finish c \<longleftrightarrow> \<not> cn_first_receive_fin c \<and> \<not> cn_rst c) \<and>
     (cn_lingering c \<longrightarrow> cn_first_send_fin c \<and> cn_self_fin_acked c \<and> cn_peer_fin_acking c) \<and>
     snd_segments_out (cn_sender c) = []"
  using cnx.inv_reach [OF assms] by (simp add: cn_wf_def cn_flags_ok_def)

text \<open>
  C16. The linger time. A lingering connection whose clock stands at \<open>t\<close> stays active through ticks that do not
  bring the clock to ten times the retransmission timeout, and the tick that does ends the connection:
  it returns, the connection is inactive and its inbound stream has ended.
\<close>

theorem connection_linger_ends:
  fixes c :: TCPConnection
  defines "lim \<equiv> 10 * unat (cfg_rt_timeout (cn_cfg c))" and "t \<equiv> unat (cn_newest_seg_time c)"
  assumes "reach (\<lambda>c. c = cn_new cfg rnd) cn_step c" and "cn_lingering c" and "\<not> cn_rst c" and "snd_fail_count (cn_sender c) < 8"
    and "t + sum_list (map unat mss) < lim" and "lim \<le> t + sum_list (map unat mss) + unat ms"
    and "t + sum_list (map unat mss) + unat ms < 2 ^ 64"
  shows "\<exists>c1 c2. cn_ticks mss c = Inr c1 \<and> cn_active c1 \<and> cn_tick ms c1 = Inr c2 \<and> \<not> cn_active c2 \<and>
    bs_input_ended (cn_inbound_stream c2)"
proof -
  let ?c1 = "c\<lparr>cn_newest_seg_time := cn_newest_seg_time c + sum_list mss\<rparr>"
  have wf: "cn_wf c" by (rule cnx.inv_reach [OF assms(3)])
  then have fl: "cn_self_fin_acked c" "cn_peer_fin_acking c" using assms(4) by (auto simp: cn_wf_def cn_flags_ok_def)
  have run: "cn_ticks mss c = Inr ?c1"
    using cn_ticks_linger [OF wf assms(4,6)] assms(7) by (simp add: lim_def t_def)
  have nat: "unat (sum_list ns) = sum_list (map unat ns)" if "sum_list (map unat ns) < 2 ^ 64" for ns :: "u64 list"
    using that by (induction ns) (simp_all add: unat_add_nowrap)
  have "unat (10 * ucast (cfg_rt_timeout (cn_cfg c)) :: u64) = lim" unfolding lim_def by (rule unat_linger_limit)
  moreover have "unat (cn_newest_seg_time c + sum_list mss) = t + sum_list (map unat mss)"
    using assms(9) nat [of mss] by (subst unat_add_nowrap) (simp_all add: t_def)
  then have "unat (cn_newest_seg_time c + sum_list mss + ms) = t + sum_list (map unat mss) + unat ms"
    using assms(9) by (subst unat_add_nowrap) simp_all
  ultimately have "10 * ucast (cfg_rt_timeout (cn_cfg c)) \<le> cn_newest_seg_time c + sum_list mss + ms"
    using assms(8) by (simp add: word_le_nat_alt)
  then have "cn_tick ms ?c1 = Inr ((cn_map_stream_out bs_end_input (?c1\<lparr>cn_newest_seg_time := cn_newest_seg_time ?c1 + ms\<rparr>))\<lparr>cn_lingering := False\<rparr>)"
    using cn_tick_linger [of ?c1 ms] wf assms(4,6) by (simp add: Let_def cn_wf_def)
  then show ?thesis using run assms(4,5) fl
    by (intro exI conjI) (auto simp: cn_active_def cn_map_stream_out_def cn_inbound_stream_def bs_input_ended_def bs_end_input_def)
qed



text \<open>
  C18. Giving up. While a segment is outstanding and nothing is acknowledged, the first eight expiries of the timer each send the oldest
  outstanding segment again, with the acknowledgment and window of the receiver filled in, and nothing else; the
  next tick, of any length, sends RST and ends the connection.
\<close>

theorem connection_gives_up:
  assumes "reach (\<lambda>c. c = cn_new cfg rnd) cn_step c" and "\<not> cn_self_fin_acked c"
    and "tm_at 0 (snd_timer (cn_sender c))" and "snd_received_window_size (cn_sender c) \<noteq> 0"
    and "snd_outstanding_buffer (cn_sender c) = seg # segs"
  shows "\<exists>c1 c2. cn_timeouts 8 c = Inr c1 \<and> cn_segments_out c1 = cn_segments_out c @ replicate 8 (cn_fill_seg_fields c seg) \<and>
    cn_rst c1 = cn_rst c \<and> cn_tick ms c1 = Inr c2 \<and>
    cn_segments_out c2 = cn_segments_out c1 @ [ts_default\<lparr>ts_header := th_default\<lparr>th_rst := True\<rparr>\<rparr>] \<and> \<not> cn_active c2"
proof -
  have wf: "cn_wf c" by (rule cnx.inv_reach [OF assms(1)])
  then have "cn_waiting 0 seg c" using assms(2-) by (auto simp: cn_waiting_def cn_wf_def cn_flags_ok_def)
  from cn_timeouts_waiting [OF this, of 8] obtain c1 where c1: "cn_timeouts 8 c = Inr c1" "cn_waiting 8 seg c1"
    "cn_segments_out c1 = cn_segments_out c @ replicate 8 (cn_fill_seg_fields c seg)" "cn_rst c1 = cn_rst c" by auto
  have "unat (snd_fail_count (cn_sender c1)) = 8" using snd_fail_count_at c1(2) by (simp add: cn_waiting_def)
  then have "(ucast MAX_RETX_ATTEMPTS :: u64) \<le> snd_fail_count (cn_sender c1)" by (simp add: MAX_RETX_ATTEMPTS_def word_le_nat_alt)
  then have "cn_tick ms c1 = Inr (cn_reset True (c1\<lparr>cn_newest_seg_time := cn_newest_seg_time c1 + ms\<rparr>))"
    by (simp add: cn_tick_def Let_def)
  then show ?thesis using c1 by (auto simp: cn_active_def cn_reset_def Let_def cn_map_stream_in_def cn_map_stream_out_def)
qed

text \<open>
  C19. The three-way handshake, for every configuration and every pair of initial sequence numbers: the connecting side goes
  to SYN_SENT, the listening side answers the SYN and goes to SYN_RCVD, and after the answer and its
  acknowledgment both are in ESTABLISHED, each knows the other's initial sequence number, and no segment is left.
\<close>

theorem three_way_handshake:
  "\<exists>a1 b1 a2 b2 a3 b3.
     cn_flush (cn_connect (cn_new cfg rnd)) (cn_new cfg' rnd') = Inr (a1, b1) \<and> cn_flush b1 a1 = Inr (b2, a2) \<and> cn_flush a2 b2 = Inr (a3, b3) \<and>
     cn_state a1 = TCPState_official SYN_SENT \<and> cn_state b1 = TCPState_official SYN_RCVD \<and>
     cn_state a3 = TCPState_official ESTABLISHED \<and> cn_state b3 = TCPState_official ESTABLISHED \<and>
     rcv_isn (cn_receiver b3) = snd_isn (cn_sender a3) \<and> rcv_isn (cn_receiver a3) = snd_isn (cn_sender b3) \<and>
     cn_segments_out a3 = [] \<and> cn_segments_out b3 = []"
proof -
  let ?sa = "cn_syn_sent cfg rnd" and ?sb = "cn_syn_sent cfg' rnd'"
  let ?ra = "rcv_opened (cfg_recv_capacity cfg) (snd_isn ?sb)" and ?rb = "rcv_opened (cfg_recv_capacity cfg') (snd_isn ?sa)"
  let ?a1 = "cn_opening cfg rnd ?sa (rcv_new (cfg_recv_capacity cfg)) []"
  let ?syn = "cn_fill_seg_fields (cn_new cfg rnd) (syn_seg (snd_isn ?sa))"
  have syn: "\<not> th_ack (ts_header ?syn)" by (simp add: cn_new_def)
  obtain c where b1: "cn_segment_received ?syn (cn_new cfg' rnd') = Inr (cn_opening cfg' rnd' ?sb ?rb [cn_fill_seg_fields c (syn_seg (snd_isn ?sb))])"
    and c: "rcv_ackno (cn_receiver c) = Some (wrap 1 (snd_isn ?sa))"
    using cn_receive_syn [of ?syn cfg' rnd'] syn by auto
  let ?synack = "cn_fill_seg_fields c (syn_seg (snd_isn ?sb))"
  let ?sa2 = "cn_syn_acked cfg rnd (th_win (ts_header ?synack))"
  let ?ack = "ts_default\<lparr>ts_header := th_default\<lparr>th_seqno := snd_next_seqno_rel ?sa2\<rparr>\<rparr>"
  obtain d where a2: "cn_segment_received ?synack ?a1 = Inr (cn_opening cfg rnd ?sa2 ?ra [cn_fill_seg_fields d ?ack])"
    and d: "rcv_ackno (cn_receiver d) = Some (wrap 1 (snd_isn ?sb))"
    using cn_receive_synack [of ?synack cfg rnd "cfg_recv_capacity cfg"] c by auto
  have seq: "snd_next_seqno_rel ?sa2 = wrap 1 (snd_isn ?sa)"
    unfolding snd_opened_ack by (simp add: snd_next_seqno_rel_def snd_opened_simps)
  let ?a = "cn_fill_seg_fields d ?ack"
  have b3: "cn_segment_received ?a (cn_opening cfg' rnd' ?sb ?rb []) = Inr (cn_opening cfg' rnd' (cn_syn_acked cfg' rnd' (th_win (ts_header ?a))) ?rb [])"
    using d seq by (intro cn_receive_ack) (simp_all add: ts_default_def th_default_def)
  have isn: "snd_isn (cn_syn_acked x y w) = snd_isn (cn_syn_sent x y)" for x y w by simp
  let ?b1 = "cn_opening cfg' rnd' ?sb ?rb" and ?a2 = "cn_opening cfg rnd ?sa2 ?ra" and ?b3 = "cn_opening cfg' rnd' (cn_syn_acked cfg' rnd' (th_win (ts_header ?a))) ?rb"
  have "cn_flush (cn_connect (cn_new cfg rnd)) (cn_new cfg' rnd') = Inr (?a1, ?b1 [?synack])" by (simp add: cn_flush_def cn_connect_new b1)
  moreover have "cn_flush (?b1 [?synack]) ?a1 = Inr (?b1 [], ?a2 [?a])" by (simp only: cn_flush_def cn_opening_simps cn_receive_all.simps a2 bindE_simps)
  moreover have "cn_flush (?a2 [?a]) (?b1 []) = Inr (?a2 [], ?b3 [])" by (simp only: cn_flush_def cn_opening_simps cn_receive_all.simps b3 bindE_simps)
  moreover have "cn_state ?a1 = TCPState_official SYN_SENT" by (subst cn_opening_state) (simp_all add: rcv_stream_out_def rcv_new_def sr_new_def bs_new_def rcv_ackno_def)
  moreover have "cn_state (?b1 [?synack]) = TCPState_official SYN_RCVD" by (subst cn_opening_state) simp_all
  moreover have "cn_state (?a2 []) = TCPState_official ESTABLISHED" "cn_state (?b3 []) = TCPState_official ESTABLISHED"
    by (subst cn_opening_state; simp)+
  moreover have "rcv_isn (cn_receiver (?b3 [])) = snd_isn (cn_sender (?a2 []))" "rcv_isn (cn_receiver (?a2 [])) = snd_isn (cn_sender (?b3 []))"
    "cn_segments_out (?a2 []) = []" "cn_segments_out (?b3 []) = []" by (simp_all add: isn)
  ultimately show ?thesis by blast
qed

text \<open>
  The summary of the sender means what its name says, in every state reachable by writes, acknowledgments and ticks
  without a reset: closed until SYN is sent, SYN_SENT until something is acknowledged, ongoing until FIN is sent,
  then FIN_SENT until the acknowledgment covers SYN, the whole stream and FIN.
\<close>

theorem sender_summary_meaning:
  assumes run: "reach (\<lambda>c. c = (snd_new cap rto (Some isn) rnd, [], [])) snd_step (s, S, hist)" and ok: "\<not> bs_error (snd_stream s)"
  shows "snd_state_summary s =
    (if \<not> snd_syn_sent s then S_CLOSED else if snd_acked_next s = 0 then S_SYN_SENT else if \<not> snd_fin_sent s then S_SYN_ACKED
     else if unat (snd_acked_next s) < length S + 2 then S_FIN_SENT else S_FIN_ACKED)"
proof -
  have inv: "snd_inv S hist s" using sender.inv_reach [OF run] by (simp add: snd_run_inv_def)
  have cnt: "bs_total_bytes_written (snd_stream s) = of_nat (length S)" using sct.inv_reach [OF run] by (simp add: snd_count_inv_def)
  obtain sent where sent: "S = sent @ bs_buf (snd_stream s)"
    "unat (snd_next_seqno s) = snd_flag (snd_syn_sent s) + length sent + snd_flag (snd_fin_sent s)" "\<not> snd_syn_sent s \<longrightarrow> sent = []"
    using inv by (auto simp: snd_invp_def)
  have small: "length S < 2 ^ 64 - 3" and fin: "snd_fin_sent s \<Longrightarrow> bs_eof (snd_stream s)" "snd_fin_sent s \<Longrightarrow> snd_syn_sent s"
    and chain: "unat (snd_acked_next s) \<le> unat (snd_next_seqno s)" and fl: "snd_bytes_in_flight s = snd_next_seqno s - snd_acked_next s"
    using inv snd_chain_le by (auto simp: snd_invp_def)
  have lim: "unat (bs_bytes_written (snd_stream s) + 2) = length S + 2"
    using small unat_add_of_nat [of 2 "length S"] by (simp add: bs_bytes_written_def cnt add.commute)
  have closed: "snd_next_seqno s = 0 \<longleftrightarrow> \<not> snd_syn_sent s"
    using sent fin(2) unat_eq_zero [of "snd_next_seqno s"] by (auto simp: snd_flag_def split: if_splits)
  have acked: "snd_next_seqno s = snd_bytes_in_flight s \<longleftrightarrow> snd_acked_next s = 0" using fl by (auto simp: algebra_simps)
  have eof: "bs_eof (snd_stream s) \<Longrightarrow> snd_syn_sent s \<Longrightarrow> unat (snd_next_seqno s) = length S + 1 + snd_flag (snd_fin_sent s)"
    using sent by (auto simp: snd_flag_def bs_eof_def)
  have all: "snd_bytes_in_flight s = 0 \<longleftrightarrow> snd_acked_next s = snd_next_seqno s" using fl by auto
  show ?thesis
    using ok closed acked eof all fin chain lim
    by (auto simp: snd_state_summary_def word_less_nat_alt snd_flag_def word_unat_eq_iff split: if_splits)
qed

section \<open>A run: open, close first, linger\<close>

definition cn_demo_cfg :: TCPConfig where
  "cn_demo_cfg = \<lparr>cfg_rt_timeout = 1000, cfg_recv_capacity = 16, cfg_send_capacity = 16, cfg_fixed_isn = Some (WrappingInt32 7)\<rparr>"
definition cn_demo_seg :: "u32 \<Rightarrow> u32 \<Rightarrow> bool \<Rightarrow> bool \<Rightarrow> bool \<Rightarrow> TCPSegment" where
  "cn_demo_seg seqno ackno ack syn fin = \<lparr>ts_header = \<lparr>th_sport = 0, th_dport = 0, th_seqno = WrappingInt32 seqno,
     th_ackno = WrappingInt32 ackno, th_doff = 5, th_urg = False, th_ack = ack, th_psh = False, th_rst = False,
     th_syn = syn, th_fin = fin, th_win = 16, th_cksum = 0, th_uptr = 0\<rparr>, ts_payload = []\<rparr>"

definition cn_demo_rcv :: "bool \<Rightarrow> u16 \<Rightarrow> u32 \<Rightarrow> u64 \<Rightarrow> u64 \<Rightarrow> bool \<Rightarrow> TCPReceiver" where
  "cn_demo_rcv ended st isn ack lastno syn = \<lparr>rcv_reassembler = \<lparr>sr_output = \<lparr>bs_cap = 16, bs_is_end = ended, bs_total_bytes_written = 0,
       bs_total_bytes_read = 0, bs_buf = [], bs_err = False\<rparr>, sr_capacity = 16, sr_unassemBuf = [], sr_assemBuf = [],
     sr_expectIdx = 0, sr_unassemSize = 0, sr_eofIndex = -1\<rparr>, rcv_capacity = 16, rcv_state = st, rcv_window_size_field = 16,
     rcv_isn = WrappingInt32 isn, rcv_ack_no_64 = ack, rcv_last_no = lastno, rcv_received_syn = syn, rcv_received_fin = ended\<rparr>"

definition cn_demo_snd :: "bool \<Rightarrow> u64 \<Rightarrow> u64 \<Rightarrow> bool \<Rightarrow> TCPSegment list \<Rightarrow> u16 \<Rightarrow> u64 \<Rightarrow> bool \<Rightarrow> u64 \<Rightarrow> TCPSender" where
  "cn_demo_snd ended next acked running outstanding win rwin finsent inflight = \<lparr>snd_isn = WrappingInt32 7, snd_segments_out = [],
     snd_initial_retransmission_timeout = 1000, snd_stream = \<lparr>bs_cap = 16, bs_is_end = ended, bs_total_bytes_written = 0,
       bs_total_bytes_read = 0, bs_buf = [], bs_err = False\<rparr>, snd_next_seqno = next, snd_acked_next = acked,
     snd_timer = \<lparr>tm_rto = 1000, tm_initial_rto = 1000, tm_time_pass = 0, tm_fail_count = 0, tm_running = running,
        tm_retransmission_timeout_shift = 0\<rparr>, snd_outstanding_buffer = outstanding, snd_peer_window_size = win,
     snd_received_window_size = rwin, snd_syn_sent = True, snd_fin_sent = finsent, snd_bytes_in_flight = inflight\<rparr>"

definition cn_demo_st :: "TCPReceiver \<Rightarrow> TCPSender \<Rightarrow> TCPSegment list \<Rightarrow> bool \<Rightarrow> bool \<Rightarrow> u64 \<Rightarrow> u64 \<Rightarrow> TCPConnection" where
  "cn_demo_st r s out lingering closed self peer = \<lparr>cn_cfg = cn_demo_cfg, cn_receiver = r, cn_sender = s, cn_segments_out = out,
    cn_linger_after_streams_finish = True, cn_lingering = lingering, cn_fin_acked = False, cn_newest_seg_time = 0,
    cn_first_send_fin = closed, cn_first_receive_fin = False, cn_self_fin_seqno = self, cn_self_fin_acked = lingering,
    cn_peer_fin_seqno = peer, cn_peer_fin_acking = lingering, cn_rst = False\<rparr>"

definition cn_demo1 :: TCPConnection where
  "cn_demo1 = cn_demo_st (cn_demo_rcv False 0 0 0 0 False) (cn_demo_snd False 1 0 True [snd_demo_syn] 0 1 False 1)
     [cn_demo_seg 7 0 False True False] False False 0 0"

definition cn_demo2 :: TCPConnection where
  "cn_demo2 = cn_demo_st (cn_demo_rcv False 1 100 1 0 True) (cn_demo_snd False 1 1 False [] 16 16 False 0)
     [cn_demo_seg 7 0 False True False, cn_demo_seg 8 101 True False False] False False 0 0"

definition cn_demo3 :: TCPConnection where
  "cn_demo3 = cn_demo_st (cn_demo_rcv False 1 100 1 0 True)
     (cn_demo_snd True 2 1 True [\<lparr>ts_header = th_default\<lparr>th_seqno := WrappingInt32 8, th_fin := True\<rparr>, ts_payload = []\<rparr>] 15 16 True 1)
     [cn_demo_seg 7 0 False True False, cn_demo_seg 8 101 True False False, cn_demo_seg 8 101 True False True] False True 2 0"

definition cn_demo4 :: TCPConnection where
  "cn_demo4 = cn_demo_st (cn_demo_rcv True 2 100 2 2 True) (cn_demo_snd True 2 2 False [] 16 16 True 0)
     [cn_demo_seg 7 0 False True False, cn_demo_seg 8 101 True False False, cn_demo_seg 8 101 True False True,
      cn_demo_seg 9 102 True False False] True True 2 2"

lemma cn_demo_connect: "cn_connect (cn_new cn_demo_cfg 0) = cn_demo1"
  by code_simp

lemma cn_demo_synack: "cn_segment_received (cn_demo_seg 100 8 True True False) cn_demo1 = Inr cn_demo2"
  by code_simp

lemma cn_demo_close: "cn_end_input_stream cn_demo2 = cn_demo3"
  by code_simp

lemma cn_demo_finack: "cn_segment_received (cn_demo_seg 101 9 True False True) cn_demo3 = Inr cn_demo4"
  by code_simp

lemma cn_demo1_reach: "reach (\<lambda>c. c = cn_new cn_demo_cfg 0) cn_step cn_demo1"
  unfolding cn_demo_connect [symmetric] by (rule reach_step, rule reach_init, rule refl, rule cn_step.app_connect)

lemma cn_demo4_reach: "reach (\<lambda>c. c = cn_new cn_demo_cfg 0) cn_step cn_demo4"
proof -
  have "reach (\<lambda>c. c = cn_new cn_demo_cfg 0) cn_step cn_demo2"
    by (rule reach_step [OF cn_demo1_reach cn_step.receive [OF cn_demo_synack]])
  then have "reach (\<lambda>c. c = cn_new cn_demo_cfg 0) cn_step cn_demo3"
    unfolding cn_demo_close [symmetric] by (rule reach_step) (rule cn_step.app_close)
  then show ?thesis by (rule reach_step) (rule cn_step.receive [OF cn_demo_finack])
qed

lemma cn_demo4_fields:
  "cn_lingering cn_demo4" "\<not> cn_rst cn_demo4" "snd_fail_count (cn_sender cn_demo4) = 0" "cfg_rt_timeout (cn_cfg cn_demo4) = 1000"
  "cn_newest_seg_time cn_demo4 = 0"
  by (simp_all add: cn_demo4_def cn_demo_st_def cn_demo_snd_def cn_demo_cfg_def snd_fail_count_def)

theorem connection_roles_witness: "cn_lingering cn_demo4 \<and> cn_first_send_fin cn_demo4 \<and> \<not> cn_first_receive_fin cn_demo4"
  using connection_roles [OF cn_demo4_reach] cn_demo4_fields(1) by simp

theorem connection_linger_witness:
  "\<exists>c1 c2. cn_ticks [4000, 5000] cn_demo4 = Inr c1 \<and> cn_active c1 \<and> cn_tick 1000 c1 = Inr c2 \<and> \<not> cn_active c2 \<and>
     bs_input_ended (cn_inbound_stream c2)"
  using connection_linger_ends [OF cn_demo4_reach cn_demo4_fields(1,2), of "[4000, 5000]" 1000] cn_demo4_fields(3,4,5) by simp


lemma cn_demo1_fields:
  "\<not> cn_self_fin_acked cn_demo1" "snd_outstanding_buffer (cn_sender cn_demo1) = [snd_demo_syn]" "length (cn_segments_out cn_demo1) = 1"
  "tm_at 0 (snd_timer (cn_sender cn_demo1))" "snd_received_window_size (cn_sender cn_demo1) \<noteq> 0"
  by (simp_all add: cn_demo1_def cn_demo_st_def cn_demo_snd_def tm_at_def)

theorem connection_gives_up_witness:
  "\<exists>c1 c2. cn_timeouts 8 cn_demo1 = Inr c1 \<and> length (cn_segments_out c1) = 9 \<and> cn_tick 1 c1 = Inr c2 \<and> \<not> cn_active c2"
proof -
  obtain c1 c2 where "cn_timeouts 8 cn_demo1 = Inr c1" and "cn_tick 1 c1 = Inr c2" and "\<not> cn_active c2"
    and out: "cn_segments_out c1 = cn_segments_out cn_demo1 @ replicate 8 (cn_fill_seg_fields cn_demo1 snd_demo_syn)"
    using connection_gives_up [OF cn_demo1_reach cn_demo1_fields(1,4,5,2), of 1] by blast
  moreover have "length (cn_segments_out c1) = 9" unfolding out by (simp add: cn_demo1_fields(3))
  ultimately show ?thesis by blast
qed

theorem sender_summary_witness: "snd_state_summary snd_demo = S_SYN_SENT"
  using sender_summary_meaning [OF snd_demo_reach]
  by (simp add: snd_demo_def snd_demo0_def snd_new_def bs_new_def bs_error_def)

end
