(* ===== verification/Sponge_Correct.thy ===== *)
theory Sponge_Correct
  imports Sponge_Socket Connection_Correct
begin

text \<open>
  What the socket of \<open>Sponge_Socket\<close> does with its connection. It only takes the steps that the theorems on connections allow; bytes pass through it in both directions without
  loss; and its loop ends when the connection is done.
\<close>

section \<open>The connection in the socket\<close>

text \<open>The connection is in a state that its environment can bring it to.\<close>

definition sp_runs :: "TCPConfig \<Rightarrow> u32 \<Rightarrow> ('a, 'w) sp_state \<Rightarrow> bool" where
  "sp_runs cfg rnd s \<longleftrightarrow> (\<exists>c. sp_tcp (fst s) = Some c \<and> reach (\<lambda>c. c = cn_new cfg rnd) cn_step c)"

text \<open>What a callback does: the connection takes a number of steps.\<close>

definition sp_steps :: "('a, 'w) sp_state \<Rightarrow> ('a, 'w) sp_state \<Rightarrow> bool" where
  "sp_steps s s' \<longleftrightarrow> (\<forall>c. sp_tcp (fst s) = Some c \<longrightarrow> (\<exists>c'. sp_tcp (fst s') = Some c' \<and> cn_step\<^sup>*\<^sup>* c c'))"

lemma reach_steps: "step\<^sup>*\<^sup>* s t \<Longrightarrow> reach i step s \<Longrightarrow> reach i step t"
  by (induction rule: rtranclp_induct) (auto intro: reach_step)

lemma sp_steps_runs: "sp_steps s s' \<Longrightarrow> sp_runs cfg rnd s \<Longrightarrow> sp_runs cfg rnd s'"
  unfolding sp_steps_def sp_runs_def using reach_steps by metis

lemma sp_steps_refl [simp]: "sp_tcp (fst s') = sp_tcp (fst s) \<Longrightarrow> sp_steps s s'"
  by (auto simp: sp_steps_def)

lemma sp_steps_one: "sp_tcp (fst s) = Some c \<Longrightarrow> cn_step c c' \<Longrightarrow> sp_tcp (fst s') = Some c' \<Longrightarrow> sp_steps s s'"
  by (auto simp: sp_steps_def)

lemma sp_steps_trans: "sp_steps s s' \<Longrightarrow> sp_steps s' s'' \<Longrightarrow> sp_steps s s''"
  unfolding sp_steps_def by (meson rtranclp_trans)

lemma sp_deref_Inr [simp]: "sp_deref p = Inr c \<longleftrightarrow> sp_tcp p = Some c" "sp_value p = Inr c \<longleftrightarrow> sp_tcp p = Some c"
  by (auto simp: sp_deref_def sp_value_def split: option.splits)

lemma read_segment_steps:
  assumes "sp_read_segment lc ad s = Inr s'"
  shows "sp_steps s s'"
proof -
  obtain p w where s: "s = (p, w)" by fastforce
  obtain w1 a seg p1 where r: "ap_read ad (sp_datagram_adapter p) w = Inr (w1, a, seg)"
    "(case seg of None \<Rightarrow> Inr (p\<lparr>sp_datagram_adapter := a\<rparr>)
      | Some seg \<Rightarrow> bindE (sp_deref (p\<lparr>sp_datagram_adapter := a\<rparr>)) (\<lambda>c. bindE (cn_segment_received seg c) (\<lambda>c. Inr (p\<lparr>sp_datagram_adapter := a, sp_tcp := Some c\<rparr>)))) = Inr p1"
    "sp_tcp (fst s') = sp_tcp p1"
    using assms by (auto simp: sp_read_segment_def s bindE_Inr_iff Let_def split: if_splits)
  have "sp_steps s (p1, w1)"
  proof (cases seg)
    case None
    then show ?thesis using r(2) s by (auto intro: sp_steps_refl)
  next
    case (Some x)
    then obtain c c' where "sp_tcp p = Some c" "cn_segment_received x c = Inr c'" "sp_tcp p1 = Some c'" using r(2) by (auto simp: bindE_Inr_iff)
    then show ?thesis using s by (auto intro: sp_steps_one cn_step.receive)
  qed
  then show ?thesis using r(3) by (simp add: sp_steps_def)
qed

lemma end_outbound_steps: "sp_end_outbound s = Inr s' \<Longrightarrow> sp_steps s s'"
  by (auto simp: sp_end_outbound_def bindE_Inr_iff split: prod.splits intro!: sp_steps_one cn_step.app_close)

lemma read_data_steps:
  assumes "sp_read_data lc k ad s = Inr s'"
  shows "sp_steps s s'"
proof -
  obtain p w where s: "s = (p, w)" by fastforce
  obtain c w1 f data where r: "sp_tcp p = Some c" "fd_read k (unat (cn_remaining_outbound_capacity c)) (sp_thread_data p) w = Inr (w1, f, data)"
    using assms by (auto simp: sp_read_data_def s bindE_Inr_iff)
  obtain c' n where c': "cn_write data c = (c', n)" by fastforce
  let ?s = "(p\<lparr>sp_thread_data := f, sp_tcp := Some c'\<rparr>, w1)"
  have 1: "sp_steps s ?s" using r(1) s by (intro sp_steps_one [OF _ cn_step.app_write [OF c']]) simp_all
  have "s' = ?s \<or> sp_end_outbound ?s = Inr s'"
    using assms r c' by (auto simp: sp_read_data_def s bindE_Inr_iff sp_deref_def Let_def split: if_splits)
  then show ?thesis using 1 end_outbound_steps sp_steps_trans by blast
qed

lemma write_data_steps:
  assumes "sp_write_data lc k ad s = Inr s'"
  shows "sp_steps s s'"
proof -
  obtain p w where s: "s = (p, w)" by fastforce
  obtain c n where c: "sp_tcp p = Some c" "sp_tcp (fst s') = Some (cn_map_stream_out (bs_pop_output n) c)"
    using assms by (auto simp: sp_write_data_def s bindE_Inr_iff Let_def split: if_splits)
  have "cn_step c (cn_map_stream_out (\<lambda>_. bs_pop_output n (cn_inbound_stream c)) c)"
    by (rule cn_step.app_read [of n _ _ "bs_peek_output n (cn_inbound_stream c)"]) (simp add: bs_read_def)
  then show ?thesis using c s by (intro sp_steps_one) (simp_all add: cn_map_stream_out_def cn_inbound_stream_def)
qed

lemma write_loop_steps:
  "sp_write_loop ad segs s = Inr s' \<Longrightarrow> sp_tcp (fst s) = Some c \<Longrightarrow> cn_segments_out c = segs \<Longrightarrow> sp_tcp (fst s') = Some (c\<lparr>cn_segments_out := []\<rparr>)"
proof (induction segs arbitrary: s c)
  case (Cons seg segs)
  obtain p w where s: "s = (p, w)" by fastforce
  obtain w1 a s1 where "ap_write ad seg (sp_datagram_adapter p) w = Inr (w1, a, s1)"
    "sp_write_loop ad segs (p\<lparr>sp_datagram_adapter := a, sp_tcp := Some (c\<lparr>cn_segments_out := segs\<rparr>)\<rparr>, w1) = Inr s'"
    using Cons.prems(1,2) by (auto simp: s bindE_Inr_iff)
  then show ?case using Cons.IH [of "(p\<lparr>sp_datagram_adapter := a, sp_tcp := Some (c\<lparr>cn_segments_out := segs\<rparr>)\<rparr>, w1)" "c\<lparr>cn_segments_out := segs\<rparr>"] by simp
qed auto

lemma write_segments_steps:
  assumes "sp_write_segments ad s = Inr s'"
  shows "sp_steps s s'"
proof -
  obtain c where c: "sp_tcp (fst s) = Some c" "sp_write_loop ad (cn_segments_out c) s = Inr s'"
    using assms by (auto simp: sp_write_segments_def bindE_Inr_iff split: prod.splits)
  show ?thesis by (rule sp_steps_one [OF c(1) cn_step.take_out write_loop_steps [OF c(2,1) refl]])
qed

lemmas sp_rules_eq = sp_rules_def el_add_rule_def Let_def

interpretation spl: looped k "sp_rules lc k ad []" "sp_runs cfg rnd" for lc k ad cfg rnd
proof (unfold_locales, goal_cases)
  case (1 r s s')
  then have "sp_steps s s'"
    by (auto simp: sp_rules_eq dest: read_segment_steps read_data_steps write_data_steps write_segments_steps)
  then show ?case using 1(2) by (rule sp_steps_runs)
next
  case (2 r s s')
  then have "sp_steps s s'" by (auto simp: sp_rules_eq dest: end_outbound_steps)
  then show ?case using 2(2) by (rule sp_steps_runs)
next
  case (3 p w fds t w' ret rev)
  then show ?case by (simp add: sp_runs_def)
qed

lemma pass_time_runs: "sp_pass_time k ad t s = Inr (t', s') \<Longrightarrow> sp_runs cfg rnd s \<Longrightarrow> sp_runs cfg rnd s'"
  by (rule sp_steps_runs [of s])
    (auto simp: sp_pass_time_def sp_timestamp_def bindE_Inr_iff Let_def split: if_splits prod.splits intro: sp_steps_one cn_step.tick)

lemma loop_rounds_runs:
  "sp_loop_rounds k abrt ad cond n t rs s = Inr (e, rs', s') \<Longrightarrow> set rs \<subseteq> set (sp_rules lc k ad []) \<Longrightarrow> sp_runs cfg rnd s \<Longrightarrow> sp_runs cfg rnd s' \<and> subseq rs' rs"
proof (induction n arbitrary: t rs s)
  case (Suc n)
  show ?case
  proof (cases "wait_next_event k TCP_TICK_MS rs s")
    case (Inl e)
    then show ?thesis using Suc.prems(1,3) by (auto simp: bindE_Inr_iff split: if_splits)
  next
    case (Inr x)
    obtain rs1 s1 ret where x: "x = (rs1, s1, ret)" using prod_cases3 by blast
    have w: "sp_runs cfg rnd s1" "subseq rs1 rs" using spl.wait_keeps [OF Suc.prems(2,3) Inr [unfolded x]] by auto
    have rs1: "set rs1 \<subseteq> set (sp_rules lc k ad [])" using subseq_set [OF w(2)] Suc.prems(2) by blast
    consider "rs' = rs" "s' = s" | "rs' = rs1" "s' = s1"
      | t2 s2 where "sp_pass_time k ad t s1 = Inr (t2, s2)" "sp_loop_rounds k abrt ad cond n t2 rs1 s2 = Inr (e, rs', s')"
      using Suc.prems(1) Inr x by (auto simp: bindE_Inr_iff split: if_splits)
    then show ?thesis
    proof cases
      case 3
      then show ?thesis using Suc.IH [OF 3(2) rs1 pass_time_runs [OF 3(1) w(1)]] w(2) subseq_order.trans by blast
    qed (use Suc.prems(3) w in simp_all)
  qed
qed simp

lemma tcp_loop_runs:
  assumes "sp_tcp_loop k abrt ad cond n rs s = Inr (e, rs', s')" "set rs \<subseteq> set (sp_rules lc k ad [])" "sp_runs cfg rnd s"
  shows "sp_runs cfg rnd s' \<and> subseq rs' rs"
proof -
  obtain s1 t where 1: "sp_timestamp k s = (s1, t)" by fastforce
  then have "sp_runs cfg rnd s1" using assms(3) by (auto simp: sp_timestamp_def sp_runs_def split: prod.splits)
  then show ?thesis using loop_rounds_runs [of k abrt ad cond n t rs s1] assms(1,2) 1 by (simp add: sp_tcp_loop_def)
qed

lemma initialize_runs:
  assumes "sp_initialize_TCP lc k ad cfg [] s = (rs, (p, w))"
  shows "\<exists>rnd. sp_tcp p = Some (cn_new cfg rnd)" "rs = sp_rules lc k ad []"
  using assms by (auto simp: sp_initialize_TCP_def split: prod.splits)

lemma connect_runs:
  assumes "sp_connect lc k abrt ad cfg c_ad n [] s = Inr (e, rs, s')"
  shows "\<exists>rnd. sp_runs cfg rnd s' \<and> subseq rs (sp_rules lc k ad [])"
proof -
  obtain rs0 p w where i: "sp_initialize_TCP lc k ad cfg [] s = (rs0, (p, w))" using prod_cases3 by blast
  obtain rnd where c: "sp_tcp p = Some (cn_new cfg rnd)" using initialize_runs [OF i] by blast
  let ?s = "(p\<lparr>sp_datagram_adapter := ap_set_config ad c_ad (sp_datagram_adapter p), sp_tcp := Some (cn_connect (cn_new cfg rnd))\<rparr>, w)"
  obtain s1 where l: "sp_tcp_loop k abrt ad (sp_state_in [SYN_SENT]) n rs0 ?s = Inr (e, rs, s1)" "sp_tcp (fst s') = sp_tcp (fst s1)"
    using assms by (auto simp: sp_connect_def i c bindE_Inr_iff Let_def sp_deref_def split: if_splits)
  have "reach (\<lambda>c. c = cn_new cfg rnd) cn_step (cn_connect (cn_new cfg rnd))" by (rule reach_step, rule reach_init, rule refl, rule cn_step.app_connect)
  then have "sp_runs cfg rnd ?s" by (simp add: sp_runs_def)
  then show ?thesis using tcp_loop_runs [OF l(1), of lc cfg rnd] initialize_runs(2) [OF i] l(2) by (auto simp: sp_runs_def)
qed

lemma listen_runs:
  assumes "sp_listen_and_accept lc k abrt ad cfg c_ad n [] s = Inr (e, rs, s')"
  shows "\<exists>rnd. sp_runs cfg rnd s' \<and> subseq rs (sp_rules lc k ad [])"
proof -
  obtain rs0 p w where i: "sp_initialize_TCP lc k ad cfg [] s = (rs0, (p, w))" using prod_cases3 by blast
  obtain rnd where c: "sp_tcp p = Some (cn_new cfg rnd)" using initialize_runs [OF i] by blast
  let ?s = "(p\<lparr>sp_datagram_adapter := ap_set_listening ad True (ap_set_config ad c_ad (sp_datagram_adapter p))\<rparr>, w)"
  obtain s1 where l: "sp_tcp_loop k abrt ad (sp_state_in [LISTEN, SYN_RCVD, SYN_SENT]) n rs0 ?s = Inr (e, rs, s1)" "sp_tcp (fst s') = sp_tcp (fst s1)"
    using assms by (auto simp: sp_listen_and_accept_def i bindE_Inr_iff Let_def split: if_splits)
  have "reach (\<lambda>c. c = cn_new cfg rnd) cn_step (cn_new cfg rnd)" by (rule reach_init) simp
  then have "sp_runs cfg rnd ?s" using c by (simp add: sp_runs_def)
  then show ?thesis using tcp_loop_runs [OF l(1), of lc cfg rnd] initialize_runs(2) [OF i] l(2) by (auto simp: sp_runs_def)
qed

lemma main_runs:
  assumes "sp_tcp_main k abrt ad n rs s = Inr (e, rs', s')" "set rs \<subseteq> set (sp_rules lc k ad [])" "sp_runs cfg rnd s"
  shows "subseq rs' rs \<and> (if e then sp_tcp (fst s') = None else sp_runs cfg rnd s')"
proof -
  obtain e1 s1 where l: "sp_tcp_loop k abrt ad (\<lambda>_. Inr True) n rs s = Inr (e1, rs', s1)" "if e then sp_tcp (fst s') = None else s' = s1"
    using assms(1) by (auto simp: sp_tcp_main_def bindE_Inr_iff split: if_splits)
  show ?thesis using tcp_loop_runs [OF l(1) assms(2,3)] l(2) by auto
qed

text \<open>
  C20. A socket runs its connection as its specification allows. After any number of rounds, of an active opening, of a passive opening, and of the main loop after it, the
  connection of the socket is one that a new connection can become by receiving segments, by calls of its owner, by reading, by sending and by the passing
  of time; so that the properties of such connections hold for it. The rules of the event loop are those that were set up, except for cancelled ones.
\<close>

theorem sponge_runs_connection:
  assumes "sp_connect lc k abrt ad cfg c_ad rounds [] s = Inr (ended, rules, s1) \<or> sp_listen_and_accept lc k abrt ad cfg c_ad rounds [] s = Inr (ended, rules, s1)"
    and "sp_tcp_main k abrt ad rounds' rules s1 = Inr (ended', rules', s2)"
  shows "subseq rules' (sp_rules lc k ad []) \<and>
    (\<exists>rnd c. sp_tcp (fst s1) = Some c \<and> reach (\<lambda>c. c = cn_new cfg rnd) cn_step c \<and>
      (if ended' then sp_tcp (fst s2) = None else \<exists>c'. sp_tcp (fst s2) = Some c' \<and> reach (\<lambda>c. c = cn_new cfg rnd) cn_step c'))"
proof -
  have "\<exists>rnd. sp_runs cfg rnd s1 \<and> subseq rules (sp_rules lc k ad [])" using assms(1) by (elim disjE) (erule connect_runs, erule listen_runs)
  then obtain rnd where 1: "sp_runs cfg rnd s1" "subseq rules (sp_rules lc k ad [])" by (elim exE conjE)
  have "subseq rules' rules \<and> (if ended' then sp_tcp (fst s2) = None else sp_runs cfg rnd s2)"
    by (rule main_runs [OF assms(2) subseq_set [OF 1(2)] 1(1)])
  then show ?thesis using 1 subseq_order.trans unfolding sp_runs_def by metis
qed

section \<open>Bytes from and to the owner\<close>

text \<open>
  What the manual says of \<open>read\<close> on a descriptor with bytes to read: it fails and sets \<open>errno\<close>, or it takes bytes from the front, not more than asked for, and returns their number.
\<close>

definition k_reads :: "'w kernel \<Rightarrow> ('w \<Rightarrow> bytes) \<Rightarrow> bool" where
  "k_reads k inp \<longleftrightarrow>
     (\<forall>fd n w w' r filled. k_read k fd n w = (w', r, filled) \<longrightarrow>
        - (2 ^ 31) \<le> r \<and> r < 2 ^ 31 \<and>
        (if r < 0 then k_errno k w' \<noteq> 0 else inp w = filled @ inp w' \<and> r = int (length filled) \<and> length filled \<le> n))"

lemma fd_read_ok:
  assumes "k_reads k inp" and "0 \<le> fst (snd (k_read k (fw_fd f) (min BUFFER_SIZE limit) w))"
  obtains w' d where "inp w = d @ inp w'" and "length d \<le> limit"
    and "fd_read k limit f w = Inr (w', fd_register_read (if limit > 0 \<and> d = [] then f\<lparr>fw_eof := True\<rparr> else f), d)"
proof -
  define m where "m = min BUFFER_SIZE limit"
  obtain w' r d where c: "k_read k (fw_fd f) m w = (w', r, d)" using prod_cases3 by blast
  have r: "- (2 ^ 31) \<le> r" "r < 2 ^ 31" "\<not> r < 0 \<Longrightarrow> inp w = d @ inp w' \<and> r = int (length d) \<and> length d \<le> m"
    using assms(1) c unfolding k_reads_def by (metis, metis, metis)
  have d: "inp w = d @ inp w'" "r = int (length d)" "length d \<le> m" using assms(2) c r(3) by (auto simp: m_def [symmetric])
  have "SystemCall k w' (int (length d)) 0 = Inr (int (length d))" using d(2) r(1,2) by (simp add: SystemCall_def to_int32_id)
  moreover have "resize (length d) (overlay d (replicate m 0)) = d" using d(3) by (simp add: overlay_resize)
  ultimately have "fd_read k limit f w = Inr (w', fd_register_read (if limit > 0 \<and> d = [] then f\<lparr>fw_eof := True\<rparr> else f), d)"
    using d(3) unfolding fd_read_def Let_def m_def [symmetric] c by (simp add: d(2) resize_int_def)
  then show thesis using that d by (simp add: m_def)
qed

lemma cn_write_all:
  assumes "bs_inv (snd_stream (cn_sender c))" and "\<not> bs_is_end (snd_stream (cn_sender c))" and "length d \<le> unat (cn_remaining_outbound_capacity c)"
  shows "snd (cn_write d c) = of_nat (length d)"
proof -
  have "length d \<le> bs_room (snd_stream (cn_sender c))"
    using assms(3) by (simp add: cn_remaining_outbound_capacity_def unat_bs_remaining_capacity [OF assms(1)])
  then have "snd (bs_write d (snd_stream (cn_sender c))) = of_nat (length d)" using assms(2) by (simp add: bs_write_eq Let_def bs_room_def)
  then show ?thesis by (auto simp: cn_write_def split: prod.splits)
qed

text \<open>
  C21. No byte from the owner is lost. When the read succeeds, the callback of the second rule does not throw: all the bytes it takes from the owner's socket, in order, are
  accepted by the connection, since it never asks for more than there is room for; and at the end of the owner's data, and only there, it ends the
  outbound stream.
\<close>

theorem sponge_outbound:
  assumes "k_reads k inp" and "sp_tcp p = Some c" and "bs_inv (snd_stream (cn_sender c))" and "\<not> bs_is_end (snd_stream (cn_sender c))"
    and "0 < cn_remaining_outbound_capacity c" and "\<not> fw_eof (sp_thread_data p)" and "ad_to_string lc (fc_destination (ap_config ad (sp_datagram_adapter p))) = Inr str"
    and "0 \<le> fst (snd (k_read k (fw_fd (sp_thread_data p)) (min BUFFER_SIZE (unat (cn_remaining_outbound_capacity c))) w))"
  shows "\<exists>p' w' data c'. sp_read_data lc k ad (p, w) = Inr (p', w') \<and> inp w = data @ inp w' \<and> cn_write data c = (c', of_nat (length data)) \<and>
    (if data = [] then sp_tcp p' = Some (cn_end_input_stream c') \<and> sp_outbound_shutdown p'
     else sp_tcp p' = Some c' \<and> sp_outbound_shutdown p' = sp_outbound_shutdown p)"
proof -
  obtain w' d where d: "inp w = d @ inp w'" "length d \<le> unat (cn_remaining_outbound_capacity c)" and
    r: "fd_read k (unat (cn_remaining_outbound_capacity c)) (sp_thread_data p) w =
      Inr (w', fd_register_read (if unat (cn_remaining_outbound_capacity c) > 0 \<and> d = [] then (sp_thread_data p)\<lparr>fw_eof := True\<rparr> else sp_thread_data p), d)"
    by (rule fd_read_ok [OF assms(1,8)])
  obtain c' where c': "cn_write d c = (c', of_nat (length d))" using cn_write_all [OF assms(3,4) d(2)] by (metis prod.collapse)
  have pos: "0 < unat (cn_remaining_outbound_capacity c)" using assms(5) by (simp add: word_less_nat_alt)
  have "\<exists>p'. sp_read_data lc k ad (p, w) = Inr (p', w') \<and>
    (if d = [] then sp_tcp p' = Some (cn_end_input_stream c') \<and> sp_outbound_shutdown p' else sp_tcp p' = Some c' \<and> sp_outbound_shutdown p' = sp_outbound_shutdown p)"
    using assms(2,6,7) pos
    by (simp add: sp_read_data_def sp_deref_def r c' sp_end_outbound_def sp_print_destination_def fd_register_read_def)
  then show ?thesis using d(1) c' by blast
qed

lemma cn_inbound_map [simp]: "cn_inbound_stream (cn_map_stream_out f c) = f (cn_inbound_stream c)"
  by (simp add: cn_inbound_stream_def)


section \<open>The end of the loop\<close>

text \<open>
  C23. The thread of a connection ends. When the connection is no longer active, all its segments are sent, and the owner has everything that was received and has been told of
  the end, no rule wants anything, and the next round of the loop is the last one, without a call of poll; then the owner's socket is shut down and the connection is gone.
\<close>

theorem sponge_thread_ends:
  assumes "set rules \<subseteq> set (sp_rules lc k ad [])" and "\<forall>r \<in> set rules. \<not> fw_closed (ru_fd r (p, w)) \<and> (ru_direction r = In \<longrightarrow> \<not> fw_eof (ru_fd r (p, w)))"
    and "sp_tcp p = Some c" and "\<not> cn_active c" and "cn_segments_out c = []" and "bs_buf (cn_inbound_stream c) = []"
    and "bs_is_end (cn_inbound_stream c) \<or> bs_err (cn_inbound_stream c) \<longrightarrow> sp_inbound_shutdown p" and "0 < rounds"
    and "\<And>w. \<exists>w'. k_shutdown k (fw_fd (sp_socket p)) SHUT_RDWR w = (w', 0)"
  shows "\<exists>p' w'. sp_tcp_main k abrt ad rounds rules (p, w) = Inr (True, rules, (p', w')) \<and> sp_tcp p' = None"
proof -
  have setup_quiet: "el_setup rs (q, v) = Inr (rs, map (\<lambda>r. (fw_fd (ru_fd r (q, v)), 0)) rs, False, (q, v))"
    if "set rs \<subseteq> set rules" "\<forall>r \<in> set rules. ru_fd r (q, v) = ru_fd r (p, w) \<and> ru_interest r (q, v) = Inr False" for rs q v
    using that assms(2) by (induction rs) auto
  obtain w1 t0 t where ts: "timestamp_ms k (sp_program_start p) w = (w1, t0, t)" using prod_cases3 by blast
  let ?p = "p\<lparr>sp_program_start := t0\<rparr>"
  have "\<forall>r \<in> set rules. ru_fd r (?p, w1) = ru_fd r (p, w) \<and> ru_interest r (?p, w1) = Inr False"
    using assms(1,3-7) by (auto simp: sp_rules_eq sp_wants_segment_def sp_wants_data_def sp_wants_output_def sp_has_segments_def sp_deref_def
      bs_buffer_empty_def bs_eof_def bs_error_def)
  then have "wait_next_event k TCP_TICK_MS rules (?p, w1) = Inr (rules, (?p, w1), Exit)"
    using setup_quiet [of rules ?p w1] by (simp add: wait_next_event_def)
  then have l: "sp_tcp_loop k abrt ad (\<lambda>_. Inr True) rounds rules (p, w) = Inr (True, rules, (?p, w1))"
    using assms(8) ts by (cases rounds) (simp_all add: sp_tcp_loop_def sp_timestamp_def)
  obtain w2 where sh: "k_shutdown k (fw_fd (sp_socket p)) SHUT_RDWR w1 = (w2, 0)" using assms(9) by blast
  have "sock_shutdown k SHUT_RDWR (sp_socket p) w1 = Inr (w2, fd_register_write (fd_register_read (sp_socket p)))"
    unfolding sock_shutdown_def sh by (simp add: SystemCall_def to_int32_def SHUT_RD_def SHUT_WR_def SHUT_RDWR_def)
  then show ?thesis using assms(3) by (simp add: sp_tcp_main_def l sp_value_def)
qed

section \<open>Runs\<close>

text \<open>A system in which nothing happens, a socket over UDP, and the adapter of it.\<close>

definition kernel_idle :: "unit kernel" where
  "kernel_idle = kernel_null\<lparr>k_poll := \<lambda>_ _ w. (w, 0, [])\<rparr>"

definition sp_demo :: "TCPConnection option \<Rightarrow> TCPOverUDPSocketAdapter TCPSpongeSocket" where
  "sp_demo c = \<lparr>sp_socket = fd_open, sp_thread_data = fd_open, sp_datagram_adapter = ua_client, sp_tcp = c, sp_inbound_shutdown = False,
     sp_outbound_shutdown = False, sp_fully_acked = False, sp_tcp_thread = False, sp_program_start = Some 0\<rparr>"

abbreviation ad_idle :: "(TCPOverUDPSocketAdapter, unit) adapter" where
  "ad_idle \<equiv> udp_adapter libc_demo kernel_idle"

lemma udp_adapter_simps [simp]:
  "ap_fd (udp_adapter lc k) a = ua_sock a" "ap_config (udp_adapter lc k) a = fa_config (ua_base a)"
  "ap_set_config (udp_adapter lc k) cfg a = a\<lparr>ua_base := fa_set_config cfg (ua_base a)\<rparr>" "ap_tick (udp_adapter lc k) ms a w = Inr (w, a)"
  by (simp_all add: udp_adapter_def fa_tick_def)

lemma demo_destination: "\<exists>str. ad_to_string libc_demo (fc_destination (fa_cfg client_demo)) = Inr str"
  by (simp add: client_demo_def ad_to_string_def ad_ip_port_v4 [OF libc_demo_ok])

lemma cn_demo1_facts:
  "cn_active cn_demo1" "cn_remaining_outbound_capacity cn_demo1 = 16" "cn_segments_out cn_demo1 \<noteq> []" "bs_buf (cn_inbound_stream cn_demo1) = []"
  "\<not> bs_eof (cn_inbound_stream cn_demo1)" "\<not> bs_error (cn_inbound_stream cn_demo1)" "cn_tick 0 cn_demo1 = Inr cn_demo1"
  "TCPState_eq (cn_state cn_demo1) (TCPState_official SYN_SENT)"
  by code_simp+

lemma idle_wait:
  "wait_next_event kernel_idle TCP_TICK_MS (sp_rules libc_demo kernel_idle ad_idle []) (sp_demo (Some cn_demo1), ()) =
     Inr (sp_rules libc_demo kernel_idle ad_idle [], (sp_demo (Some cn_demo1), ()), Timeout)"
  by (simp add: wait_next_event_def sp_rules_eq sp_demo_def ua_client_def fd_open_def sp_wants_segment_def sp_wants_data_def sp_wants_output_def
      sp_has_segments_def sp_deref_def cn_demo1_facts bs_buffer_empty_def kernel_idle_def SystemCall_def to_int32_def)

lemma idle_time: "sp_pass_time kernel_idle ad_idle 0 (sp_demo (Some cn_demo1), ()) = Inr (0, (sp_demo (Some cn_demo1), ()))"
  by (simp add: sp_pass_time_def sp_value_def sp_demo_def cn_demo1_facts sp_timestamp_def timestamp_ms_def kernel_idle_def kernel_null_def)

lemma idle_loop:
  assumes "cond (sp_demo (Some cn_demo1), ()) = Inr True"
  shows "sp_tcp_loop kernel_idle (\<lambda>_. False) ad_idle cond n (sp_rules libc_demo kernel_idle ad_idle []) (sp_demo (Some cn_demo1), ()) =
     Inr (False, sp_rules libc_demo kernel_idle ad_idle [], (sp_demo (Some cn_demo1), ()))"
proof -
  have "sp_loop_rounds kernel_idle (\<lambda>_. False) ad_idle cond n 0 (sp_rules libc_demo kernel_idle ad_idle []) (sp_demo (Some cn_demo1), ()) =
     Inr (False, sp_rules libc_demo kernel_idle ad_idle [], (sp_demo (Some cn_demo1), ()))"
    by (induction n) (simp_all add: assms idle_wait idle_time)
  then show ?thesis by (simp add: sp_tcp_loop_def sp_timestamp_def timestamp_ms_def kernel_idle_def kernel_null_def sp_demo_def)
qed

lemma idle_connect:
  "sp_connect libc_demo kernel_idle (\<lambda>_. False) ad_idle cn_demo_cfg (fa_cfg client_demo) n [] (sp_demo None, ()) =
     Inr (False, sp_rules libc_demo kernel_idle ad_idle [], (sp_demo (Some cn_demo1), ()))"
proof -
  obtain str where str: "ad_to_string libc_demo (fc_destination (fa_cfg client_demo)) = Inr str" using demo_destination by blast
  have "k_random kernel_idle () = ((), 0)" by (simp add: kernel_idle_def kernel_null_def)
  then have "sp_initialize_TCP libc_demo kernel_idle ad_idle cn_demo_cfg [] (sp_demo None, ()) =
     (sp_rules libc_demo kernel_idle ad_idle [], (sp_demo (Some (cn_new cn_demo_cfg 0)), ()))"
    by (simp add: sp_initialize_TCP_def sp_demo_def)
  moreover have "(sp_demo (Some (cn_new cn_demo_cfg 0)))\<lparr>sp_datagram_adapter := ua_client, sp_tcp := Some cn_demo1\<rparr> = sp_demo (Some cn_demo1)" "sp_tcp (sp_demo None) = None"
    "sp_deref (sp_demo (Some (cn_new cn_demo_cfg 0))) = Inr (cn_new cn_demo_cfg 0)" "sp_datagram_adapter (sp_demo c) = ua_client"
    "ua_client\<lparr>ua_base := fa_set_config (fa_cfg client_demo) (ua_base ua_client)\<rparr> = ua_client" for c
    by (simp_all add: sp_demo_def sp_deref_def ua_client_def fa_set_config_def)
  ultimately show ?thesis
    using idle_loop [of "sp_state_in [SYN_SENT]" n] cn_demo1_facts(8)
    by (simp add: sp_connect_def str cn_demo_connect TCPState_neq_def sp_state_in_def sp_deref_def sp_demo_def Let_def)
qed

theorem sponge_runs_connection_witness:
  "\<exists>rules' s2 rnd c'. sp_tcp_main kernel_idle (\<lambda>_. False) ad_idle 5 (sp_rules libc_demo kernel_idle ad_idle []) (sp_demo (Some cn_demo1), ()) = Inr (False, rules', s2) \<and>
     sp_tcp (fst s2) = Some c' \<and> reach (\<lambda>c. c = cn_new cn_demo_cfg rnd) cn_step c'"
proof -
  have m: "sp_tcp_main kernel_idle (\<lambda>_. False) ad_idle 5 (sp_rules libc_demo kernel_idle ad_idle []) (sp_demo (Some cn_demo1), ()) =
    Inr (False, sp_rules libc_demo kernel_idle ad_idle [], (sp_demo (Some cn_demo1), ()))"
    by (simp add: sp_tcp_main_def idle_loop) (simp add: sp_demo_def)
  show ?thesis using sponge_runs_connection [OF disjI1 [OF idle_connect [of 3]] m] m by auto
qed

text \<open>A socket that gives at most four bytes at a time.\<close>

definition kernel_in :: "bytes kernel" where
  "kernel_in = kernel_null\<lparr>k_read := \<lambda>_ n w. (drop (min 4 n) w, int (length (take (min 4 n) w)), take (min 4 n) w)\<rparr>"

lemma kernel_in_ok: "k_reads kernel_in id"
  by (auto simp: k_reads_def kernel_in_def)

lemma cn_demo2_facts:
  "bs_inv (snd_stream (cn_sender cn_demo2))" "\<not> bs_is_end (snd_stream (cn_sender cn_demo2))" "0 < cn_remaining_outbound_capacity cn_demo2"
  by (simp_all add: cn_demo2_def cn_demo_st_def cn_demo_snd_def bs_inv_def cn_remaining_outbound_capacity_def bs_remaining_capacity_def)

theorem sponge_outbound_witness:
  "\<exists>p' w' data c'. sp_read_data libc_demo kernel_in (udp_adapter libc_demo kernel_in) (sp_demo (Some cn_demo2), [1, 2, 3, 4, 5, 6]) = Inr (p', w') \<and>
     [1, 2, 3, 4, 5, 6] = data @ w' \<and> cn_write data cn_demo2 = (c', of_nat (length data))"
proof -
  let ?ad = "udp_adapter libc_demo kernel_in" and ?p = "sp_demo (Some cn_demo2)" and ?w = "[1, 2, 3, 4, 5, 6] :: bytes"
  obtain str where str: "ad_to_string libc_demo (fc_destination (fa_cfg client_demo)) = Inr str" using demo_destination by blast
  have p: "sp_tcp ?p = Some cn_demo2" "\<not> fw_eof (sp_thread_data ?p)" "ad_to_string libc_demo (fc_destination (ap_config ?ad (sp_datagram_adapter ?p))) = Inr str"
    using str by (simp_all add: sp_demo_def fd_open_def ua_client_def fa_config_def)
  have r: "0 \<le> fst (snd (k_read kernel_in (fw_fd (sp_thread_data ?p)) n ?w))" for n by (simp add: kernel_in_def)
  show ?thesis using sponge_outbound [OF kernel_in_ok p(1) cn_demo2_facts p(2,3) r] unfolding id_def by blast
qed



theorem sponge_thread_ends_witness:
  "\<exists>p' w'. sp_tcp_main kernel_demo (\<lambda>_. False) (udp_adapter libc_demo kernel_demo) 1 (sp_rules libc_demo kernel_demo (udp_adapter libc_demo kernel_demo) [])
     ((sp_demo (Some ((cn_reset False cn_demo2)\<lparr>cn_segments_out := []\<rparr>)))\<lparr>sp_inbound_shutdown := True\<rparr>, []) =
       Inr (True, sp_rules libc_demo kernel_demo (udp_adapter libc_demo kernel_demo) [], (p', w')) \<and> sp_tcp p' = None"
proof (rule sponge_thread_ends)
  show "sp_tcp ((sp_demo (Some ((cn_reset False cn_demo2)\<lparr>cn_segments_out := []\<rparr>)))\<lparr>sp_inbound_shutdown := True\<rparr>) = Some ((cn_reset False cn_demo2)\<lparr>cn_segments_out := []\<rparr>)"
    by (simp add: sp_demo_def)
  show "\<exists>w'. k_shutdown kernel_demo (fw_fd (sp_socket ((sp_demo (Some ((cn_reset False cn_demo2)\<lparr>cn_segments_out := []\<rparr>)))\<lparr>sp_inbound_shutdown := True\<rparr>))) SHUT_RDWR w = (w', 0)" for w
    by (simp add: kernel_demo_def kernel_null_def)
  show "bs_buf (cn_inbound_stream ((cn_reset False cn_demo2)\<lparr>cn_segments_out := []\<rparr>)) = []" by code_simp
  show "\<not> cn_active ((cn_reset False cn_demo2)\<lparr>cn_segments_out := []\<rparr>)" by code_simp
qed (auto simp: sp_rules_eq sp_demo_def fd_open_def ua_client_def)

end
