(* ===== verification/Stream_Copy.thy ===== *)
theory Stream_Copy
  imports Sockets Event_Loop Byte_Stream
begin

text \<open>
  Models \<^verbatim>\<open>apps/bidirectional_stream_copy.cc\<close>: the loop that the command line programs use to copy between the terminal and a socket, through two byte streams.
  As for the socket of \<open>Sponge_Socket\<close>, the loop is given a number of rounds. The closing of the two descriptors when the function returns is left out.
\<close>

section \<open>Model\<close>

definition max_copy_length :: u64 where
  "max_copy_length = 65536"

definition copy_buffer_size :: u64 where
  "copy_buffer_size = 1048576"

definition STDIN_FILENO :: int where
  "STDIN_FILENO = 0"

definition STDOUT_FILENO :: int where
  "STDOUT_FILENO = 1"

record StreamCopy =
  sc_socket :: FDWrapper
  sc_input :: FDWrapper
  sc_output :: FDWrapper
  sc_outbound :: ByteStream
  sc_inbound :: ByteStream
  sc_outbound_shutdown :: bool
  sc_inbound_shutdown :: bool

text \<open>Rule 1: from standard input to the outbound stream. What the stream does not accept is lost.\<close>

definition sc_read_input :: "'w kernel \<Rightarrow> StreamCopy \<times> 'w \<Rightarrow> (StreamCopy \<times> 'w) res" where
  "sc_read_input k = (\<lambda>(p, w).
     bindE (fd_read k (unat (bs_remaining_capacity (sc_outbound p))) (sc_input p) w) (\<lambda>(w, f, data).
     let p = p\<lparr>sc_input := f, sc_outbound := fst (bs_write data (sc_outbound p))\<rparr>
     in Inr (if fw_eof (sc_input p) then p\<lparr>sc_outbound := bs_end_input (sc_outbound p)\<rparr> else p, w)))"

definition sc_wants_input :: "StreamCopy \<times> 'w \<Rightarrow> bool res" where
  "sc_wants_input = (\<lambda>(p, w). Inr (\<not> bs_error (sc_outbound p) \<and> bs_remaining_capacity (sc_outbound p) > 0 \<and> \<not> bs_error (sc_inbound p)))"

definition sc_end_outbound :: "StreamCopy \<times> 'w \<Rightarrow> (StreamCopy \<times> 'w) res" where
  "sc_end_outbound = (\<lambda>(p, w). Inr (p\<lparr>sc_outbound := bs_end_input (sc_outbound p)\<rparr>, w))"

text \<open>Rule 2: from the outbound stream to the socket.\<close>

definition sc_write_socket :: "'w kernel \<Rightarrow> StreamCopy \<times> 'w \<Rightarrow> (StreamCopy \<times> 'w) res" where
  "sc_write_socket k = (\<lambda>(p, w).
     let bytes_to_write = min max_copy_length (bs_buffer_size (sc_outbound p))
     in bindE (fd_write_str k (bs_peek_output bytes_to_write (sc_outbound p)) False (sc_socket p) w) (\<lambda>(w, f, bytes_written).
        let p = p\<lparr>sc_socket := f, sc_outbound := bs_pop_output (of_nat bytes_written) (sc_outbound p)\<rparr>
        in if bs_eof (sc_outbound p)
           then bindE (sock_shutdown k SHUT_WR (sc_socket p) w) (\<lambda>(w, f). Inr (p\<lparr>sc_socket := f, sc_outbound_shutdown := True\<rparr>, w))
           else Inr (p, w)))"

definition sc_wants_socket_out :: "StreamCopy \<times> 'w \<Rightarrow> bool res" where
  "sc_wants_socket_out = (\<lambda>(p, w). Inr (\<not> bs_buffer_empty (sc_outbound p) \<or> bs_eof (sc_outbound p) \<and> \<not> sc_outbound_shutdown p))"

text \<open>Rule 3: from the socket to the inbound stream.\<close>

definition sc_read_socket :: "'w kernel \<Rightarrow> StreamCopy \<times> 'w \<Rightarrow> (StreamCopy \<times> 'w) res" where
  "sc_read_socket k = (\<lambda>(p, w).
     bindE (fd_read k (unat (bs_remaining_capacity (sc_inbound p))) (sc_socket p) w) (\<lambda>(w, f, data).
     let p = p\<lparr>sc_socket := f, sc_inbound := fst (bs_write data (sc_inbound p))\<rparr>
     in Inr (if fw_eof (sc_socket p) then p\<lparr>sc_inbound := bs_end_input (sc_inbound p)\<rparr> else p, w)))"

definition sc_wants_socket_in :: "StreamCopy \<times> 'w \<Rightarrow> bool res" where
  "sc_wants_socket_in = (\<lambda>(p, w). Inr (\<not> bs_error (sc_inbound p) \<and> bs_remaining_capacity (sc_inbound p) > 0 \<and> \<not> bs_error (sc_outbound p)))"

definition sc_end_inbound :: "StreamCopy \<times> 'w \<Rightarrow> (StreamCopy \<times> 'w) res" where
  "sc_end_inbound = (\<lambda>(p, w). Inr (p\<lparr>sc_inbound := bs_end_input (sc_inbound p)\<rparr>, w))"

text \<open>Rule 4: from the inbound stream to standard output.\<close>

definition sc_write_output :: "'w kernel \<Rightarrow> StreamCopy \<times> 'w \<Rightarrow> (StreamCopy \<times> 'w) res" where
  "sc_write_output k = (\<lambda>(p, w).
     let bytes_to_write = min max_copy_length (bs_buffer_size (sc_inbound p))
     in bindE (fd_write_str k (bs_peek_output bytes_to_write (sc_inbound p)) False (sc_output p) w) (\<lambda>(w, f, bytes_written).
        let p = p\<lparr>sc_output := f, sc_inbound := bs_pop_output (of_nat bytes_written) (sc_inbound p)\<rparr>
        in if bs_eof (sc_inbound p)
           then bindE (fw_close k (sc_output p) w) (\<lambda>(w, f). Inr (p\<lparr>sc_output := f, sc_inbound_shutdown := True\<rparr>, w))
           else Inr (p, w)))"

definition sc_wants_output :: "StreamCopy \<times> 'w \<Rightarrow> bool res" where
  "sc_wants_output = (\<lambda>(p, w). Inr (\<not> bs_buffer_empty (sc_inbound p) \<or> bs_eof (sc_inbound p) \<and> \<not> sc_inbound_shutdown p))"

definition sc_rules :: "'w kernel \<Rightarrow> (StreamCopy \<times> 'w) Rule list" where
  "sc_rules k =
     (let rules = el_add_rule (\<lambda>(p, w). sc_input p) In (sc_read_input k) sc_wants_input sc_end_outbound [];
          rules = el_add_rule (\<lambda>(p, w). sc_socket p) Out (sc_write_socket k) sc_wants_socket_out sc_end_outbound rules;
          rules = el_add_rule (\<lambda>(p, w). sc_socket p) In (sc_read_socket k) sc_wants_socket_in sc_end_inbound rules
      in el_add_rule (\<lambda>(p, w). sc_output p) Out (sc_write_output k) sc_wants_output sc_end_inbound rules)"

fun sc_loop :: "'w kernel \<Rightarrow> nat \<Rightarrow> (StreamCopy \<times> 'w) Rule list \<Rightarrow> StreamCopy \<times> 'w \<Rightarrow> (bool \<times> (StreamCopy \<times> 'w) Rule list \<times> StreamCopy \<times> 'w) res" where
  "sc_loop k 0 rules s = Inr (False, rules, s)"
| "sc_loop k (Suc rounds) rules s =
     bindE (wait_next_event k (- 1) rules s) (\<lambda>(rules, s, ret). if ret = Exit then Inr (True, rules, s) else sc_loop k rounds rules s)"

definition bidirectional_stream_copy :: "'w kernel \<Rightarrow> nat \<Rightarrow> FDWrapper \<Rightarrow> 'w \<Rightarrow> (bool \<times> (StreamCopy \<times> 'w) Rule list \<times> StreamCopy \<times> 'w) res" where
  "bidirectional_stream_copy k rounds socket w =
     bindE (fw_new STDIN_FILENO) (\<lambda>input.
     bindE (fw_new STDOUT_FILENO) (\<lambda>output.
     bindE (fd_set_blocking k False socket w) (\<lambda>w.
     bindE (fd_set_blocking k False input w) (\<lambda>w.
     bindE (fd_set_blocking k False output w) (\<lambda>w.
       sc_loop k rounds (sc_rules k)
         (\<lparr>sc_socket = socket, sc_input = input, sc_output = output, sc_outbound = bs_new copy_buffer_size, sc_inbound = bs_new copy_buffer_size,
           sc_outbound_shutdown = False, sc_inbound_shutdown = False\<rparr>, w))))))"

section \<open>What is copied\<close>

text \<open>
  A system in which descriptors are streams: \<open>taken\<close> are the bytes that have been read from a descriptor so far, \<open>written\<close> those that have been written to it.
\<close>

definition k_streams :: "'w kernel \<Rightarrow> ('w \<Rightarrow> int \<Rightarrow> bytes) \<Rightarrow> ('w \<Rightarrow> int \<Rightarrow> bytes) \<Rightarrow> bool" where
  "k_streams k taken written \<longleftrightarrow> k_returns k \<and>
     (\<forall>fd n w w' r d. k_read k fd n w = (w', r, d) \<and> 0 \<le> r \<longrightarrow> taken w' = (taken w)(fd := taken w fd @ d) \<and> written w' = written w) \<and>
     (\<forall>fd vs w w' r. k_writev k fd (bv_as_iovecs vs) w = (w', r) \<and> 0 \<le> r \<longrightarrow>
        written w' = (written w)(fd := written w fd @ take (nat r) (concat vs)) \<and> taken w' = taken w) \<and>
     (\<forall>fds t w. taken (fst (k_poll k fds t w)) = taken w \<and> written (fst (k_poll k fds t w)) = written w) \<and>
     (\<forall>fd how w. taken (fst (k_shutdown k fd how w)) = taken w \<and> written (fst (k_shutdown k fd how w)) = written w) \<and>
     (\<forall>fd w. taken (fst (k_close k fd w)) = taken w \<and> written (fst (k_close k fd w)) = written w) \<and>
     (\<forall>fd w. taken (fst (k_getfl k fd w)) = taken w \<and> written (fst (k_getfl k fd w)) = written w) \<and>
     (\<forall>fd fl w. taken (fst (k_setfl k fd fl w)) = taken w \<and> written (fst (k_setfl k fd fl w)) = written w)"

text \<open>A stream between what has been taken and what has been written.\<close>

definition sc_pipe :: "bytes \<Rightarrow> ByteStream \<Rightarrow> bytes \<Rightarrow> bool" where
  "sc_pipe inp st out \<longleftrightarrow> bs_inv st \<and> (\<exists>lost. inp = out @ bs_buf st @ lost \<and> (\<not> bs_is_end st \<longrightarrow> lost = []))"

lemma sc_pipe_put:
  assumes "sc_pipe inp st out" and "length d \<le> unat (bs_remaining_capacity st)"
  shows "sc_pipe (inp @ d) (fst (bs_write d st)) out"
proof -
  obtain lost where l: "bs_inv st" "inp = out @ bs_buf st @ lost" "\<not> bs_is_end st \<longrightarrow> lost = []" using assms(1) by (auto simp: sc_pipe_def)
  have "bs_buf (fst (bs_write d st)) = bs_buf st @ (if bs_is_end st then [] else d)"
    using assms(2) l(1) by (simp add: bs_buf_write unat_snd_bs_write unat_bs_remaining_capacity)
  then show ?thesis using l bs_inv_write [OF l(1)] by (cases "bs_is_end st") (auto simp: sc_pipe_def)
qed

lemma sc_pipe_get:
  assumes "sc_pipe inp st out" and "n \<le> length (bs_buf st)"
  shows "sc_pipe inp (bs_pop_output (of_nat n) st) (out @ take n (bs_buf st))"
proof -
  have "length (bs_buf st) \<le> unat (bs_cap st)" using assms(1) by (simp add: sc_pipe_def bs_inv_def)
  then have "n \<le> unat (bs_cap st)" using assms(2) by simp
  then have "n < 2 ^ 64" by (rule le_less_trans) simp
  then have "unat (of_nat n :: u64) = n" by (rule unat_of_nat_small)
  then have buf: "bs_buf (bs_pop_output (of_nat n) st) = drop n (bs_buf st)" "bs_is_end (bs_pop_output (of_nat n) st) = bs_is_end st"
    by (simp_all add: bs_pop_output_eq)
  obtain lost where l: "bs_inv st" "inp = out @ bs_buf st @ lost" "\<not> bs_is_end st \<longrightarrow> lost = []" using assms(1) by (auto simp: sc_pipe_def)
  have "inp = (out @ take n (bs_buf st)) @ drop n (bs_buf st) @ lost" using l(2) append_take_drop_id [of n "bs_buf st"] by (metis append_assoc)
  then show ?thesis unfolding sc_pipe_def buf using bs_inv_pop [OF l(1)] l(3) by blast
qed

lemma sc_pipe_end: "sc_pipe inp st out \<Longrightarrow> sc_pipe inp (bs_end_input st) out"
  by (auto simp: sc_pipe_def)

definition sc_ok :: "'w kernel \<Rightarrow> ('w \<Rightarrow> int \<Rightarrow> bytes) \<Rightarrow> ('w \<Rightarrow> int \<Rightarrow> bytes) \<Rightarrow> int \<Rightarrow> StreamCopy \<times> 'w \<Rightarrow> bool" where
  "sc_ok k taken written sock s \<longleftrightarrow> k_streams k taken written \<and> sock \<notin> {0, 1} \<and>
     (case s of (p, w) \<Rightarrow> fw_fd (sc_socket p) = sock \<and> fw_fd (sc_input p) = 0 \<and> fw_fd (sc_output p) = 1 \<and>
        sc_pipe (taken w 0) (sc_outbound p) (written w sock) \<and> sc_pipe (taken w sock) (sc_inbound p) (written w 1))"

lemma fd_register_fd [simp]: "fw_fd (fd_register_read f) = fw_fd f" "fw_fd (fd_register_write f) = fw_fd f"
  by (simp_all add: fd_register_read_def fd_register_write_def)

text \<open>Reading and writing in terms of the streams.\<close>

lemma k_streamsD:
  assumes "k_streams k taken written"
  shows "k_returns k"
    and "k_read k fd n w = (w', r, d) \<Longrightarrow> 0 \<le> r \<Longrightarrow> taken w' = (taken w)(fd := taken w fd @ d) \<and> written w' = written w"
    and "k_writev k fd (bv_as_iovecs vs) w = (w', r) \<Longrightarrow> 0 \<le> r \<Longrightarrow> written w' = (written w)(fd := written w fd @ take (nat r) (concat vs)) \<and> taken w' = taken w"
    and "k_poll k fds t w = (w', ret, evs) \<Longrightarrow> taken w' = taken w \<and> written w' = written w"
    and "k_shutdown k fd how w = (w', r) \<Longrightarrow> taken w' = taken w \<and> written w' = written w"
    and "k_close k fd w = (w', r) \<Longrightarrow> taken w' = taken w \<and> written w' = written w"
    and "k_getfl k fd w = (w', r) \<Longrightarrow> taken w' = taken w \<and> written w' = written w"
    and "k_setfl k fd fl w = (w', r) \<Longrightarrow> taken w' = taken w \<and> written w' = written w"
proof -
  note h = assms [unfolded k_streams_def]
  show "k_returns k" using h by blast
  show "k_read k fd n w = (w', r, d) \<Longrightarrow> 0 \<le> r \<Longrightarrow> taken w' = (taken w)(fd := taken w fd @ d) \<and> written w' = written w"
    using h [THEN conjunct2, THEN conjunct1] by metis
  show "k_writev k fd (bv_as_iovecs vs) w = (w', r) \<Longrightarrow> 0 \<le> r \<Longrightarrow> written w' = (written w)(fd := written w fd @ take (nat r) (concat vs)) \<and> taken w' = taken w"
    using h [THEN conjunct2, THEN conjunct2, THEN conjunct1] by metis
  show "k_poll k fds t w = (w', ret, evs) \<Longrightarrow> taken w' = taken w \<and> written w' = written w"
    using h by (metis fst_conv)
  show "k_shutdown k fd how w = (w', r) \<Longrightarrow> taken w' = taken w \<and> written w' = written w"
    using h by (metis fst_conv)
  show "k_close k fd w = (w', r) \<Longrightarrow> taken w' = taken w \<and> written w' = written w"
    using h by (metis fst_conv)
  show "k_getfl k fd w = (w', r) \<Longrightarrow> taken w' = taken w \<and> written w' = written w"
    using h by (metis fst_conv)
  show "k_setfl k fd fl w = (w', r) \<Longrightarrow> taken w' = taken w \<and> written w' = written w"
    using h by (metis fst_conv)
qed

lemma streams_read:
  assumes "k_streams k taken written" and "fd_read k limit f w = Inr (w', f', d)"
  shows "taken w' = (taken w)(fw_fd f := taken w (fw_fd f) @ d) \<and> written w' = written w \<and> length d \<le> limit \<and> fw_fd f' = fw_fd f"
proof -
  have r: "k_read k (fw_fd f) (min BUFFER_SIZE limit) w = (w', int (length d), d)" "length d \<le> limit" "fw_fd f' = fw_fd f"
    using fd_read_returned [OF k_streamsD(1) [OF assms(1)] assms(2)] by auto
  show ?thesis using k_streamsD(2) [OF assms(1) r(1)] r(2,3) by simp
qed

lemma streams_write:
  assumes "k_streams k taken written" and "fd_write_str k b False f w = Inr (w', f', n)"
  shows "written w' = (written w)(fw_fd f := written w (fw_fd f) @ take n b) \<and> taken w' = taken w \<and> n \<le> length b \<and> fw_fd f' = fw_fd f"
proof -
  have r: "k_writev k (fw_fd f) (bv_as_iovecs [b]) w = (w', int n)" "n \<le> length b" "f' = fd_register_write f"
    using fd_write_returned [OF k_streamsD(1) [OF assms(1)], of "[b]" f w w' f' n] assms(2) by (auto simp: fd_write_str_def bv_of_view_def)
  show ?thesis using k_streamsD(3) [OF assms(1) r(1)] r(2,3) by simp
qed

lemma streams_shutdown:
  assumes "k_streams k taken written" and "sock_shutdown k how f w = Inr (w', f')"
  shows "taken w' = taken w \<and> written w' = written w \<and> fw_fd f' = fw_fd f"
proof -
  obtain v r where c: "k_shutdown k (fw_fd f) how w = (v, r)" by fastforce
  show ?thesis using k_streamsD(5) [OF assms(1) c] assms(2) by (auto simp: sock_shutdown_def c bindE_Inr_iff split: if_splits)
qed

lemma streams_close:
  assumes "k_streams k taken written" and "fw_close k f w = Inr (w', f')"
  shows "taken w' = taken w \<and> written w' = written w \<and> fw_fd f' = fw_fd f"
proof -
  obtain v r where c: "k_close k (fw_fd f) w = (v, r)" by fastforce
  show ?thesis using k_streamsD(6) [OF assms(1) c] assms(2) by (auto simp: fw_close_def c bindE_Inr_iff)
qed

lemma streams_blocking:
  assumes "k_streams k taken written" and "fd_set_blocking k b f w = Inr w'"
  shows "taken w' = taken w \<and> written w' = written w"
proof -
  obtain v r where c: "k_getfl k (fw_fd f) w = (v, r)" by fastforce
  have "\<exists>fl. w' = fst (k_setfl k (fw_fd f) fl v)"
    using assms(2) by (auto simp: fd_set_blocking_def c bindE_Inr_iff Let_def case_prod_unfold)
  then show ?thesis using k_streamsD(7) [OF assms(1) c] k_streamsD(8) [OF assms(1)] by (metis prod.collapse)
qed

lemma peek_take: "n \<le> length (bs_peek_output m st) \<Longrightarrow> n \<le> length (bs_buf st) \<and> take n (bs_peek_output m st) = take n (bs_buf st)"
  by (simp add: bs_peek_output_eq min_def split: if_splits)

lemma read_input_ok:
  assumes "sc_ok k taken written sock s" and "sc_read_input k s = Inr s'"
  shows "sc_ok k taken written sock s'"
proof -
  obtain p w where s: "s = (p, w)" by fastforce
  obtain w' f d where r: "fd_read k (unat (bs_remaining_capacity (sc_outbound p))) (sc_input p) w = Inr (w', f, d)" and
    s': "s' = (let p = p\<lparr>sc_input := f, sc_outbound := fst (bs_write d (sc_outbound p))\<rparr>
      in (if fw_eof (sc_input p) then p\<lparr>sc_outbound := bs_end_input (sc_outbound p)\<rparr> else p, w'))"
    using assms(2) by (auto simp: sc_read_input_def s bindE_Inr_iff Let_def)
  have ok: "k_streams k taken written" using assms(1) by (simp add: sc_ok_def)
  have t: "taken w' = (taken w)(0 := taken w 0 @ d)" "written w' = written w" "length d \<le> unat (bs_remaining_capacity (sc_outbound p))" "fw_fd f = 0"
    using streams_read [OF ok r] assms(1) by (auto simp: sc_ok_def s)
  have "sc_pipe (taken w' 0) (fst (bs_write d (sc_outbound p))) (written w' sock)"
    using sc_pipe_put [OF _ t(3)] assms(1) t(1,2) by (simp add: sc_ok_def s)
  then show ?thesis using assms(1) t sc_pipe_end by (auto simp: sc_ok_def s s' Let_def)
qed

lemma read_socket_ok:
  assumes "sc_ok k taken written sock s" and "sc_read_socket k s = Inr s'"
  shows "sc_ok k taken written sock s'"
proof -
  obtain p w where s: "s = (p, w)" by fastforce
  obtain w' f d where r: "fd_read k (unat (bs_remaining_capacity (sc_inbound p))) (sc_socket p) w = Inr (w', f, d)" and
    s': "s' = (let p = p\<lparr>sc_socket := f, sc_inbound := fst (bs_write d (sc_inbound p))\<rparr>
      in (if fw_eof (sc_socket p) then p\<lparr>sc_inbound := bs_end_input (sc_inbound p)\<rparr> else p, w'))"
    using assms(2) by (auto simp: sc_read_socket_def s bindE_Inr_iff Let_def)
  have ok: "k_streams k taken written" using assms(1) by (simp add: sc_ok_def)
  have t: "taken w' = (taken w)(sock := taken w sock @ d)" "written w' = written w" "length d \<le> unat (bs_remaining_capacity (sc_inbound p))" "fw_fd f = sock"
    using streams_read [OF ok r] assms(1) by (auto simp: sc_ok_def s)
  have "sc_pipe (taken w' sock) (fst (bs_write d (sc_inbound p))) (written w' 1)"
    using sc_pipe_put [OF _ t(3)] assms(1) t(1,2) by (simp add: sc_ok_def s)
  then show ?thesis using assms(1) t sc_pipe_end by (auto simp: sc_ok_def s s' Let_def)
qed

lemma write_socket_ok:
  assumes "sc_ok k taken written sock s" and "sc_write_socket k s = Inr s'"
  shows "sc_ok k taken written sock s'"
proof -
  obtain p w where s: "s = (p, w)" by fastforce
  let ?b = "bs_peek_output (min max_copy_length (bs_buffer_size (sc_outbound p))) (sc_outbound p)"
  obtain w1 f n where r: "fd_write_str k ?b False (sc_socket p) w = Inr (w1, f, n)" and
    s': "s' = (p\<lparr>sc_socket := f, sc_outbound := bs_pop_output (of_nat n) (sc_outbound p)\<rparr>, w1) \<or>
      (\<exists>w2 f2. sock_shutdown k SHUT_WR f w1 = Inr (w2, f2) \<and>
        s' = (p\<lparr>sc_socket := f2, sc_outbound := bs_pop_output (of_nat n) (sc_outbound p), sc_outbound_shutdown := True\<rparr>, w2))"
    using assms(2) by (auto simp: sc_write_socket_def s bindE_Inr_iff Let_def split: if_splits)
  have ok: "k_streams k taken written" using assms(1) by (simp add: sc_ok_def)
  have t: "written w1 = (written w)(sock := written w sock @ take n ?b)" "taken w1 = taken w" "n \<le> length ?b" "fw_fd f = sock"
    using streams_write [OF ok r] assms(1) by (auto simp: sc_ok_def s)
  have "sc_pipe (taken w1 0) (bs_pop_output (of_nat n) (sc_outbound p)) (written w1 sock)"
    using sc_pipe_get [of "taken w 0" "sc_outbound p" "written w sock" n] peek_take [OF t(3)] assms(1) t(1,2) by (simp add: sc_ok_def s)
  then show ?thesis using assms(1) t s' streams_shutdown [OF ok] by (auto simp: sc_ok_def s)
qed

lemma write_output_ok:
  assumes "sc_ok k taken written sock s" and "sc_write_output k s = Inr s'"
  shows "sc_ok k taken written sock s'"
proof -
  obtain p w where s: "s = (p, w)" by fastforce
  let ?b = "bs_peek_output (min max_copy_length (bs_buffer_size (sc_inbound p))) (sc_inbound p)"
  obtain w1 f n where r: "fd_write_str k ?b False (sc_output p) w = Inr (w1, f, n)" and
    s': "s' = (p\<lparr>sc_output := f, sc_inbound := bs_pop_output (of_nat n) (sc_inbound p)\<rparr>, w1) \<or>
      (\<exists>w2 f2. fw_close k f w1 = Inr (w2, f2) \<and>
        s' = (p\<lparr>sc_output := f2, sc_inbound := bs_pop_output (of_nat n) (sc_inbound p), sc_inbound_shutdown := True\<rparr>, w2))"
    using assms(2) by (auto simp: sc_write_output_def s bindE_Inr_iff Let_def split: if_splits)
  have ok: "k_streams k taken written" using assms(1) by (simp add: sc_ok_def)
  have t: "written w1 = (written w)(1 := written w 1 @ take n ?b)" "taken w1 = taken w" "n \<le> length ?b" "fw_fd f = 1"
    using streams_write [OF ok r] assms(1) by (auto simp: sc_ok_def s)
  have "sc_pipe (taken w1 sock) (bs_pop_output (of_nat n) (sc_inbound p)) (written w1 1)"
    using sc_pipe_get [of "taken w sock" "sc_inbound p" "written w 1" n] peek_take [OF t(3)] assms(1) t(1,2) by (simp add: sc_ok_def s)
  then show ?thesis using assms(1) t s' streams_close [OF ok] by (auto simp: sc_ok_def s)
qed

lemma end_outbound_ok: "sc_ok k taken written sock s \<Longrightarrow> sc_end_outbound s = Inr s' \<Longrightarrow> sc_ok k taken written sock s'"
  by (auto simp: sc_end_outbound_def sc_ok_def sc_pipe_end)

lemma end_inbound_ok: "sc_ok k taken written sock s \<Longrightarrow> sc_end_inbound s = Inr s' \<Longrightarrow> sc_ok k taken written sock s'"
  by (auto simp: sc_end_inbound_def sc_ok_def sc_pipe_end)

interpretation scl: looped k "sc_rules k" "sc_ok k taken written sock" for k taken written sock
proof (unfold_locales, goal_cases)
  case (1 r s s')
  then show ?case
    by (auto simp: sc_rules_def el_add_rule_def Let_def intro: read_input_ok write_socket_ok read_socket_ok write_output_ok)
next
  case (2 r s s')
  then show ?case by (auto simp: sc_rules_def el_add_rule_def Let_def intro: end_outbound_ok end_inbound_ok)
next
  case (3 p w fds t w' ret evs)
  then show ?case using k_streamsD(4) [of k taken written fds t w w' ret evs] by (simp add: sc_ok_def)
qed

lemma copy_loop_ok:
  "sc_loop k n rs s = Inr (e, rs', s') \<Longrightarrow> set rs \<subseteq> set (sc_rules k) \<Longrightarrow> sc_ok k taken written sock s \<Longrightarrow> sc_ok k taken written sock s'"
proof (induction n arbitrary: rs s)
  case (Suc n)
  obtain rs1 s1 ret where x: "wait_next_event k (- 1) rs s = Inr (rs1, s1, ret)" "if ret = Exit then s' = s1 else sc_loop k n rs1 s1 = Inr (e, rs', s')"
    using Suc.prems(1) by (auto simp: bindE_Inr_iff split: if_splits)
  have w: "sc_ok k taken written sock s1" "set rs1 \<subseteq> set (sc_rules k)"
    using scl.wait_keeps [OF Suc.prems(2,3) x(1)] subseq_set Suc.prems(2) by auto
  show ?case using Suc.IH [OF _ w(2,1)] x(2) w(1) by (auto split: if_splits)
qed simp

text \<open>
  C24. Copying is faithful. After any number of rounds of the loop, what has been written to the socket is a prefix of what has been read from standard input, and what has been written
  to standard output is a prefix of what has been read from the socket; and as long as a stream has not been ended, all that is missing is in its buffer. This holds whatever the system
  accepts or gives at a time.
\<close>

theorem stream_copy_faithful:
  assumes "k_streams k taken written" and "fw_fd socket \<notin> {0, 1}" and "\<And>fd. taken w fd = [] \<and> written w fd = []"
    and "bidirectional_stream_copy k rounds socket w = Inr (ended, rules, (p, w'))"
  shows "prefix (written w' (fw_fd socket)) (taken w' 0) \<and> prefix (written w' 1) (taken w' (fw_fd socket)) \<and>
    (\<not> bs_is_end (sc_outbound p) \<longrightarrow> taken w' 0 = written w' (fw_fd socket) @ bs_buf (sc_outbound p)) \<and>
    (\<not> bs_is_end (sc_inbound p) \<longrightarrow> taken w' (fw_fd socket) = written w' 1 @ bs_buf (sc_inbound p))"
proof -
  let ?p = "\<lambda>f g. \<lparr>sc_socket = socket, sc_input = f, sc_output = g, sc_outbound = bs_new copy_buffer_size, sc_inbound = bs_new copy_buffer_size,
    sc_outbound_shutdown = False, sc_inbound_shutdown = False\<rparr>"
  obtain f g w1 w2 w3 where r: "fw_new STDIN_FILENO = Inr f" "fw_new STDOUT_FILENO = Inr g" "fd_set_blocking k False socket w = Inr w1" "fd_set_blocking k False f w1 = Inr w2"
    "fd_set_blocking k False g w2 = Inr w3" "sc_loop k rounds (sc_rules k) (?p f g, w3) = Inr (ended, rules, (p, w'))"
    using assms(4) by (auto simp: bidirectional_stream_copy_def bindE_Inr_iff)
  have fds: "fw_fd f = 0" "fw_fd g = 1" using r(1,2) by (auto simp: fw_new_def STDIN_FILENO_def STDOUT_FILENO_def)
  have "taken w3 = taken w" "written w3 = written w"
    using streams_blocking [OF assms(1) r(3)] streams_blocking [OF assms(1) r(4)] streams_blocking [OF assms(1) r(5)] by simp_all
  then have "sc_ok k taken written (fw_fd socket) (?p f g, w3)"
    using assms(1-3) fds by (simp add: sc_ok_def sc_pipe_def) (simp add: bs_new_def)
  then have "sc_ok k taken written (fw_fd socket) (p, w')" by (rule copy_loop_ok [OF r(6) subset_refl])
  then show ?thesis by (auto simp: sc_ok_def sc_pipe_def)
qed

text \<open>A system whose descriptors give three bytes and then the end of file, and accept at most three bytes at a time.\<close>

definition kernel_pipes :: "((int \<Rightarrow> bytes) \<times> (int \<Rightarrow> bytes)) kernel" where
  "kernel_pipes = kernel_null\<lparr>
     k_read := \<lambda>fd n (t, v). let d = (if t fd = [] then take n [104, 105, 10] else []) in ((t(fd := t fd @ d), v), int (length d), d),
     k_writev := \<lambda>fd iov (t, v). let d = take 3 (concat (map fst iov)) in ((t, v(fd := v fd @ d)), int (length d))\<rparr>"

lemma kernel_pipes_ok: "k_streams kernel_pipes fst snd"
proof -
  have "take (min (length xs) 3) xs = take 3 xs" for xs :: bytes by (simp add: min_def)
  then show ?thesis
    by (auto simp: k_streams_def k_returns_def kernel_pipes_def kernel_null_def Let_def comp_def split: if_splits)
qed

lemma kernel_pipes_read:
  "3 \<le> limit \<Longrightarrow> fd_read kernel_pipes limit f (t, v) =
     (if t (fw_fd f) = [] then Inr ((t(fw_fd f := [104, 105, 10]), v), fd_register_read f, [104, 105, 10])
      else Inr ((t, v), fd_register_read (f\<lparr>fw_eof := True\<rparr>), []))"
  by (auto simp: fd_read_def kernel_pipes_def kernel_null_def Let_def SystemCall_def to_int32_def resize_int_def overlay_def resize_def min_def BUFFER_SIZE_def)

lemma kernel_pipes_calls:
  "k_writev kernel_pipes fd iov (t, v) = ((t, v(fd := v fd @ take 3 (concat (map fst iov)))), int (min (length (concat (map fst iov))) 3))"
  "k_poll kernel_pipes fds timeout w = (w, int (length fds), map snd fds)" "k_shutdown kernel_pipes fd how w = (w, 0)" "k_close kernel_pipes fd w = (w, 0)"
  "k_getfl kernel_pipes fd w = (w, 0)" "k_setfl kernel_pipes fd flags w = (w, 0)"
  by (simp_all add: kernel_pipes_def kernel_null_def Let_def)

lemma kernel_pipes_write:
  assumes "length b \<le> 3"
  shows "fd_write_str kernel_pipes b False f (t, v) = Inr ((t, v(fw_fd f := v (fw_fd f) @ b)), fd_register_write f, length b)"
proof -
  have n: "nat (int (length b) mod 18446744073709551616) = length b" "to_int32 (int (length b)) = int (length b)" using assms by (auto simp: to_int32_def)
  obtain y where y: "bv_remove_prefix (length b) [b] = Inr y" using bv_remove_prefix_ok [of "length b" "[b]"] by auto
  show ?thesis using assms y n
    by (simp add: fd_write_str_def bv_of_view_def fd_write_def, subst fd_write_loop.simps) (simp add: kernel_pipes_calls SystemCall_def Let_def)
qed

abbreviation fw_demo :: "int \<Rightarrow> bool \<Rightarrow> bool \<Rightarrow> u32 \<Rightarrow> u32 \<Rightarrow> FDWrapper" where
  "fw_demo fd e c r v \<equiv> \<lparr>fw_fd = fd, fw_eof = e, fw_closed = c, fw_read_count = r, fw_write_count = v\<rparr>"

abbreviation bs_demo :: "bool \<Rightarrow> u64 \<Rightarrow> u64 \<Rightarrow> bytes \<Rightarrow> ByteStream" where
  "bs_demo e n m b \<equiv> \<lparr>bs_cap = 1048576, bs_is_end = e, bs_total_bytes_written = n, bs_total_bytes_read = m, bs_buf = b, bs_err = False\<rparr>"

lemmas sc_demo_simps = sc_rules_def el_add_rule_def Let_def wait_next_event_def el_serve_def ru_service_count_def el_revents_def
  sc_wants_input_def sc_wants_socket_out_def sc_wants_socket_in_def sc_wants_output_def sc_read_input_def sc_read_socket_def sc_write_socket_def sc_write_output_def
  sc_end_outbound_def sc_end_inbound_def kernel_pipes_read kernel_pipes_write bs_write_eq bs_pop_output_eq bs_peek_output_eq bs_end_input_def bs_error_def bs_eof_def bs_buffer_empty_def
  bs_buffer_size_def bs_remaining_capacity_def fd_register_read_def fd_register_write_def POLLIN_def POLLOUT_def POLLERR_def POLLNVAL_def POLLHUP_def SystemCall_def to_int32_def

abbreviation sc_demo :: "FDWrapper \<Rightarrow> FDWrapper \<Rightarrow> FDWrapper \<Rightarrow> ByteStream \<Rightarrow> bool \<Rightarrow> StreamCopy" where
  "sc_demo f i g st b \<equiv> \<lparr>sc_socket = f, sc_input = i, sc_output = g, sc_outbound = st, sc_inbound = st, sc_outbound_shutdown = b, sc_inbound_shutdown = b\<rparr>"

text \<open>The three rounds of a run in which both sides say \<open>hi\<close>: reading, the end of both inputs and writing, and leaving the loop.\<close>

lemma sc_round1:
  "wait_next_event kernel_pipes (- 1) (sc_rules kernel_pipes)
     (sc_demo (fw_demo 5 False False 0 0) (fw_demo 0 False False 0 0) (fw_demo 1 False False 0 0) (bs_demo False 0 0 []) False, (\<lambda>_. [], \<lambda>_. [])) =
   Inr (sc_rules kernel_pipes,
     (sc_demo (fw_demo 5 False False 1 0) (fw_demo 0 False False 1 0) (fw_demo 1 False False 0 0) (bs_demo False 3 0 [104, 105, 10]) False,
      ((\<lambda>_. [])(0 := [104, 105, 10], 5 := [104, 105, 10]), \<lambda>_. [])), Success)"
  by (simp add: sc_demo_simps kernel_pipes_calls)

lemma sc_round2:
  "wait_next_event kernel_pipes (- 1) (sc_rules kernel_pipes)
     (sc_demo (fw_demo 5 False False 1 0) (fw_demo 0 False False 1 0) (fw_demo 1 False False 0 0) (bs_demo False 3 0 [104, 105, 10]) False,
      ((\<lambda>_. [])(0 := [104, 105, 10], 5 := [104, 105, 10]), \<lambda>_. [])) =
   Inr (sc_rules kernel_pipes,
     (sc_demo (fw_demo 5 True False 2 2) (fw_demo 0 True False 2 0) (fw_demo 1 True True 0 1) (bs_demo True 3 3 []) True,
      ((\<lambda>_. [])(0 := [104, 105, 10], 5 := [104, 105, 10]), (\<lambda>_. [])(5 := [104, 105, 10], 1 := [104, 105, 10]))), Success)"
  by (simp add: sc_demo_simps kernel_pipes_calls sock_shutdown_def fw_close_def SHUT_RD_def SHUT_WR_def max_copy_length_def)

lemma sc_round3:
  "\<exists>rules. wait_next_event kernel_pipes (- 1) (sc_rules kernel_pipes)
     (sc_demo (fw_demo 5 True False 2 2) (fw_demo 0 True False 2 0) (fw_demo 1 True True 0 1) (bs_demo True 3 3 []) True, w) =
   Inr (rules, (sc_demo (fw_demo 5 True False 2 2) (fw_demo 0 True False 2 0) (fw_demo 1 True True 0 1) (bs_demo True 3 3 []) True, w), Exit)"
  by (simp add: sc_demo_simps)

lemma sc_demo_run:
  "\<exists>rules. bidirectional_stream_copy kernel_pipes 3 (fw_demo 5 False False 0 0) (\<lambda>_. [], \<lambda>_. []) =
   Inr (True, rules, sc_demo (fw_demo 5 True False 2 2) (fw_demo 0 True False 2 0) (fw_demo 1 True True 0 1) (bs_demo True 3 3 []) True,
      ((\<lambda>_. [])(0 := [104, 105, 10], 5 := [104, 105, 10]), (\<lambda>_. [])(5 := [104, 105, 10], 1 := [104, 105, 10])))"
proof -
  obtain rules where r: "wait_next_event kernel_pipes (- 1) (sc_rules kernel_pipes)
     (sc_demo (fw_demo 5 True False 2 2) (fw_demo 0 True False 2 0) (fw_demo 1 True True 0 1) (bs_demo True 3 3 []) True,
        ((\<lambda>_. [])(0 := [104, 105, 10], 5 := [104, 105, 10]), (\<lambda>_. [])(5 := [104, 105, 10], 1 := [104, 105, 10]))) =
     Inr (rules, (sc_demo (fw_demo 5 True False 2 2) (fw_demo 0 True False 2 0) (fw_demo 1 True True 0 1) (bs_demo True 3 3 []) True,
        ((\<lambda>_. [])(0 := [104, 105, 10], 5 := [104, 105, 10]), (\<lambda>_. [])(5 := [104, 105, 10], 1 := [104, 105, 10]))), Exit)"
    using sc_round3 by blast
  show ?thesis
    unfolding bidirectional_stream_copy_def eval_nat_numeral sc_loop.simps
    by (simp add: sc_round1 sc_round2 r fw_new_def STDIN_FILENO_def STDOUT_FILENO_def fd_set_blocking_def kernel_pipes_calls SystemCall_def to_int32_def bs_new_def copy_buffer_size_def Let_def
          cong del: if_weak_cong)
qed

theorem stream_copy_faithful_witness:
  "\<exists>rules p w'. bidirectional_stream_copy kernel_pipes 3 (fw_demo 5 False False 0 0) (\<lambda>_. [], \<lambda>_. []) = Inr (True, rules, p, w') \<and>
     snd w' 1 = [104, 105, 10] \<and> prefix (snd w' 5) (fst w' 0) \<and> prefix (snd w' 1) (fst w' 5)"
proof -
  obtain rules p w' where r: "bidirectional_stream_copy kernel_pipes 3 (fw_demo 5 False False 0 0) (\<lambda>_. [], \<lambda>_. []) = Inr (True, rules, p, w')" "snd w' 1 = [104, 105, 10]"
    using sc_demo_run by fastforce
  show ?thesis using stream_copy_faithful [OF kernel_pipes_ok _ _ r(1)] r by simp
qed

end
