(* ===== verification/Spec2Isabelle.thy ===== *)
theory Spec2Isabelle
  imports Tcp_Link Arp_Exchange Router Sponge_Correct Stream_Copy
begin

text \<open>
  A verification of the TCP/IP stack under \<^verbatim>\<open>src/libsponge\<close>, from sequence numbers to sockets, with the copying loop that its programs share.

  \<^bold>\<open>The program.\<close> An application writes to and reads from a \<open>TCPSpongeSocket\<close>. Its thread runs a \<open>TCPConnection\<close> in an \<open>EventLoop\<close>: bytes of the application go through a
  \<open>ByteStream\<close> to the \<open>TCPSender\<close>, which makes segments of them; segments from the network go to the \<open>TCPReceiver\<close>, whose \<open>StreamReassembler\<close> puts their payload in order
  into another \<open>ByteStream\<close>. Segments leave and enter through an adapter, which carries them in UDP datagrams, in IPv4 datagrams on a TUN device, or in IPv4 datagrams in Ethernet
  frames through a \<open>NetworkInterface\<close> that resolves addresses with ARP; a lossy adapter drops some. A \<open>Router\<close> forwards datagrams between interfaces.
  The programs copy between a socket and the terminal with \<open>bidirectional_stream_copy\<close>.

  \<^bold>\<open>How the code is modelled.\<close> A class is a record whose fields are its members, with a prefix (\<open>bs_\<close>, \<open>sr_\<close>, \<open>rcv_\<close>, \<open>snd_\<close>, \<open>cn_\<close>, \<open>ni_\<close>, \<open>rt_\<close>, \<open>sp_\<close>
  and so on); a method is a function with the same prefix that returns the new object. Fixed-width integers are words, so that wrap-around is that of the code. A method that can throw or have
  undefined behaviour returns an \<open>'a res\<close>: \<open>Inl\<close> of the exception, or of \<open>UB\<close>. A \<open>std::map\<close> is a list sorted by key; a \<open>std::queue\<close> is a list; a shared buffer is its string and offset. Loops are
  recursive functions. What is outside the sources is an argument of the definitions: the C library (\<open>libc\<close>), the operating system (\<open>kernel\<close>, a record of system calls on an
  arbitrary state), random numbers. What theorems need of them is a named hypothesis (\<open>libc_ok\<close>, \<open>k_writes\<close>, \<open>k_blocks\<close>, \<open>k_reads\<close>, \<open>k_datagrams\<close>, \<open>k_sends\<close>, \<open>k_returns\<close>, \<open>k_streams\<close>), which states what the
  manual pages say and for which there is an instance.

  \<^bold>\<open>The theories.\<close>

  \<^item> \<open>Sponge_Prelude\<close>: types, results, reachability and the locale \<open>invariant_system\<close>. \<open>Std_Map\<close>: ordered maps (locale \<open>ordered_map\<close>). \<open>Text_Format\<close>: how numbers are printed.
  \<^item> \<open>Wrapping_Integers\<close> (\<^verbatim>\<open>wrapping_integers.cc\<close>): \<open>unwrap\<close> gives the closest 64-bit number, and inverts \<open>wrap\<close> near the checkpoint (locale \<open>seqno_space\<close>).
  \<^item> \<open>Byte_Stream\<close> (\<^verbatim>\<open>byte_stream.cc\<close>): a bounded queue of bytes that is neither reordered nor cut (locale \<open>byte_pipe\<close>).
  \<^item> \<open>Stream_Reassembler\<close>, \<open>Reassembler_Correct\<close> (\<^verbatim>\<open>stream_reassembler.cc\<close>): the output is always a prefix of the stream; what a push does to the bytes held; when it is undefined; how much is stored.
  \<^item> \<open>Tcp_Receiver\<close>, \<open>Receiver_Correct\<close> (\<^verbatim>\<open>tcp_receiver.cc\<close>): the same with 32-bit sequence numbers, and which segments are accepted.
  \<^item> \<open>Tcp_Sender\<close>, \<open>Sender_Correct\<close> (\<^verbatim>\<open>tcp_sender.cc\<close>): all segments are pieces of the stream, none is beyond the window of the peer, and the timer backs off.
  \<^item> \<open>Tcp_Link\<close>: a sender and a receiver over a network that loses, repeats and reorders. Whatever is delivered is a prefix of what was written.
  \<^item> \<open>Tcp_Segment\<close>, \<open>Tcp_State\<close>, \<open>Tcp_Connection\<close>, \<open>Connection_Correct\<close> (\<^verbatim>\<open>tcp_connection.cc\<close>, \<^verbatim>\<open>tcp_helpers/tcp_state.cc\<close>): opening, closing, lingering, reset and giving up, for any behaviour of the peer.
  \<^item> \<open>Buffers\<close>, \<open>Net_Parser\<close>, \<open>Codec_Lib\<close>, \<open>Checksum\<close> (\<^verbatim>\<open>util/buffer.cc\<close>, \<^verbatim>\<open>util/parser.cc\<close>, \<^verbatim>\<open>util/util.cc\<close>): strings cut from the front (locale \<open>discardable\<close>), integers in network byte order (locale
    \<open>field_codec\<close>), and the Internet checksum against RFC 1071.
  \<^item> \<open>Tcp_Codec\<close>, \<open>Ipv4\<close>, \<open>Ethernet\<close>, \<open>Tcp_Over_Ip\<close> (\<^verbatim>\<open>tcp_helpers\<close>): wire formats; what is serialized is parsed back, and what the parsers let through.
  \<^item> \<open>Net_Address\<close> (\<^verbatim>\<open>util/address.cc\<close>): addresses as bytes.
  \<^item> \<open>Network_Interface\<close>, \<open>Arp_Exchange\<close> (\<^verbatim>\<open>network_interface.cc\<close>): the life of mappings and requests, and the delivery of a datagram to an unknown neighbour.
  \<^item> \<open>Router\<close> (\<^verbatim>\<open>router.cc\<close>): what happens to every datagram, that routing ends, and which route wins.
  \<^item> \<open>File_Descriptor\<close>, \<open>Sockets\<close> (\<^verbatim>\<open>util/file_descriptor.cc\<close>, \<^verbatim>\<open>util/socket.cc\<close>, \<^verbatim>\<open>util/tun.cc\<close>): system calls with their errors; writing ends and writes each byte once; a datagram is never cut.
  \<^item> \<open>Event_Loop\<close> (\<^verbatim>\<open>util/eventloop.cc\<close>): rules and \<open>wait_next_event\<close>; what the loop keeps (locale \<open>looped\<close>), and that it makes progress.
  \<^item> \<open>Fd_Adapters\<close> (\<^verbatim>\<open>tcp_helpers/fd_adapter.cc\<close>, \<^verbatim>\<open>lossy_fd_adapter.hh\<close>, \<^verbatim>\<open>tuntap_adapter.cc\<close>): the adapters as records of operations.
  \<^item> \<open>Sponge_Socket\<close>, \<open>Sponge_Correct\<close> (\<^verbatim>\<open>tcp_helpers/tcp_sponge_socket.cc\<close>): the socket. The loop with its rules keeps the connection within the runs that \<open>Connection_Correct\<close> is
    about, loses no byte in either direction, and ends.
  \<^item> \<open>Stream_Copy\<close> (\<^verbatim>\<open>apps/bidirectional_stream_copy.cc\<close>): the loop between a socket and the terminal writes, in both directions, a prefix of what it has read.

  \<^bold>\<open>How they fit together.\<close> The locales are interpreted on the model: \<open>invariant_system\<close> by the reassembler, the receiver, the sender, the link, the connection and the network interface, each with its own
  steps and invariant; \<open>ordered_map\<close> by the sorted lists that the reassembler and the interface use; \<open>looped\<close> by the four rules of the socket, with the invariant that the connection is reachable, and by the four rules of the copying loop, with the invariant
  that each stream holds what has been read and not yet written. So a
  property of every reachable connection is one of the connection in every socket.

  \<^bold>\<open>Fuel.\<close> Loops whose end follows from the data are total functions with a measure: the fill loop of the sender (window left), the write loop of a descriptor (bytes left), the drain loop of
  the Ethernet adapter (frames left), the loops over maps; the inner loop of the router is given the length of
  the queue it empties, which is enough, as the queues are empty at the end. Only the loops of a socket and of the copying program, which can wait
  for ever, are given a number of rounds, and say whether they have ended; their theorems hold for every number, and
  \<open>sponge_thread_ends\<close> says when one round is enough.

  \<^bold>\<open>What the model shows of the code.\<close> Several theorems state behaviour that is not what the comments promise: the reassembler can lose its place or reach undefined behaviour for some segments, the receiver
  cuts a stream at a FIN beyond its window, parsers accept packets with broken headers, the interface keeps only one datagram for an unknown neighbour, the router prefers the route added last to the
  one with the longest prefix and has undefined shifts, and the event loop forgets errors of poll.

  \<^bold>\<open>Not modelled.\<close> The interleaving of the two threads of a socket: the flag that the owner's thread sets is read from outside at every round, and the calls that join the thread take as an argument what it still does. The text
  of exceptions and of debugging output, except that the calls that make it may throw. Handles on a shared descriptor are not counted. The seeding of the random generator. The other programs under \<^verbatim>\<open>apps\<close>,
  which read arguments and set up sockets, and the test programs.
\<close>

end
